(* ===== verification/Prelude.thy ===== *)
theory Prelude
  imports Main "HOL-Library.Word"
begin

text \<open>
  Shared vocabulary of the development: machine-integer arithmetic with its wrap-around written
  out, the byte type, results as sums, and the list lemmas that several components use.

  Unsigned 64/32/8-bit values are natural numbers below the width; every Rust operator whose
  result can leave the width is one of the functions below (release builds wrap, and no profile
  of the workspace turns overflow checks on). The lemmas collected in \<open>nowrap\<close> turn them into
  plain arithmetic where the operands are in range.
\<close>

named_theorems nowrap "machine arithmetic is plain arithmetic when nothing wraps"

type_synonym byte = "8 word"

subsection \<open>Machine arithmetic\<close>

definition u64_add :: "nat \<Rightarrow> nat \<Rightarrow> nat" where
  "u64_add a b = (a + b) mod 2 ^ 64"

definition u64_sub :: "nat \<Rightarrow> nat \<Rightarrow> nat" where
  "u64_sub a b = (if b \<le> a then a - b else a + 2 ^ 64 - b)"

definition u64_mul :: "nat \<Rightarrow> nat \<Rightarrow> nat" where
  "u64_mul a b = (a * b) mod 2 ^ 64"

definition u32_add :: "nat \<Rightarrow> nat \<Rightarrow> nat" where
  "u32_add a b = (a + b) mod 2 ^ 32"

definition u32_sub :: "nat \<Rightarrow> nat \<Rightarrow> nat" where
  "u32_sub a b = (if b \<le> a then a - b else a + 2 ^ 32 - b)"

definition u8_add :: "nat \<Rightarrow> nat \<Rightarrow> nat" where
  "u8_add a b = (a + b) mod 2 ^ 8"

definition as_u32 :: "nat \<Rightarrow> nat" where
  "as_u32 a = a mod 2 ^ 32"

definition as_u8 :: "nat \<Rightarrow> nat" where
  "as_u8 a = a mod 2 ^ 8"

definition checked_add_u64 :: "nat \<Rightarrow> nat \<Rightarrow> nat option" where
  "checked_add_u64 a b = (if a + b < 2 ^ 64 then Some (a + b) else None)"

definition saturating_add_u64 :: "nat \<Rightarrow> nat \<Rightarrow> nat" where
  "saturating_add_u64 a b = min (a + b) (2 ^ 64 - 1)"

lemma u64_add_nowrap [nowrap]: "a + b < 2 ^ 64 \<Longrightarrow> u64_add a b = a + b"
  by (simp add: u64_add_def)

lemma u64_sub_nowrap [nowrap]: "b \<le> a \<Longrightarrow> u64_sub a b = a - b"
  by (simp add: u64_sub_def)

lemma u64_mul_nowrap [nowrap]: "a * b < 2 ^ 64 \<Longrightarrow> u64_mul a b = a * b"
  by (simp add: u64_mul_def)

lemma u32_add_nowrap [nowrap]: "a + b < 2 ^ 32 \<Longrightarrow> u32_add a b = a + b"
  by (simp add: u32_add_def)

lemma u32_sub_nowrap [nowrap]: "b \<le> a \<Longrightarrow> u32_sub a b = a - b"
  by (simp add: u32_sub_def)

lemma u8_add_nowrap [nowrap]: "a + b < 2 ^ 8 \<Longrightarrow> u8_add a b = a + b"
  by (simp add: u8_add_def)

lemma as_u32_nowrap [nowrap]: "a < 2 ^ 32 \<Longrightarrow> as_u32 a = a"
  by (simp add: as_u32_def)

lemma as_u8_nowrap [nowrap]: "a < 2 ^ 8 \<Longrightarrow> as_u8 a = a"
  by (simp add: as_u8_def)

lemma as_u32_bound [simp]: "as_u32 a < 2 ^ 32"
  by (simp add: as_u32_def)

lemma as_u8_bound [simp]: "as_u8 a < 2 ^ 8"
  by (simp add: as_u8_def)

subsection \<open>Prefixes of sorted lists\<close>

lemma dropWhile_sorted_filter:
  "sorted_wrt R xs \<Longrightarrow>
   (\<And>a b. a \<in> set xs \<Longrightarrow> b \<in> set xs \<Longrightarrow> R a b \<Longrightarrow> \<not> P a \<Longrightarrow> \<not> P b) \<Longrightarrow>
   dropWhile P xs = filter (\<lambda>x. \<not> P x) xs"
proof (induction xs)
  case (Cons x xs)
  then show ?case
    by (auto simp: filter_id_conv intro!: filter_True [symmetric])
qed simp

lemma takeWhile_sorted_filter:
  "sorted_wrt R xs \<Longrightarrow>
   (\<And>a b. a \<in> set xs \<Longrightarrow> b \<in> set xs \<Longrightarrow> R a b \<Longrightarrow> \<not> P a \<Longrightarrow> \<not> P b) \<Longrightarrow>
   takeWhile P xs = filter P xs"
proof (induction xs)
  case (Cons x xs)
  then show ?case
    by (auto simp: filter_empty_conv intro!: filter_False [symmetric])
qed simp

subsection \<open>Little-endian bytes\<close>

fun le_bytes :: "nat \<Rightarrow> nat \<Rightarrow> byte list" where
  "le_bytes 0 v = []"
| "le_bytes (Suc k) v = of_nat (v mod 256) # le_bytes k (v div 256)"

fun le_nat :: "byte list \<Rightarrow> nat" where
  "le_nat [] = 0"
| "le_nat (b # bs) = unat b + 256 * le_nat bs"

lemma length_le_bytes [simp]: "length (le_bytes k v) = k"
  by (induction k arbitrary: v) auto

lemma le_nat_le_bytes: "le_nat (le_bytes k v) = v mod 256 ^ k"
proof (induction k arbitrary: v)
  case (Suc k)
  have "unat (of_nat (v mod 256) :: byte) = v mod 256"
    by (simp add: unat_of_nat)
  then show ?case using Suc by (simp add: mod_mult2_eq)
qed simp

lemma le_nat_bound: "le_nat bs < 256 ^ length bs"
proof (induction bs)
  case (Cons b bs)
  have "unat b < 256" using unsigned_less [of b] by simp
  moreover have "256 * le_nat bs \<le> 256 * (256 ^ length bs - 1)" using Cons by simp
  ultimately show ?case using Cons by (simp add: algebra_simps)
qed simp

lemma le_bytes_le_nat: "le_bytes (length bs) (le_nat bs) = bs"
proof (induction bs)
  case (Cons b bs)
  have "unat b < 256" using unsigned_less [of b] by simp
  then show ?case using Cons by simp
qed simp

subsection \<open>Slices\<close>

definition subslice :: "nat \<Rightarrow> nat \<Rightarrow> 'a list \<Rightarrow> 'a list" where
  "subslice a n xs = take n (drop a xs)"

lemma subslice_append:
  "subslice a n (xs @ ys) =
     (if a + n \<le> length xs then subslice a n xs
      else if length xs \<le> a then subslice (a - length xs) n ys
      else drop a xs @ take (a + n - length xs) ys)"
  by (auto simp: subslice_def) (simp add: add.commute)

lemma subslice_all: "length xs = n \<Longrightarrow> subslice 0 n xs = xs"
  by (simp add: subslice_def)

subsection \<open>Results\<close>

datatype error = NoSpace | Panic | Diverges | Err string

text \<open>
  A fallible operation on a state returns the error or value together with the state it leaves:
  an early return by the question-mark operator keeps every change made so far.
\<close>

type_synonym ('a, 's) outcome = "(error + 'a) \<times> 's"

fun bindR :: "('a, 's) outcome \<Rightarrow> ('a \<Rightarrow> 's \<Rightarrow> ('b, 's) outcome) \<Rightarrow> ('b, 's) outcome" where
  "bindR (Inl e, s) k = (Inl e, s)"
| "bindR (Inr v, s) k = k v s"

definition ensureR :: "bool \<Rightarrow> error \<Rightarrow> 's \<Rightarrow> (unit, 's) outcome" where
  "ensureR c e s = (if c then (Inr (), s) else (Inl e, s))"

lemma bindR_eq_Inr:
  "bindR r k = (Inr v, s) \<longleftrightarrow> (\<exists>u t. r = (Inr u, t) \<and> k u t = (Inr v, s))"
  by (cases r; cases "fst r") auto

lemma ensureR_eq_Inr [simp]: "ensureR c e s = (Inr v, t) \<longleftrightarrow> c \<and> t = s"
  by (auto simp: ensureR_def)

lemma bindR_ensureR [simp]: "c \<Longrightarrow> bindR (ensureR c e s) k = k () s"
  by (simp add: ensureR_def)

end
