(* ===== verification/Lsmt_Index.thy ===== *)
theory Lsmt_Index
  imports Prelude
begin

text \<open>
  The in-memory block index of the LSMT format, \<^verbatim>\<open>storage/overlaybd/src/lsmt/index.rs\<close>.

  Segments and segment mappings, compression of a raw index, the read-only index and the merge of a
  stack of them, the mutable index (a \<^verbatim>\<open>BTreeSet\<close> ordered by segment offset, modelled as the list
  of its elements in that order) and the combined index of a writable layer over read-only ones.

  The contract of an index is the block map it denotes: \<open>imap\<close> sends a block number to the cell
  (zero flag, physical block, layer tag) of the mapping that covers it. A lookup is the restriction
  of that map to the query, an insertion is its update on the inserted range, a merge is the
  topmost layer that maps the block. The locale \<open>log_index\<close> is the trait \<^verbatim>\<open>LogIndex\<close>; it is
  interpreted for the three index types.
\<close>

section \<open>The LSMT index\<close>

subsection \<open>Segments and segment mappings\<close>

definition NO_PHYSICAL_OFFSET :: nat where
  "NO_PHYSICAL_OFFSET = 2 ^ 55 - 1"

definition MAX_LENGTH :: nat where
  "MAX_LENGTH = 2 ^ 14 - 1"

record Segment =
  seg_offset :: nat
  seg_length :: nat

definition Segment_new :: "nat \<Rightarrow> nat \<Rightarrow> Segment" where
  "Segment_new off len = \<lparr>seg_offset = off, seg_length = len\<rparr>"

definition Segment_end :: "Segment \<Rightarrow> nat" where
  "Segment_end s = u64_add (seg_offset s) (seg_length s)"

definition Segment_forward_offset_to :: "Segment \<Rightarrow> nat \<Rightarrow> Segment \<times> nat" where
  "Segment_forward_offset_to s x =
     (if x \<le> seg_offset s then (s, 0)
      else let delta = u64_sub x (seg_offset s)
           in if delta \<ge> seg_length s
              then (s\<lparr>seg_length := 0, seg_offset := x\<rparr>, delta)
              else (s\<lparr>seg_length := u32_sub (seg_length s) (as_u32 delta), seg_offset := x\<rparr>, delta))"

definition Segment_backward_end_to :: "Segment \<Rightarrow> nat \<Rightarrow> Segment" where
  "Segment_backward_end_to s x =
     (if x > seg_offset s
      then s\<lparr>seg_length := as_u32 (u64_sub x (seg_offset s))\<rparr>
      else s\<lparr>seg_length := 0\<rparr>)"

record SegmentMapping =
  segment :: Segment
  moffset :: nat
  zeroed :: bool
  tag :: nat

abbreviation m_offset :: "SegmentMapping \<Rightarrow> nat" where
  "m_offset m \<equiv> seg_offset (segment m)"

abbreviation m_length :: "SegmentMapping \<Rightarrow> nat" where
  "m_length m \<equiv> seg_length (segment m)"

definition SegmentMapping_new :: "nat \<Rightarrow> nat \<Rightarrow> nat \<Rightarrow> bool \<Rightarrow> nat \<Rightarrow> SegmentMapping" where
  "SegmentMapping_new off len mo z t =
     \<lparr>segment = Segment_new off len, moffset = mo, zeroed = z, tag = t\<rparr>"

definition m_end :: "SegmentMapping \<Rightarrow> nat" where
  "m_end m = Segment_end (segment m)"

definition has_physical_range :: "SegmentMapping \<Rightarrow> bool" where
  "has_physical_range m \<longleftrightarrow> moffset m \<noteq> NO_PHYSICAL_OFFSET"

definition mend :: "SegmentMapping \<Rightarrow> nat" where
  "mend m = (if has_physical_range m then u64_add (moffset m) (m_length m) else NO_PHYSICAL_OFFSET)"

definition forward_offset_to :: "SegmentMapping \<Rightarrow> nat \<Rightarrow> SegmentMapping" where
  "forward_offset_to m x =
     (let (s, delta) = Segment_forward_offset_to (segment m) x;
          m' = m\<lparr>segment := s\<rparr>
      in if has_physical_range m \<and> delta > 0
         then m'\<lparr>moffset := u64_add (moffset m) delta\<rparr> else m')"

definition backward_end_to :: "SegmentMapping \<Rightarrow> nat \<Rightarrow> SegmentMapping" where
  "backward_end_to m x = m\<lparr>segment := Segment_backward_end_to (segment m) x\<rparr>"

definition can_merge_with :: "SegmentMapping \<Rightarrow> SegmentMapping \<Rightarrow> bool" where
  "can_merge_with m n \<longleftrightarrow>
     m_end m = m_offset n \<and> zeroed m = zeroed n \<and> tag m = tag n
     \<and> has_physical_range m = has_physical_range n \<and> mend m = moffset n
     \<and> m_length m + m_length n \<le> MAX_LENGTH"

subsection \<open>Compressing a raw index\<close>

definition compress_step :: "nat \<Rightarrow> nat \<times> SegmentMapping list \<Rightarrow> nat \<times> SegmentMapping list" where
  "compress_step j s =
     (let (i, xs) = s; m_i = xs ! i; m_j = xs ! j
      in if can_merge_with m_i m_j
         then (i, xs[i := m_i\<lparr>segment := (segment m_i)\<lparr>seg_length := u32_add (m_length m_i) (m_length m_j)\<rparr>\<rparr>])
         else (Suc i, xs[Suc i := m_j]))"

definition compress_raw_index :: "SegmentMapping list \<Rightarrow> nat \<times> SegmentMapping list" where
  "compress_raw_index xs =
     (let n = length xs
      in if n < 2 then (n, xs)
         else let (i, ys) = fold compress_step [1..<n] (0, xs)
              in (i + 1, take (i + 1) ys))"

definition predict_step :: "SegmentMapping \<Rightarrow> nat \<times> SegmentMapping \<Rightarrow> nat \<times> SegmentMapping" where
  "predict_step item s =
     (let (i, m) = s
      in if can_merge_with m item
         then (i, m\<lparr>segment := (segment m)\<lparr>seg_length := u32_add (m_length m) (m_length item)\<rparr>\<rparr>)
         else (i + 1, item))"

definition compress_raw_index_predict :: "SegmentMapping list \<Rightarrow> nat" where
  "compress_raw_index_predict xs =
     (let n = length xs
      in if n < 2 then n
         else fst (fold predict_step (drop 1 (take n xs)) (0, xs ! 0)) + 1)"

subsection \<open>The read-only index\<close>

type_synonym ReadOnlyIndex = "SegmentMapping list"

definition ReadOnlyIndex_new :: "SegmentMapping list \<Rightarrow> ReadOnlyIndex" where
  "ReadOnlyIndex_new ms =
     map (\<lambda>m. if zeroed m then m\<lparr>moffset := NO_PHYSICAL_OFFSET\<rparr> else m) ms"

definition partition_point :: "('a \<Rightarrow> bool) \<Rightarrow> 'a list \<Rightarrow> nat" where
  "partition_point P xs = length (takeWhile P xs)"

definition clip :: "Segment \<Rightarrow> SegmentMapping \<Rightarrow> SegmentMapping" where
  "clip q m =
     (let mp = (if m_offset m < seg_offset q then forward_offset_to m (seg_offset q) else m)
      in if m_end mp > Segment_end q then backward_end_to mp (Segment_end q) else mp)"

definition ReadOnlyIndex_lookup :: "ReadOnlyIndex \<Rightarrow> Segment \<Rightarrow> SegmentMapping list" where
  "ReadOnlyIndex_lookup ms q =
     (if seg_length q = 0 \<or> ms = [] then []
      else let idx = partition_point (\<lambda>m. m_end m \<le> seg_offset q) ms
           in filter (\<lambda>mp. m_length mp > 0)
                (map (clip q) (takeWhile (\<lambda>m. \<not> m_offset m \<ge> Segment_end q) (drop idx ms))))"

subsection \<open>The mutable index\<close>

type_synonym MutableIndex = "SegmentMapping list"

fun bt_insert :: "SegmentMapping \<Rightarrow> MutableIndex \<Rightarrow> MutableIndex" where
  "bt_insert m [] = [m]"
| "bt_insert m (x # xs) =
     (if m_offset m < m_offset x then m # x # xs
      else if m_offset m = m_offset x then x # xs
      else x # bt_insert m xs)"

definition bt_remove :: "SegmentMapping \<Rightarrow> MutableIndex \<Rightarrow> MutableIndex" where
  "bt_remove m xs = filter (\<lambda>x. m_offset x \<noteq> m_offset m) xs"

definition bt_range_to :: "nat \<Rightarrow> MutableIndex \<Rightarrow> MutableIndex" where
  "bt_range_to k xs = filter (\<lambda>x. m_offset x < k) xs"

definition bt_range :: "nat \<Rightarrow> nat \<Rightarrow> MutableIndex \<Rightarrow> MutableIndex" where
  "bt_range a b xs = filter (\<lambda>x. a \<le> m_offset x \<and> m_offset x < b) xs"

definition cut_old :: "SegmentMapping \<Rightarrow> SegmentMapping \<Rightarrow> MutableIndex \<Rightarrow> MutableIndex" where
  "cut_old m old xs =
     (let xs0 = bt_remove old xs;
          left = backward_end_to old (m_offset m);
          xs1 = (if m_offset old < m_offset m \<and> m_length left > 0 then bt_insert left xs0 else xs0);
          right = forward_offset_to old (m_end m)
      in if m_end old > m_end m \<and> m_length right > 0 then bt_insert right xs1 else xs1)"

definition MutableIndex_insert :: "MutableIndex \<Rightarrow> SegmentMapping \<Rightarrow> MutableIndex" where
  "MutableIndex_insert xs m =
     (if m_length m = 0 then xs
      else let to_remove = takeWhile (\<lambda>other. \<not> m_end other \<le> m_offset m)
                             (rev (bt_range_to (m_end m) xs))
           in bt_insert m (fold (cut_old m) to_remove xs))"

definition MutableIndex_lookup :: "MutableIndex \<Rightarrow> Segment \<Rightarrow> SegmentMapping list" where
  "MutableIndex_lookup xs q =
     (if seg_length q = 0 then []
      else
        let end_offset = Segment_end q;
            before = bt_range_to (seg_offset q) xs;
            head = (if before = [] then []
                    else let left = last before
                         in if m_end left > seg_offset q
                            then filter (\<lambda>mp. m_length mp > 0) [clip q left] else []);
            scan = bt_range (seg_offset q) end_offset xs
        in head @ filter (\<lambda>mp. m_length mp > 0)
             (map (\<lambda>m. if m_end m > end_offset then backward_end_to m end_offset else m) scan))"

definition ReadOnlyIndex_merge :: "ReadOnlyIndex list \<Rightarrow> ReadOnlyIndex" where
  "ReadOnlyIndex_merge indexes =
     ReadOnlyIndex_new
       (fold (\<lambda>(i, ms) mi. fold (\<lambda>m mi. MutableIndex_insert mi (m\<lparr>tag := as_u8 i\<rparr>)) ms mi)
         (rev (enumerate 0 indexes)) [])"

subsection \<open>The combined index\<close>

record ComboIndex =
  upper :: MutableIndex
  lower :: "ReadOnlyIndex option"

definition ComboIndex_new :: "MutableIndex \<Rightarrow> ReadOnlyIndex option \<Rightarrow> nat \<Rightarrow> ComboIndex" where
  "ComboIndex_new up low ro_layers_count =
     \<lparr>upper = (if ro_layers_count > 0
               then fold (\<lambda>m acc. bt_insert (m\<lparr>tag := u8_add (tag m) ro_layers_count\<rparr>) acc) up []
               else up),
      lower = low\<rparr>"

definition ComboIndex_insert :: "ComboIndex \<Rightarrow> SegmentMapping \<Rightarrow> ComboIndex" where
  "ComboIndex_insert ci m = ci\<lparr>upper := MutableIndex_insert (upper ci) m\<rparr>"

fun combo_scan :: "ReadOnlyIndex \<Rightarrow> nat \<Rightarrow> nat \<Rightarrow> SegmentMapping list \<Rightarrow> SegmentMapping list" where
  "combo_scan low current_pos end_pos [] =
     (if current_pos < end_pos
      then ReadOnlyIndex_lookup low (Segment_new current_pos (as_u32 (u64_sub end_pos current_pos)))
      else [])"
| "combo_scan low current_pos end_pos (m # ms) =
     (if m_offset m > current_pos
      then ReadOnlyIndex_lookup low (Segment_new current_pos (as_u32 (u64_sub (m_offset m) current_pos)))
      else []) @ m # combo_scan low (m_end m) end_pos ms"

definition ComboIndex_lookup :: "ComboIndex \<Rightarrow> Segment \<Rightarrow> SegmentMapping list" where
  "ComboIndex_lookup ci q =
     (if seg_length q = 0 then []
      else case lower ci of
             None \<Rightarrow> MutableIndex_lookup (upper ci) q
           | Some low \<Rightarrow>
               combo_scan low (seg_offset q) (Segment_end q) (MutableIndex_lookup (upper ci) q))"

subsection \<open>What an index denotes\<close>

datatype cell = Cell (cell_zeroed: bool) (cell_phys: "nat option") (cell_tag: nat)

definition covers :: "SegmentMapping \<Rightarrow> nat \<Rightarrow> bool" where
  "covers m b \<longleftrightarrow> m_offset m \<le> b \<and> b < m_offset m + m_length m"

definition cell_at :: "SegmentMapping \<Rightarrow> nat \<Rightarrow> cell" where
  "cell_at m b =
     Cell (zeroed m) (if has_physical_range m then Some (moffset m + (b - m_offset m)) else None) (tag m)"

fun imap :: "SegmentMapping list \<Rightarrow> nat \<Rightarrow> cell option" where
  "imap [] b = None"
| "imap (m # ms) b = (if covers m b then Some (cell_at m b) else imap ms b)"

definition mapping_ok :: "SegmentMapping \<Rightarrow> bool" where
  "mapping_ok m \<longleftrightarrow>
     m_offset m + m_length m < 2 ^ 64 \<and> m_length m < 2 ^ 32 \<and> tag m < 2 ^ 8
     \<and> moffset m \<le> NO_PHYSICAL_OFFSET
     \<and> (has_physical_range m \<longrightarrow> moffset m + m_length m \<le> NO_PHYSICAL_OFFSET)
     \<and> (zeroed m \<or> has_physical_range m)"

definition disjoint_before :: "SegmentMapping \<Rightarrow> SegmentMapping \<Rightarrow> bool" where
  "disjoint_before a b \<longleftrightarrow> m_offset a + m_length a \<le> m_offset b"

definition index_ok :: "SegmentMapping list \<Rightarrow> bool" where
  "index_ok ms \<longleftrightarrow> (\<forall>m\<in>set ms. mapping_ok m \<and> m_length m > 0) \<and> sorted_wrt disjoint_before ms"

definition segment_ok :: "Segment \<Rightarrow> bool" where
  "segment_ok s \<longleftrightarrow> seg_offset s + seg_length s < 2 ^ 64 \<and> seg_length s < 2 ^ 32"

definition in_segment :: "Segment \<Rightarrow> nat \<Rightarrow> bool" where
  "in_segment s b \<longleftrightarrow> seg_offset s \<le> b \<and> b < seg_offset s + seg_length s"

subsection \<open>Basic facts\<close>

lemma Segment_new_simps [simp]:
  "seg_offset (Segment_new a b) = a" "seg_length (Segment_new a b) = b"
  by (simp_all add: Segment_new_def)

lemma SegmentMapping_new_simps [simp]:
  "segment (SegmentMapping_new a b c d e) = Segment_new a b"
  "moffset (SegmentMapping_new a b c d e) = c"
  "zeroed (SegmentMapping_new a b c d e) = d"
  "tag (SegmentMapping_new a b c d e) = e"
  by (simp_all add: SegmentMapping_new_def)

lemma Segment_end_ok [nowrap]: "segment_ok s \<Longrightarrow> Segment_end s = seg_offset s + seg_length s"
  by (simp add: Segment_end_def segment_ok_def nowrap)

lemma m_end_ok [nowrap]: "mapping_ok m \<Longrightarrow> m_end m = m_offset m + m_length m"
  by (simp add: m_end_def Segment_end_def mapping_ok_def nowrap)

lemma index_ok_Nil [simp]: "index_ok []"
  by (simp add: index_ok_def)

lemma index_ok_Cons:
  "index_ok (m # ms) \<longleftrightarrow>
     mapping_ok m \<and> m_length m > 0 \<and> (\<forall>x\<in>set ms. disjoint_before m x) \<and> index_ok ms"
  by (auto simp: index_ok_def)

lemma index_ok_append:
  "index_ok (xs @ ys) \<longleftrightarrow>
     index_ok xs \<and> index_ok ys \<and> (\<forall>x\<in>set xs. \<forall>y\<in>set ys. disjoint_before x y)"
  by (auto simp: index_ok_def sorted_wrt_append)

lemma index_ok_mem: "index_ok ms \<Longrightarrow> m \<in> set ms \<Longrightarrow> mapping_ok m \<and> m_length m > 0"
  by (simp add: index_ok_def)

lemma index_ok_filter: "index_ok ms \<Longrightarrow> index_ok (filter P ms)"
  by (auto simp: index_ok_def sorted_wrt_filter)

lemma index_ok_disjoint:
  assumes "index_ok ms" "x \<in> set ms" "y \<in> set ms" "covers x b" "covers y b"
  shows "x = y"
  using assms
proof (induction ms)
  case (Cons m ms)
  then show ?case
    by (auto simp: index_ok_Cons disjoint_before_def covers_def)
qed simp

lemma index_ok_same_offset:
  assumes "index_ok ms" "x \<in> set ms" "y \<in> set ms" "m_offset x = m_offset y"
  shows "x = y"
  using index_ok_disjoint [OF assms(1-3), of "m_offset x"] assms index_ok_mem [OF assms(1)]
  by (simp add: covers_def)

lemma imap_None_iff: "imap ms b = None \<longleftrightarrow> (\<forall>m\<in>set ms. \<not> covers m b)"
  by (induction ms) auto

lemma imap_SomeD: "imap ms b = Some c \<Longrightarrow> \<exists>m\<in>set ms. covers m b \<and> c = cell_at m b"
  by (induction ms) (auto split: if_splits)

lemma imap_mem:
  assumes "index_ok ms" "m \<in> set ms" "covers m b"
  shows "imap ms b = Some (cell_at m b)"
proof -
  have "imap ms b \<noteq> None" using assms by (auto simp: imap_None_iff)
  then obtain c where c: "imap ms b = Some c" by blast
  then obtain m' where "m' \<in> set ms" "covers m' b" "c = cell_at m' b" using imap_SomeD by blast
  with index_ok_disjoint [OF assms(1)] assms c show ?thesis by metis
qed

lemma imap_Some_iff:
  "index_ok ms \<Longrightarrow> imap ms b = Some c \<longleftrightarrow> (\<exists>m\<in>set ms. covers m b \<and> c = cell_at m b)"
  by (metis imap_SomeD imap_mem)

lemma imap_append: "imap (xs @ ys) b = (case imap xs b of None \<Rightarrow> imap ys b | Some c \<Rightarrow> Some c)"
  by (induction xs) auto

text \<open>An index is determined, as a map, by the set of its mappings.\<close>

lemma imap_cong_set:
  assumes "index_ok xs" "index_ok ys"
    and "\<And>m. m \<in> set xs \<Longrightarrow> covers m b \<Longrightarrow> \<exists>n\<in>set ys. covers n b \<and> cell_at n b = cell_at m b"
    and "\<And>m. m \<in> set ys \<Longrightarrow> covers m b \<Longrightarrow> \<exists>n\<in>set xs. covers n b"
  shows "imap xs b = imap ys b"
proof (cases "imap xs b")
  case None
  then have "imap ys b = None" using assms(4) by (auto simp: imap_None_iff)
  with None show ?thesis by simp
next
  case (Some c)
  then obtain m where "m \<in> set xs" "covers m b" "c = cell_at m b" using imap_SomeD by blast
  then obtain n where "n \<in> set ys" "covers n b" "cell_at n b = c" using assms(3) by blast
  with imap_mem [OF assms(2)] Some show ?thesis by simp
qed

subsection \<open>Cutting mappings\<close>

lemma forward_offset_to_props:
  assumes "mapping_ok m" "m_offset m < x" "x < m_offset m + m_length m"
  shows "m_offset (forward_offset_to m x) = x"
    and "m_length (forward_offset_to m x) = m_offset m + m_length m - x"
    and "mapping_ok (forward_offset_to m x)"
    and "zeroed (forward_offset_to m x) = zeroed m"
    and "tag (forward_offset_to m x) = tag m"
proof -
  have b: "m_offset m + m_length m < 2 ^ 64" "m_length m < 2 ^ 32" "m_offset m < x"
    "x < m_offset m + m_length m"
    using assms by (auto simp: mapping_ok_def)
  then have d: "u64_sub x (m_offset m) = x - m_offset m" by (simp add: nowrap)
  have s: "Segment_forward_offset_to (segment m) x =
     ((segment m)\<lparr>seg_offset := x, seg_length := m_offset m + m_length m - x\<rparr>, x - m_offset m)"
    using b d by (auto simp: Segment_forward_offset_to_def Let_def nowrap)
  have p: "has_physical_range m \<Longrightarrow> u64_add (moffset m) (x - m_offset m) = moffset m + (x - m_offset m)"
    using assms(1) b by (auto simp: mapping_ok_def NO_PHYSICAL_OFFSET_def nowrap)
  show "m_offset (forward_offset_to m x) = x"
    "m_length (forward_offset_to m x) = m_offset m + m_length m - x"
    "zeroed (forward_offset_to m x) = zeroed m" "tag (forward_offset_to m x) = tag m"
    using s by (auto simp: forward_offset_to_def Let_def)
  show "mapping_ok (forward_offset_to m x)"
    using assms b s p
    by (auto simp: forward_offset_to_def mapping_ok_def has_physical_range_def Let_def)
qed

lemma forward_offset_to_cell:
  assumes "mapping_ok m" "m_offset m < x" "x < m_offset m + m_length m"
  shows "covers (forward_offset_to m x) b \<longleftrightarrow> covers m b \<and> x \<le> b"
    and "x \<le> b \<Longrightarrow> cell_at (forward_offset_to m x) b = cell_at m b"
proof -
  note p = forward_offset_to_props [OF assms]
  show "covers (forward_offset_to m x) b \<longleftrightarrow> covers m b \<and> x \<le> b"
    using assms p by (auto simp: covers_def)
  have b: "m_offset m + m_length m < 2 ^ 64" "m_length m < 2 ^ 32"
    using assms by (auto simp: mapping_ok_def)
  have s: "Segment_forward_offset_to (segment m) x =
     ((segment m)\<lparr>seg_offset := x, seg_length := m_offset m + m_length m - x\<rparr>, x - m_offset m)"
    using b assms by (auto simp: Segment_forward_offset_to_def Let_def nowrap)
  have q: "has_physical_range m \<Longrightarrow>
      moffset (forward_offset_to m x) = moffset m + (x - m_offset m)
      \<and> moffset m + (x - m_offset m) \<noteq> NO_PHYSICAL_OFFSET"
    using assms s by (auto simp: forward_offset_to_def mapping_ok_def NO_PHYSICAL_OFFSET_def nowrap)
  have "\<not> has_physical_range m \<Longrightarrow> moffset (forward_offset_to m x) = moffset m"
    using s by (simp add: forward_offset_to_def)
  with q p assms show "x \<le> b \<Longrightarrow> cell_at (forward_offset_to m x) b = cell_at m b"
    by (auto simp: cell_at_def has_physical_range_def)
qed

lemma backward_end_to_props:
  assumes "mapping_ok m" "m_offset m \<le> x" "x \<le> m_offset m + m_length m"
  shows "m_offset (backward_end_to m x) = m_offset m"
    and "m_length (backward_end_to m x) = x - m_offset m"
    and "mapping_ok (backward_end_to m x)"
    and "zeroed (backward_end_to m x) = zeroed m"
    and "tag (backward_end_to m x) = tag m"
    and "moffset (backward_end_to m x) = moffset m"
proof -
  have b: "x - m_offset m < 2 ^ 32" using assms by (auto simp: mapping_ok_def)
  show l: "m_length (backward_end_to m x) = x - m_offset m"
    using assms b by (auto simp: backward_end_to_def Segment_backward_end_to_def nowrap)
  show o: "m_offset (backward_end_to m x) = m_offset m"
    and z: "zeroed (backward_end_to m x) = zeroed m"
    and t: "tag (backward_end_to m x) = tag m"
    and mo: "moffset (backward_end_to m x) = moffset m"
    by (simp_all add: backward_end_to_def Segment_backward_end_to_def)
  show "mapping_ok (backward_end_to m x)"
    using assms l o z t mo by (auto simp: mapping_ok_def has_physical_range_def)
qed

lemma backward_end_to_cell:
  assumes "mapping_ok m" "m_offset m \<le> x" "x \<le> m_offset m + m_length m"
  shows "covers (backward_end_to m x) b \<longleftrightarrow> covers m b \<and> b < x"
    and "cell_at (backward_end_to m x) b = cell_at m b"
  using backward_end_to_props [OF assms] assms
  by (auto simp: covers_def cell_at_def has_physical_range_def)

text \<open>A mapping that meets the query is clipped to exactly the common blocks.\<close>

definition meets :: "Segment \<Rightarrow> SegmentMapping \<Rightarrow> bool" where
  "meets q m \<longleftrightarrow> m_offset m < seg_offset q + seg_length q \<and> seg_offset q < m_offset m + m_length m"

lemma clip_props:
  assumes "mapping_ok m" "segment_ok q" "meets q m" "0 < m_length m" "0 < seg_length q"
  shows "m_offset (clip q m) = max (m_offset m) (seg_offset q)"
    and "m_offset (clip q m) + m_length (clip q m) = min (m_offset m + m_length m) (seg_offset q + seg_length q)"
    and "0 < m_length (clip q m)"
    and "mapping_ok (clip q m)"
    and "covers (clip q m) b \<longleftrightarrow> covers m b \<and> in_segment q b"
    and "covers (clip q m) b \<Longrightarrow> cell_at (clip q m) b = cell_at m b"
proof -
  let ?mp = "if m_offset m < seg_offset q then forward_offset_to m (seg_offset q) else m"
  have mp: "mapping_ok ?mp" "m_offset ?mp = max (m_offset m) (seg_offset q)"
    "m_offset ?mp + m_length ?mp = m_offset m + m_length m"
    "\<And>b. covers ?mp b \<longleftrightarrow> covers m b \<and> seg_offset q \<le> b"
    "\<And>b. seg_offset q \<le> b \<Longrightarrow> cell_at ?mp b = cell_at m b"
    using assms forward_offset_to_props [of m "seg_offset q"] forward_offset_to_cell [of m "seg_offset q"]
    by (auto simp: meets_def covers_def)
  have e: "m_end ?mp = m_offset m + m_length m" using mp by (simp add: nowrap)
  have c: "clip q m = (if m_offset m + m_length m > seg_offset q + seg_length q
      then backward_end_to ?mp (seg_offset q + seg_length q) else ?mp)"
    using e assms(2) by (simp add: clip_def Let_def nowrap)
  have bounds: "m_offset ?mp \<le> seg_offset q + seg_length q"
    using mp(2) assms by (auto simp: meets_def)
  note bp = backward_end_to_props [OF mp(1) bounds] backward_end_to_cell [OF mp(1) bounds]
  show "m_offset (clip q m) = max (m_offset m) (seg_offset q)"
    using c mp bp by auto
  show "m_offset (clip q m) + m_length (clip q m) =
      min (m_offset m + m_length m) (seg_offset q + seg_length q)"
    using c mp bp bounds by auto
  then show "0 < m_length (clip q m)"
    using \<open>m_offset (clip q m) = max (m_offset m) (seg_offset q)\<close> assms by (auto simp: meets_def)
  show "mapping_ok (clip q m)" using c mp bp by auto
  show "covers (clip q m) b \<longleftrightarrow> covers m b \<and> in_segment q b"
    using c mp bp by (auto simp: in_segment_def covers_def)
  show "covers (clip q m) b \<Longrightarrow> cell_at (clip q m) b = cell_at m b"
    using c mp bp \<open>covers (clip q m) b \<longleftrightarrow> covers m b \<and> in_segment q b\<close>
    by (auto simp: in_segment_def)
qed

subsection \<open>Lookups\<close>

definition lookup_ref :: "SegmentMapping list \<Rightarrow> Segment \<Rightarrow> SegmentMapping list" where
  "lookup_ref ms q = (if seg_length q = 0 then [] else map (clip q) (filter (meets q) ms))"

lemma sorted_disjoint: "index_ok ms \<Longrightarrow> sorted_wrt disjoint_before ms"
  by (simp add: index_ok_def)

lemma filter_clip_positive:
  assumes "\<forall>m\<in>set ms. mapping_ok m \<and> 0 < m_length m \<and> meets q m" "segment_ok q" "0 < seg_length q"
  shows "filter (\<lambda>mp. 0 < m_length mp) (map (clip q) ms) = map (clip q) ms"
  using assms by (auto simp: filter_id_conv clip_props(3))

lemma ReadOnlyIndex_lookup_ref:
  assumes "index_ok ms" "segment_ok q"
  shows "ReadOnlyIndex_lookup ms q = lookup_ref ms q"
proof (cases "seg_length q = 0")
  case True
  then show ?thesis by (simp add: ReadOnlyIndex_lookup_def lookup_ref_def)
next
  case False
  let ?P = "\<lambda>m. m_end m \<le> seg_offset q"
  let ?Q = "\<lambda>m. \<not> m_offset m \<ge> Segment_end q"
  have e: "\<And>m. m \<in> set ms \<Longrightarrow> m_end m = m_offset m + m_length m"
    using assms(1) by (auto simp: index_ok_def nowrap)
  have "drop (partition_point ?P ms) ms = dropWhile ?P ms"
    by (simp add: partition_point_def dropWhile_eq_drop)
  also have "\<dots> = filter (\<lambda>m. \<not> ?P m) ms"
    by (rule dropWhile_sorted_filter [OF sorted_disjoint [OF assms(1)]])
      (auto simp: e disjoint_before_def)
  finally have d: "drop (partition_point ?P ms) ms = filter (\<lambda>m. \<not> ?P m) ms" .
  have "takeWhile ?Q (filter (\<lambda>m. \<not> ?P m) ms) = filter ?Q (filter (\<lambda>m. \<not> ?P m) ms)"
    by (rule takeWhile_sorted_filter [OF sorted_wrt_filter [OF sorted_disjoint [OF assms(1)]]])
      (auto simp: disjoint_before_def)
  also have "\<dots> = filter (meets q) ms"
    using assms(2) e by (auto simp: meets_def nowrap intro!: filter_cong)
  finally have t: "takeWhile ?Q (drop (partition_point ?P ms) ms) = filter (meets q) ms"
    by (simp add: d)
  have "filter (\<lambda>mp. 0 < m_length mp) (map (clip q) (filter (meets q) ms)) = map (clip q) (filter (meets q) ms)"
    using assms False by (intro filter_clip_positive) (auto simp: index_ok_def)
  then show ?thesis
    using False t by (auto simp: ReadOnlyIndex_lookup_def lookup_ref_def Let_def)
qed

lemma split_at_offset:
  assumes "index_ok ms"
  shows "ms = filter (\<lambda>m. m_offset m < k) ms @ filter (\<lambda>m. k \<le> m_offset m) ms"
  using assms
proof (induction ms)
  case (Cons m ms)
  show ?case
  proof (cases "m_offset m < k")
    case True
    with Cons show ?thesis by (simp add: index_ok_Cons)
  next
    case False
    then have "\<forall>x\<in>set ms. k \<le> m_offset x"
      using Cons.prems by (auto simp: index_ok_Cons disjoint_before_def)
    then have "filter (\<lambda>m. m_offset m < k) ms = []" "filter (\<lambda>m. k \<le> m_offset m) ms = ms"
      by (auto simp: filter_empty_conv filter_id_conv not_less)
    with False show ?thesis by simp
  qed
qed simp

lemma meets_before:
  assumes "index_ok ms" "\<forall>m\<in>set ms. m_offset m < seg_offset q" "0 < seg_length q"
  shows "filter (meets q) ms =
     (if ms = [] then [] else if seg_offset q < m_offset (last ms) + m_length (last ms) then [last ms] else [])"
proof (cases ms rule: rev_cases)
  case (snoc ys y)
  have "\<forall>x\<in>set ys. \<not> meets q x"
    using assms snoc by (auto simp: index_ok_append disjoint_before_def meets_def index_ok_Cons)
  then show ?thesis
    using snoc assms by (auto simp: filter_empty_conv meets_def)
qed simp

lemma MutableIndex_lookup_ref:
  assumes "index_ok ms" "segment_ok q"
  shows "MutableIndex_lookup ms q = lookup_ref ms q"
proof (cases "seg_length q = 0")
  case True
  then show ?thesis by (simp add: MutableIndex_lookup_def lookup_ref_def)
next
  case False
  let ?b = "filter (\<lambda>m. m_offset m < seg_offset q) ms"
  let ?a = "filter (\<lambda>m. seg_offset q \<le> m_offset m) ms"
  have ok: "index_ok ?b" "index_ok ?a" using assms(1) by (simp_all add: index_ok_filter)
  have e: "\<And>m. m \<in> set ms \<Longrightarrow> m_end m = m_offset m + m_length m \<and> 0 < m_length m \<and> mapping_ok m"
    using assms(1) by (auto simp: index_ok_def nowrap)
  have fb: "filter (meets q) ?b =
     (if ?b = [] then [] else if seg_offset q < m_end (last ?b) then [last ?b] else [])"
  proof -
    have "?b \<noteq> [] \<Longrightarrow> last ?b \<in> set ms"
      using last_in_set [of ?b] by (simp del: last_in_set)
    then show ?thesis
      using meets_before [OF ok(1), of q] False e by auto
  qed
  have fa: "filter (meets q) ?a = bt_range (seg_offset q) (Segment_end q) ms"
    using assms(2) e
    by (auto simp: bt_range_def meets_def nowrap intro!: filter_cong) (metis add_less_mono le_add1 less_add_same_cancel1 le_less_trans trans_less_add1)
  have ca: "map (\<lambda>m. if m_end m > Segment_end q then backward_end_to m (Segment_end q) else m)
      (bt_range (seg_offset q) (Segment_end q) ms) = map (clip q) (filter (meets q) ?a)"
    unfolding fa by (auto simp: clip_def bt_range_def Let_def)
  have "lookup_ref ms q = map (clip q) (filter (meets q) ?b) @ map (clip q) (filter (meets q) ?a)"
    using False split_at_offset [OF assms(1), of "seg_offset q"]
    by (metis filter_append lookup_ref_def map_append)
  moreover have "filter (\<lambda>mp. 0 < m_length mp) (map (clip q) (filter (meets q) ?a)) = map (clip q) (filter (meets q) ?a)"
    "filter (\<lambda>mp. 0 < m_length mp) (map (clip q) (filter (meets q) ?b)) = map (clip q) (filter (meets q) ?b)"
    using assms False e by (intro filter_clip_positive; auto)+
  moreover have "(if ?b = [] then [] else let left = last ?b
       in if m_end left > seg_offset q then filter (\<lambda>mp. m_length mp > 0) [clip q left] else [])
     = filter (\<lambda>mp. 0 < m_length mp) (map (clip q) (filter (meets q) ?b))"
    unfolding fb by (simp add: Let_def)
  ultimately show ?thesis
    using False ca unfolding MutableIndex_lookup_def Let_def bt_range_to_def by simp
qed

lemma lookup_ref_ok:
  assumes "index_ok ms" "segment_ok q"
  shows "index_ok (lookup_ref ms q)"
proof (cases "seg_length q = 0")
  case False
  let ?f = "filter (meets q) ms"
  have m: "\<forall>m\<in>set ?f. mapping_ok m \<and> 0 < m_length m \<and> meets q m"
    using assms by (auto simp: index_ok_def)
  have "sorted_wrt disjoint_before ?f" using assms by (simp add: index_ok_def sorted_wrt_filter)
  then have "sorted_wrt (\<lambda>x y. disjoint_before (clip q x) (clip q y)) ?f"
  proof (rule sorted_wrt_mono_rel [rotated])
    fix x y assume "x \<in> set ?f" "y \<in> set ?f" "disjoint_before x y"
    with m clip_props(1,2) [of x q] clip_props(1,2) [of y q] assms False
    show "disjoint_before (clip q x) (clip q y)" by (auto simp: disjoint_before_def)
  qed
  moreover have "\<forall>x\<in>set ?f. mapping_ok (clip q x) \<and> 0 < m_length (clip q x)"
    using m assms(2) False by (auto intro: clip_props(3,4))
  ultimately show ?thesis
    using False by (simp add: index_ok_def lookup_ref_def sorted_wrt_map)
qed (simp add: lookup_ref_def)

lemma lookup_ref_imap:
  assumes "index_ok ms" "segment_ok q"
  shows "imap (lookup_ref ms q) b = (if in_segment q b then imap ms b else None)"
proof (cases "seg_length q = 0")
  case True
  then show ?thesis by (auto simp: lookup_ref_def in_segment_def)
next
  case False
  have m: "\<And>m. m \<in> set ms \<Longrightarrow> mapping_ok m \<and> 0 < m_length m" using assms by (auto simp: index_ok_def)
  have mem: "x \<in> set (lookup_ref ms q) \<longleftrightarrow> (\<exists>m\<in>set ms. meets q m \<and> x = clip q m)" for x
    using False by (auto simp: lookup_ref_def)
  have meet: "covers m b \<Longrightarrow> in_segment q b \<Longrightarrow> meets q m" for m
    by (auto simp: covers_def in_segment_def meets_def)
  show ?thesis
  proof (cases "imap (lookup_ref ms q) b")
    case None
    have "in_segment q b \<Longrightarrow> imap ms b = None"
    proof (rule ccontr)
      assume i: "in_segment q b" and "imap ms b \<noteq> None"
      then obtain n where n: "n \<in> set ms" "covers n b" by (auto simp: imap_None_iff)
      then have "covers (clip q n) b" "clip q n \<in> set (lookup_ref ms q)"
        using clip_props(5) [of n q b] meet [OF n(2) i] m [OF n(1)] i assms(2) False mem by auto
      with None show False by (auto simp: imap_None_iff)
    qed
    with None show ?thesis by simp
  next
    case (Some c)
    from imap_SomeD [OF this] mem
    obtain n where n: "n \<in> set ms" "meets q n" "covers (clip q n) b" "c = cell_at (clip q n) b"
      by auto
    then show ?thesis
      using Some clip_props(5,6) [of n q b] imap_mem [OF assms(1), of n b] m [OF n(1)] assms False by auto
  qed
qed

subsection \<open>Insertion\<close>

definition osorted :: "SegmentMapping list \<Rightarrow> bool" where
  "osorted xs \<longleftrightarrow> sorted_wrt (\<lambda>a b. m_offset a < m_offset b) xs"

lemma bt_insert_set:
  "osorted xs \<Longrightarrow> set (bt_insert m xs) =
     (if \<exists>x\<in>set xs. m_offset x = m_offset m then set xs else insert m (set xs))"
  by (induction xs) (auto simp: osorted_def)

lemma bt_insert_osorted: "osorted xs \<Longrightarrow> osorted (bt_insert m xs)"
proof (induction xs)
  case (Cons x xs)
  then show ?case by (auto simp: osorted_def bt_insert_set split: if_splits)
qed (simp add: osorted_def)

lemma bt_remove_props:
  "osorted xs \<Longrightarrow> osorted (bt_remove m xs)"
  "set (bt_remove m xs) = {x\<in>set xs. m_offset x \<noteq> m_offset m}"
  by (auto simp: bt_remove_def osorted_def sorted_wrt_filter)

lemma index_ok_iff:
  "index_ok xs \<longleftrightarrow> osorted xs \<and> (\<forall>m\<in>set xs. mapping_ok m \<and> 0 < m_length m)
     \<and> (\<forall>x\<in>set xs. \<forall>y\<in>set xs. \<forall>b. covers x b \<and> covers y b \<longrightarrow> x = y)" (is "?L \<longleftrightarrow> ?R")
proof
  assume L: ?L
  have "sorted_wrt (\<lambda>a b. m_offset a < m_offset b) xs"
    by (rule sorted_wrt_mono_rel [OF _ sorted_disjoint [OF L]])
      (use L in \<open>auto simp: disjoint_before_def index_ok_def\<close>)
  with L show ?R using index_ok_disjoint [OF L] by (auto simp: osorted_def index_ok_def)
next
  assume R: ?R
  have "sorted_wrt disjoint_before xs"
  proof (rule sorted_wrt_mono_rel)
    show "sorted_wrt (\<lambda>a b. m_offset a < m_offset b) xs" using R by (simp add: osorted_def)
    fix x y assume xy: "x \<in> set xs" "y \<in> set xs" "m_offset x < m_offset y"
    show "disjoint_before x y"
    proof (rule ccontr)
      assume "\<not> disjoint_before x y"
      then have "covers x (m_offset y) \<and> covers y (m_offset y)"
        using xy R by (auto simp: disjoint_before_def covers_def)
      with R xy show False by blast
    qed
  qed
  with R show ?L by (simp add: index_ok_def)
qed

definition pieces :: "SegmentMapping \<Rightarrow> SegmentMapping \<Rightarrow> SegmentMapping set" where
  "pieces m old =
     (if m_offset old < m_offset m then {backward_end_to old (m_offset m)} else {})
     \<union> (if m_offset old + m_length old > m_offset m + m_length m
        then {forward_offset_to old (m_offset m + m_length m)} else {})"

lemma pieces_props:
  assumes "mapping_ok old" "meets (segment m) old" "p \<in> pieces m old"
  shows "mapping_ok p" "0 < m_length p"
    and "covers p b \<Longrightarrow> covers old b \<and> \<not> covers m b \<and> cell_at p b = cell_at old b"
    and "m_offset p = m_offset old \<and> m_offset p < m_offset m
         \<or> m_offset p = m_offset m + m_length m \<and> covers old (m_offset p)"
proof -
  consider (l) "m_offset old < m_offset m" "p = backward_end_to old (m_offset m)"
    | (r) "m_offset old + m_length old > m_offset m + m_length m"
        "p = forward_offset_to old (m_offset m + m_length m)"
    using assms(3) by (auto simp: pieces_def split: if_splits)
  then have "mapping_ok p \<and> 0 < m_length p
    \<and> (covers p b \<longrightarrow> covers old b \<and> \<not> covers m b \<and> cell_at p b = cell_at old b)
    \<and> (m_offset p = m_offset old \<and> m_offset p < m_offset m
         \<or> m_offset p = m_offset m + m_length m \<and> covers old (m_offset p))"
  proof cases
    case l
    with assms(1,2) backward_end_to_props [of old "m_offset m"] backward_end_to_cell [of old "m_offset m" b]
    show ?thesis by (auto simp: meets_def covers_def)
  next
    case r
    with assms(1,2) forward_offset_to_props [of old "m_offset m + m_length m"]
      forward_offset_to_cell [of old "m_offset m + m_length m" b]
    show ?thesis by (auto simp: meets_def covers_def)
  qed
  then show "mapping_ok p" "0 < m_length p"
    "covers p b \<Longrightarrow> covers old b \<and> \<not> covers m b \<and> cell_at p b = cell_at old b"
    "m_offset p = m_offset old \<and> m_offset p < m_offset m
         \<or> m_offset p = m_offset m + m_length m \<and> covers old (m_offset p)"
    by blast+
qed

lemma pieces_cover:
  assumes "mapping_ok old" "meets (segment m) old" "covers old b" "\<not> covers m b"
  shows "\<exists>p\<in>pieces m old. covers p b"
proof (cases "b < m_offset m")
  case True
  then show ?thesis
    using assms backward_end_to_cell [of old "m_offset m" b]
    by (intro bexI [of _ "backward_end_to old (m_offset m)"]) (auto simp: pieces_def meets_def covers_def)
next
  case False
  then have "b \<ge> m_offset m + m_length m" using assms by (auto simp: covers_def)
  then show ?thesis
    using assms forward_offset_to_cell [of old "m_offset m + m_length m" b]
    by (intro bexI [of _ "forward_offset_to old (m_offset m + m_length m)"])
       (auto simp: pieces_def meets_def covers_def)
qed

lemma pieces_disjoint:
  assumes "mapping_ok old" "meets (segment m) old" "p \<in> pieces m old" "p' \<in> pieces m old"
    "covers p b" "covers p' b"
  shows "p = p'"
proof -
  have l: "covers (backward_end_to old (m_offset m)) b \<Longrightarrow> m_offset old < m_offset m \<Longrightarrow> b < m_offset m"
    using assms(1,2) backward_end_to_cell [of old "m_offset m" b] by (auto simp: meets_def)
  have r: "covers (forward_offset_to old (m_offset m + m_length m)) b \<Longrightarrow>
      m_offset old + m_length old > m_offset m + m_length m \<Longrightarrow> b \<ge> m_offset m + m_length m"
    using assms(1,2) forward_offset_to_cell [of old "m_offset m + m_length m" b] by (auto simp: meets_def)
  show ?thesis using assms(3-6) l r by (auto simp: pieces_def split: if_splits)
qed

lemma cut_old_set:
  assumes m: "mapping_ok m" "0 < m_length m" and S: "index_ok xs"
    and D: "D \<subseteq> set xs" "\<forall>d\<in>D. meets (segment m) d"
    and old: "old \<in> set xs" "old \<notin> D" "meets (segment m) old"
    and ys: "osorted ys" "set ys = (set xs - D) \<union> (\<Union>d\<in>D. pieces m d)"
  shows "osorted (cut_old m old ys)
    \<and> set (cut_old m old ys) = (set xs - insert old D) \<union> (\<Union>d\<in>insert old D. pieces m d)"
proof -
  have e: "m_end m = m_offset m + m_length m" "m_end old = m_offset old + m_length old"
    and okold: "mapping_ok old" "0 < m_length old"
    using m S old by (auto simp: nowrap index_ok_def)
  have okx: "\<And>x. x \<in> set xs \<Longrightarrow> mapping_ok x \<and> 0 < m_length x" using S by (auto simp: index_ok_def)
  let ?x0 = "bt_remove old ys"
  let ?left = "backward_end_to old (m_offset m)"
  let ?right = "forward_offset_to old (m_offset m + m_length m)"
  have po: "m_offset p \<noteq> m_offset old" if "d \<in> D" "p \<in> pieces m d" for d p
  proof
    assume eq: "m_offset p = m_offset old"
    have dx: "d \<in> set xs" "meets (segment m) d" "mapping_ok d" using that D okx by auto
    from pieces_props(4) [OF dx(3,2) that(2)] eq old index_ok_same_offset [OF S dx(1) old(1)] that
    show False by (auto simp: meets_def)
  qed
  have s0: "osorted ?x0" "set ?x0 = (set xs - insert old D) \<union> (\<Union>d\<in>D. pieces m d)"
    using ys bt_remove_props(1) [of ys old] bt_remove_props(2) [of old ys] index_ok_same_offset [OF S _ old(1)] po by auto
  have lp: "m_offset old < m_offset m \<Longrightarrow> 0 < m_length ?left \<and> m_offset ?left = m_offset old"
    using backward_end_to_props [OF okold(1), of "m_offset m"] old(3) by (auto simp: meets_def)
  have rp: "m_end old > m_end m \<Longrightarrow> 0 < m_length ?right \<and> m_offset ?right = m_offset m + m_length m"
    using forward_offset_to_props [OF okold(1), of "m_offset m + m_length m"] old(3) e
    by (auto simp: meets_def)
  let ?x1 = "if m_offset old < m_offset m \<and> m_length ?left > 0 then bt_insert ?left ?x0 else ?x0"
  have nol: "\<forall>x\<in>set ?x0. m_offset x \<noteq> m_offset old"
    using bt_remove_props(2) by auto
  have s1: "osorted ?x1"
    "set ?x1 = set ?x0 \<union> (if m_offset old < m_offset m then {?left} else {})"
    using s0(1) bt_insert_osorted bt_insert_set lp nol by auto
  have nor: "\<forall>x\<in>set ?x1. m_offset x \<noteq> m_offset m + m_length m" if gt: "m_end old > m_end m"
  proof
    fix x assume x: "x \<in> set ?x1"
    have cov: "covers old (m_offset m + m_length m)" using gt e old(3) by (auto simp: covers_def meets_def)
    show "m_offset x \<noteq> m_offset m + m_length m"
    proof
      assume eq: "m_offset x = m_offset m + m_length m"
      consider "x \<in> set xs" "x \<noteq> old" | d where "d \<in> D" "x \<in> pieces m d" | "x = ?left" "m_offset old < m_offset m"
        using x s1 s0 by (auto split: if_splits)
      then show False
      proof cases
        case 1
        then have "covers x (m_offset m + m_length m)" using eq okx by (auto simp: covers_def)
        with 1 cov index_ok_disjoint [OF S] old show False by blast
      next
        case (2 d)
        then have dx: "d \<in> set xs" "meets (segment m) d" "mapping_ok d" using D okx by auto
        have "covers d (m_offset m + m_length m)"
          using pieces_props(4) [OF dx(3,2) 2(2)] eq by auto
        with dx cov index_ok_disjoint [OF S] old 2 show False by blast
      next
        case 3
        then show False using eq lp by auto
      qed
    qed
  qed
  have c: "cut_old m old ys = (if m_end old > m_end m \<and> m_length ?right > 0 then bt_insert ?right ?x1 else ?x1)"
    by (simp add: cut_old_def Let_def e)
  have "osorted (cut_old m old ys)
    \<and> set (cut_old m old ys) = set ?x1 \<union> (if m_end old > m_end m then {?right} else {})"
  proof (cases "m_end old > m_end m")
    case True
    then have "cut_old m old ys = bt_insert ?right ?x1" using c rp by simp
    then show ?thesis
      using bt_insert_osorted [OF s1(1)] bt_insert_set [OF s1(1)] nor [OF True] rp [OF True] True by auto
  next
    case False
    then show ?thesis using c s1 by simp
  qed
  then show ?thesis using s1(2) s0(2) e by (auto simp: pieces_def split: if_splits)
qed

lemma cut_all_set:
  assumes m: "mapping_ok m" "0 < m_length m" and S: "index_ok xs"
    and "distinct T" "set T \<subseteq> set xs" "\<forall>d\<in>set T. meets (segment m) d"
    and D: "D \<subseteq> set xs" "\<forall>d\<in>D. meets (segment m) d" "D \<inter> set T = {}"
    and ys: "osorted ys" "set ys = (set xs - D) \<union> (\<Union>d\<in>D. pieces m d)"
  shows "osorted (fold (cut_old m) T ys)
    \<and> set (fold (cut_old m) T ys) = (set xs - (D \<union> set T)) \<union> (\<Union>d\<in>D \<union> set T. pieces m d)"
  using assms(4-)
proof (induction T arbitrary: D ys)
  case Nil
  then show ?case by simp
next
  case (Cons t T)
  have step: "osorted (cut_old m t ys)
    \<and> set (cut_old m t ys) = (set xs - insert t D) \<union> (\<Union>d\<in>insert t D. pieces m d)"
    using Cons.prems by (intro cut_old_set [OF m S]) auto
  have "osorted (fold (cut_old m) T (cut_old m t ys))
    \<and> set (fold (cut_old m) T (cut_old m t ys))
      = (set xs - (insert t D \<union> set T)) \<union> (\<Union>d\<in>insert t D \<union> set T. pieces m d)"
    by (rule Cons.IH) (use Cons.prems step in auto)
  then show ?case by simp
qed

lemma osorted_distinct: "osorted xs \<Longrightarrow> distinct xs"
  by (induction xs) (auto simp: osorted_def)

lemma to_remove_eq:
  assumes m: "mapping_ok m" "0 < m_length m" and S: "index_ok xs"
  shows "takeWhile (\<lambda>other. \<not> m_end other \<le> m_offset m) (rev (bt_range_to (m_end m) xs))
    = rev (filter (meets (segment m)) xs)"
proof -
  have e: "\<And>x. x \<in> set xs \<Longrightarrow> m_end x = m_offset x + m_length x" "m_end m = m_offset m + m_length m"
    using m S by (auto simp: nowrap index_ok_def)
  have "sorted_wrt (\<lambda>a b. disjoint_before b a) (rev (bt_range_to (m_end m) xs))"
    using S by (simp add: bt_range_to_def sorted_wrt_rev sorted_wrt_filter index_ok_def)
  then have "takeWhile (\<lambda>other. \<not> m_end other \<le> m_offset m) (rev (bt_range_to (m_end m) xs))
    = filter (\<lambda>other. \<not> m_end other \<le> m_offset m) (rev (bt_range_to (m_end m) xs))"
    by (rule takeWhile_sorted_filter) (auto simp: bt_range_to_def disjoint_before_def e)
  also have "\<dots> = rev (filter (meets (segment m)) xs)"
    using e by (auto simp: bt_range_to_def rev_filter meets_def intro!: filter_cong)
  finally show ?thesis .
qed

lemma MutableIndex_insert_set:
  assumes m: "mapping_ok m" "0 < m_length m" and S: "index_ok xs"
  defines "Hs \<equiv> {x\<in>set xs. meets (segment m) x}"
  shows "osorted (MutableIndex_insert xs m)
    \<and> set (MutableIndex_insert xs m) = insert m ((set xs - Hs) \<union> (\<Union>d\<in>Hs. pieces m d))"
proof -
  let ?T = "rev (filter (meets (segment m)) xs)"
  have os: "osorted xs" using S by (simp add: index_ok_iff)
  have "osorted (fold (cut_old m) ?T xs)
    \<and> set (fold (cut_old m) ?T xs) = (set xs - ({} \<union> set ?T)) \<union> (\<Union>d\<in>{} \<union> set ?T. pieces m d)"
    by (rule cut_all_set [OF m S]) (use os osorted_distinct in auto)
  moreover have "set ?T = Hs" by (auto simp: Hs_def)
  ultimately have f: "osorted (fold (cut_old m) ?T xs)"
    "set (fold (cut_old m) ?T xs) = (set xs - Hs) \<union> (\<Union>d\<in>Hs. pieces m d)" by auto
  have "\<forall>x\<in>set (fold (cut_old m) ?T xs). m_offset x \<noteq> m_offset m"
  proof
    fix x assume "x \<in> set (fold (cut_old m) ?T xs)"
    then consider "x \<in> set xs" "x \<notin> Hs" | d where "d \<in> Hs" "x \<in> pieces m d" using f by auto
    then show "m_offset x \<noteq> m_offset m"
    proof cases
      case 1
      then show ?thesis using m S by (auto simp: Hs_def meets_def index_ok_def)
    next
      case (2 d)
      then have "mapping_ok d" "meets (segment m) d" using S by (auto simp: Hs_def index_ok_def)
      from pieces_props(4) [OF this 2(2)] m show ?thesis by auto
    qed
  qed
  then show ?thesis
    using m f bt_insert_osorted [OF f(1)] bt_insert_set [OF f(1), of m]
    by (simp add: MutableIndex_insert_def to_remove_eq [OF m S])
qed

lemma MutableIndex_insert_ok:
  assumes m: "mapping_ok m" and S: "index_ok xs"
  shows "index_ok (MutableIndex_insert xs m)"
proof (cases "m_length m = 0")
  case True
  then show ?thesis using S by (simp add: MutableIndex_insert_def)
next
  case False
  define H where "H = {x\<in>set xs. meets (segment m) x}"
  have s: "osorted (MutableIndex_insert xs m)"
    "set (MutableIndex_insert xs m) = insert m ((set xs - H) \<union> (\<Union>d\<in>H. pieces m d))"
    using MutableIndex_insert_set [OF m _ S] False by (auto simp: H_def)
  have H: "d \<in> set xs \<and> mapping_ok d \<and> meets (segment m) d" if "d \<in> H" for d
    using that S by (auto simp: H_def index_ok_def)
  define K where "K = (set xs - H) \<union> (\<Union>d\<in>H. pieces m d)"
  have nm: "\<not> covers m b" if "x \<in> K" "covers x b" for x b
    using that(1) unfolding K_def
  proof
    assume "x \<in> set xs - H"
    then show ?thesis using that(2) by (auto simp: H_def covers_def meets_def)
  next
    assume "x \<in> (\<Union>d\<in>H. pieces m d)"
    then obtain d where "d \<in> H" "x \<in> pieces m d" by auto
    then show ?thesis using pieces_props(3) [of d m x b] H that(2) by blast
  qed
  have par: "\<exists>d\<in>set xs. covers d b \<and> (x = d \<and> d \<notin> H \<or> d \<in> H \<and> x \<in> pieces m d)"
    if "x \<in> K" "covers x b" for x b
    using that(1) unfolding K_def
  proof
    assume "x \<in> (\<Union>d\<in>H. pieces m d)"
    then obtain d where "d \<in> H" "x \<in> pieces m d" by auto
    then show ?thesis using pieces_props(3) [of d m x b] H that(2) by blast
  qed (use that(2) in auto)
  have inj: "x = y" if "x \<in> K" "y \<in> K" "covers x b" "covers y b" for x y b
  proof -
    note pxy = par [OF that(1,3)] par [OF that(2,4)]
    obtain d e where d: "d \<in> set xs" "covers d b" "x = d \<and> d \<notin> H \<or> d \<in> H \<and> x \<in> pieces m d"
      and e: "e \<in> set xs" "covers e b" "y = e \<and> e \<notin> H \<or> e \<in> H \<and> y \<in> pieces m e"
      using pxy by blast
    have "d = e" using index_ok_disjoint [OF S d(1) e(1) d(2) e(2)] .
    then show ?thesis using d(3) e(3) pieces_disjoint [of d m x y b] H that(3,4) by blast
  qed
  have ok: "mapping_ok x \<and> 0 < m_length x" if "x \<in> K" for x
    using that unfolding K_def
  proof
    assume "x \<in> (\<Union>d\<in>H. pieces m d)"
    then obtain d where "d \<in> H" "x \<in> pieces m d" by auto
    then show ?thesis using pieces_props(1,2) H by blast
  qed (use S in \<open>auto simp: index_ok_def\<close>)
  have "\<forall>x\<in>insert m K. \<forall>y\<in>insert m K. \<forall>b. covers x b \<and> covers y b \<longrightarrow> x = y"
    using inj nm by blast
  moreover have "\<forall>x\<in>insert m K. mapping_ok x \<and> 0 < m_length x" using ok m False by auto
  ultimately show ?thesis using s unfolding index_ok_iff K_def by simp
qed

lemma MutableIndex_insert_imap:
  assumes m: "mapping_ok m" and S: "index_ok xs"
  shows "imap (MutableIndex_insert xs m) b = (if covers m b then Some (cell_at m b) else imap xs b)"
proof (cases "m_length m = 0")
  case True
  then show ?thesis by (auto simp: MutableIndex_insert_def covers_def)
next
  case False
  define H where "H = {x\<in>set xs. meets (segment m) x}"
  have s: "set (MutableIndex_insert xs m) = insert m ((set xs - H) \<union> (\<Union>d\<in>H. pieces m d))"
    using MutableIndex_insert_set [OF m _ S] False by (auto simp: H_def)
  have H: "d \<in> set xs \<and> mapping_ok d \<and> meets (segment m) d" if "d \<in> H" for d
    using that S by (auto simp: H_def index_ok_def)
  note ok = MutableIndex_insert_ok [OF assms]
  show ?thesis
  proof (cases "covers m b")
    case True
    then show ?thesis using imap_mem [OF ok, of m b] s by simp
  next
    case nc: False
    have "imap xs b = imap (MutableIndex_insert xs m) b"
    proof (rule imap_cong_set [OF S ok])
      fix x assume x: "x \<in> set xs" "covers x b"
      show "\<exists>n\<in>set (MutableIndex_insert xs m). covers n b \<and> cell_at n b = cell_at x b"
      proof (cases "x \<in> H")
        case True
        with pieces_cover [of x m b] H nc x obtain p where p: "p \<in> pieces m x" "covers p b" by auto
        then have "cell_at p b = cell_at x b" using pieces_props(3) [of x m p b] H True by blast
        then show ?thesis using p True s by auto
      qed (use x s in auto)
    next
      fix x assume x: "x \<in> set (MutableIndex_insert xs m)" "covers x b"
      then consider "x \<in> set xs" | d where "d \<in> H" "x \<in> pieces m d" using s nc by auto
      then show "\<exists>n\<in>set xs. covers n b"
      proof cases
        case (2 d)
        then show ?thesis using pieces_props(3) [of d m x b] H x by blast
      qed (use x in auto)
    qed
    then show ?thesis using nc by simp
  qed
qed

subsection \<open>Compression\<close>

definition joined :: "SegmentMapping \<Rightarrow> SegmentMapping \<Rightarrow> SegmentMapping" where
  "joined m n = m\<lparr>segment := (segment m)\<lparr>seg_length := u32_add (m_length m) (m_length n)\<rparr>\<rparr>"

fun compress_from :: "SegmentMapping \<Rightarrow> SegmentMapping list \<Rightarrow> SegmentMapping list" where
  "compress_from m [] = [m]"
| "compress_from m (n # ns) =
     (if can_merge_with m n then compress_from (joined m n) ns else m # compress_from n ns)"

lemma compress_from_ne: "length (compress_from m ms) > 0"
  by (induction ms arbitrary: m) auto

lemma compress_fold:
  assumes "i < j" "j \<le> length xs"
  shows "\<exists>ys. fold compress_step [j..<length xs] (i, xs) =
      (i + length (compress_from (xs ! i) (drop j xs)) - 1, ys)
    \<and> take (i + length (compress_from (xs ! i) (drop j xs))) ys
      = take i xs @ compress_from (xs ! i) (drop j xs) \<and> length ys = length xs"
  using assms
proof (induction "length xs - j" arbitrary: i j xs)
  case 0
  then show ?case by (simp add: take_Suc_conv_app_nth)
next
  case (Suc k)
  then have j: "j < length xs" by simp
  have d: "drop j xs = xs ! j # drop (Suc j) xs" using j by (simp add: Cons_nth_drop_Suc)
  have u: "[j..<length xs] = j # [Suc j..<length xs]" using j by (simp add: upt_conv_Cons)
  show ?case
  proof (cases "can_merge_with (xs ! i) (xs ! j)")
    case True
    let ?xs = "xs[i := joined (xs ! i) (xs ! j)]"
    have "\<exists>ys. fold compress_step [Suc j..<length ?xs] (i, ?xs) =
      (i + length (compress_from (?xs ! i) (drop (Suc j) ?xs)) - 1, ys)
    \<and> take (i + length (compress_from (?xs ! i) (drop (Suc j) ?xs))) ys
      = take i ?xs @ compress_from (?xs ! i) (drop (Suc j) ?xs) \<and> length ys = length ?xs"
      using Suc.prems Suc.hyps(2) j by (intro Suc.hyps(1)) auto
    then show ?thesis using Suc.prems j True
      by (simp add: d u compress_step_def Let_def joined_def)
  next
    case False
    let ?xs = "xs[Suc i := xs ! j]"
    have "\<exists>ys. fold compress_step [Suc j..<length ?xs] (Suc i, ?xs) =
      (Suc i + length (compress_from (?xs ! Suc i) (drop (Suc j) ?xs)) - 1, ys)
    \<and> take (Suc i + length (compress_from (?xs ! Suc i) (drop (Suc j) ?xs))) ys
      = take (Suc i) ?xs @ compress_from (?xs ! Suc i) (drop (Suc j) ?xs) \<and> length ys = length ?xs"
      using Suc.prems Suc.hyps(2) j by (intro Suc.hyps(1)) auto
    then show ?thesis using Suc.prems j False compress_from_ne [of "xs ! j" "drop (Suc j) xs"]
      by (simp add: d u compress_step_def Let_def take_Suc_conv_app_nth)
  qed
qed

lemma compress_raw_index_eq:
  "compress_raw_index (m # ms) = (length (compress_from m ms), compress_from m ms)"
proof (cases ms)
  case (Cons n ns)
  from compress_fold [of 0 1 "m # ms"] compress_from_ne [of m ms]
  show ?thesis using Cons by (auto simp: compress_raw_index_def Let_def split: prod.splits)
qed (simp add: compress_raw_index_def)

lemma predict_fold:
  "fst (fold predict_step ms (i, m)) = i + length (compress_from m ms) - 1"
proof (induction ms arbitrary: i m)
  case (Cons n ns)
  show ?case using Cons compress_from_ne [of n ns] by (simp add: predict_step_def joined_def)
qed simp

lemma compress_raw_index_predict_eq:
  "compress_raw_index_predict xs = fst (compress_raw_index xs)"
proof (cases xs)
  case (Cons m ms)
  show ?thesis using predict_fold [of ms 0 m] compress_from_ne [of m ms] unfolding Cons compress_raw_index_eq
    by (cases ms) (simp_all add: compress_raw_index_predict_def Let_def)
qed (simp add: compress_raw_index_predict_def compress_raw_index_def)

lemma joined_props:
  assumes "mapping_ok m" "mapping_ok n" "can_merge_with m n" "0 < m_length m" "0 < m_length n"
  shows "mapping_ok (joined m n)" "m_offset (joined m n) = m_offset m"
    "m_offset (joined m n) + m_length (joined m n) = m_offset n + m_length n"
    "covers (joined m n) b \<longleftrightarrow> covers m b \<or> covers n b"
    "covers m b \<Longrightarrow> cell_at (joined m n) b = cell_at m b"
    "covers n b \<Longrightarrow> cell_at (joined m n) b = cell_at n b"
proof -
  have e: "m_offset n = m_offset m + m_length m"
    using assms by (simp add: can_merge_with_def nowrap)
  have l: "m_length (joined m n) = m_length m + m_length n"
    using assms by (simp add: joined_def can_merge_with_def MAX_LENGTH_def nowrap)
  have s: "m_offset (joined m n) = m_offset m" "moffset (joined m n) = moffset m"
    "zeroed (joined m n) = zeroed m" "tag (joined m n) = tag m"
    "has_physical_range (joined m n) = has_physical_range m"
    by (simp_all add: joined_def has_physical_range_def)
  have p: "has_physical_range m \<Longrightarrow> moffset n = moffset m + m_length m"
    using assms by (auto simp: can_merge_with_def mend_def mapping_ok_def NO_PHYSICAL_OFFSET_def nowrap)
  show "m_offset (joined m n) = m_offset m" 
    "m_offset (joined m n) + m_length (joined m n) = m_offset n + m_length n"
    "covers (joined m n) b \<longleftrightarrow> covers m b \<or> covers n b"
    using e l s assms(4,5) by (auto simp: covers_def)
  show "mapping_ok (joined m n)"
    using assms(1-3) e l s p unfolding mapping_ok_def can_merge_with_def by (auto simp: MAX_LENGTH_def)
  show "covers m b \<Longrightarrow> cell_at (joined m n) b = cell_at m b"
    using s by (simp add: cell_at_def)
  show "covers n b \<Longrightarrow> cell_at (joined m n) b = cell_at n b"
    using s e p assms(3) by (auto simp: cell_at_def covers_def can_merge_with_def)
qed

lemma compress_from_ok:
  assumes "index_ok (m # ms)"
  shows "index_ok (compress_from m ms) \<and> (\<forall>x\<in>set (compress_from m ms). m_offset m \<le> m_offset x)
    \<and> imap (compress_from m ms) b = imap (m # ms) b"
  using assms
proof (induction ms arbitrary: m)
  case (Cons n ns)
  have ok: "mapping_ok m" "0 < m_length m" "mapping_ok n" "0 < m_length n" "disjoint_before m n"
      "index_ok (n # ns)" "\<forall>x\<in>set ns. disjoint_before m x" "\<forall>x\<in>set ns. disjoint_before n x" "index_ok ns"
    using Cons.prems by (auto simp: index_ok_Cons)
  show ?case
  proof (cases "can_merge_with m n")
    case True
    note j = joined_props [OF ok(1,3) True ok(2,4)]
    have "index_ok (joined m n # ns)"
      using ok j(1-3) by (auto simp: index_ok_Cons disjoint_before_def)
    from Cons.IH [OF this] show ?thesis using True j(2,4-6) by auto
  next
    case False
    from Cons.IH [OF ok(6)] ok(1,2,5) show ?thesis using False
      by (force simp: index_ok_Cons disjoint_before_def)
  qed
qed simp

subsection \<open>Read-only indexes and their merge\<close>

definition norm_cell :: "cell \<Rightarrow> cell" where
  "norm_cell c = (if cell_zeroed c then Cell True None (cell_tag c) else c)"

definition retag :: "nat \<Rightarrow> cell \<Rightarrow> cell" where
  "retag t c = Cell (cell_zeroed c) (cell_phys c) t"

fun layer_map :: "nat \<Rightarrow> SegmentMapping list list \<Rightarrow> nat \<Rightarrow> cell option" where
  "layer_map i [] b = None"
| "layer_map i (x # xs) b =
     (case imap x b of Some c \<Rightarrow> Some (retag (as_u8 i) c) | None \<Rightarrow> layer_map (Suc i) xs b)"

lemma ReadOnlyIndex_new_imap:
  "imap (ReadOnlyIndex_new ms) b = map_option norm_cell (imap ms b)"
  by (induction ms)
    (auto simp: ReadOnlyIndex_new_def covers_def cell_at_def norm_cell_def has_physical_range_def)

lemma ReadOnlyIndex_new_ok:
  assumes "index_ok ms"
  shows "index_ok (ReadOnlyIndex_new ms)"
proof -
  let ?f = "\<lambda>m. if zeroed m then m\<lparr>moffset := NO_PHYSICAL_OFFSET\<rparr> else m"
  have s: "segment (?f m) = segment m" for m by simp
  have "mapping_ok m \<Longrightarrow> mapping_ok (m\<lparr>moffset := NO_PHYSICAL_OFFSET\<rparr>)" if "zeroed m" for m
    using that by (auto simp: mapping_ok_def has_physical_range_def)
  then show ?thesis
    using assms by (auto simp: index_ok_def ReadOnlyIndex_new_def sorted_wrt_map disjoint_before_def [abs_def] s)
qed

lemma retag_ok: "mapping_ok m \<Longrightarrow> t < 2 ^ 8 \<Longrightarrow> mapping_ok (m\<lparr>tag := t\<rparr>)"
  by (simp add: mapping_ok_def has_physical_range_def)

lemma retag_cell: "cell_at (m\<lparr>tag := t\<rparr>) b = retag t (cell_at m b)" "covers (m\<lparr>tag := t\<rparr>) b = covers m b"
  by (simp_all add: cell_at_def retag_def covers_def has_physical_range_def)

lemma insert_all:
  assumes "index_ok ms" "index_ok mi" "t < 2 ^ 8"
  shows "index_ok (fold (\<lambda>m mi. MutableIndex_insert mi (m\<lparr>tag := t\<rparr>)) ms mi)
    \<and> imap (fold (\<lambda>m mi. MutableIndex_insert mi (m\<lparr>tag := t\<rparr>)) ms mi) b
      = (case imap ms b of Some c \<Rightarrow> Some (retag t c) | None \<Rightarrow> imap mi b)"
  using assms
proof (induction ms arbitrary: mi)
  case (Cons m ms)
  have ok: "mapping_ok (m\<lparr>tag := t\<rparr>)" "index_ok ms" using Cons.prems by (auto simp: index_ok_Cons retag_ok)
  have nd: "imap ms b = None" if "covers m b"
  proof -
    have "\<not> covers x b" if "x \<in> set ms" for x
      using Cons.prems that \<open>covers m b\<close> by (auto simp: index_ok_Cons disjoint_before_def covers_def)
    then show ?thesis by (simp add: imap_None_iff)
  qed
  show ?case
    using Cons.IH [OF ok(2) MutableIndex_insert_ok [OF ok(1) Cons.prems(2)] Cons.prems(3)]
      MutableIndex_insert_imap [OF ok(1) Cons.prems(2), of b] nd
    by (auto simp: retag_cell split: option.splits)
qed simp

lemma merge_fold:
  assumes "\<forall>x\<in>set indexes. index_ok x"
  defines "g \<equiv> \<lambda>(i, ms) mi. fold (\<lambda>m mi. MutableIndex_insert mi (m\<lparr>tag := as_u8 i\<rparr>)) ms mi"
  shows "index_ok (fold g (rev (enumerate i indexes)) [])
    \<and> imap (fold g (rev (enumerate i indexes)) []) b = layer_map i indexes b"
  using assms(1)
proof (induction indexes arbitrary: i)
  case (Cons x xs)
  have lt: "as_u8 i < 2 ^ 8" by (simp add: as_u8_def)
  from Cons.IH [of "Suc i"] Cons.prems
  have ih: "index_ok (fold g (rev (enumerate (Suc i) xs)) [])"
    "imap (fold g (rev (enumerate (Suc i) xs)) []) b = layer_map (Suc i) xs b" by auto
  from insert_all [OF _ ih(1) lt, of x b] Cons.prems ih(2)
  show ?case by (auto simp: g_def split: option.splits)
qed simp

lemma ReadOnlyIndex_merge_ok:
  "\<forall>x\<in>set indexes. index_ok x \<Longrightarrow> index_ok (ReadOnlyIndex_merge indexes)"
  using merge_fold [of indexes 0] by (simp add: ReadOnlyIndex_merge_def ReadOnlyIndex_new_ok)

lemma ReadOnlyIndex_merge_imap:
  "\<forall>x\<in>set indexes. index_ok x \<Longrightarrow>
     imap (ReadOnlyIndex_merge indexes) b = map_option norm_cell (layer_map 0 indexes b)"
  using merge_fold [of indexes 0 b] by (simp add: ReadOnlyIndex_merge_def ReadOnlyIndex_new_imap)

subsection \<open>The combined index\<close>

lemma lookup_ref_within:
  assumes "index_ok ms" "segment_ok q" "x \<in> set (lookup_ref ms q)"
  shows "seg_offset q \<le> m_offset x \<and> m_offset x + m_length x \<le> seg_offset q + seg_length q"
proof -
  from assms obtain m where m: "m \<in> set ms" "meets q m" "x = clip q m" "0 < seg_length q"
    by (auto simp: lookup_ref_def split: if_splits)
  with assms clip_props(1,2) [of m q] show ?thesis by (auto simp: index_ok_def)
qed

definition over :: "cell option \<Rightarrow> cell option \<Rightarrow> cell option" where
  "over u l = (case u of Some c \<Rightarrow> Some c | None \<Rightarrow> l)"

lemma gap_lookup:
  assumes "index_ok low" "a \<le> e" "e < 2 ^ 64" "e - a < 2 ^ 32"
  defines "g \<equiv> ReadOnlyIndex_lookup low (Segment_new a (as_u32 (u64_sub e a)))"
  shows "index_ok g" "imap g b = (if a \<le> b \<and> b < e then imap low b else None)"
    "x \<in> set g \<Longrightarrow> a \<le> m_offset x \<and> m_offset x + m_length x \<le> e"
proof -
  have q: "as_u32 (u64_sub e a) = e - a" using assms by (simp add: nowrap)
  have s: "segment_ok (Segment_new a (e - a))" using assms by (simp add: segment_ok_def)
  show "index_ok g" "imap g b = (if a \<le> b \<and> b < e then imap low b else None)"
    "x \<in> set g \<Longrightarrow> a \<le> m_offset x \<and> m_offset x + m_length x \<le> e"
    using lookup_ref_ok [OF assms(1) s] lookup_ref_imap [OF assms(1) s, of b] assms(2)
      lookup_ref_within [OF assms(1) s, of x]
    by (auto simp: g_def q ReadOnlyIndex_lookup_ref [OF assms(1) s] in_segment_def)
qed

lemma combo_scan_ok:
  assumes "index_ok low" "index_ok ms" "a \<le> e" "e < 2 ^ 64" "e - a < 2 ^ 32"
    "\<forall>x\<in>set ms. a \<le> m_offset x \<and> m_offset x + m_length x \<le> e"
  shows "index_ok (combo_scan low a e ms)
    \<and> (\<forall>x\<in>set (combo_scan low a e ms). a \<le> m_offset x)
    \<and> imap (combo_scan low a e ms) b = (if a \<le> b \<and> b < e then over (imap ms b) (imap low b) else None)"
  using assms
proof (induction ms arbitrary: a)
  case Nil
  then show ?case using gap_lookup [of low a e] by (auto simp: over_def)
next
  case (Cons m ms)
  have m: "mapping_ok m" "0 < m_length m" "a \<le> m_offset m" "m_offset m + m_length m \<le> e"
    "index_ok ms" "\<forall>x\<in>set ms. disjoint_before m x" "m_end m = m_offset m + m_length m"
    using Cons.prems by (auto simp: index_ok_Cons nowrap)
  let ?g = "if m_offset m > a then ReadOnlyIndex_lookup low (Segment_new a (as_u32 (u64_sub (m_offset m) a))) else []"
  have g: "index_ok ?g" "imap ?g b = (if a \<le> b \<and> b < m_offset m then imap low b else None)"
    "\<forall>x\<in>set ?g. a \<le> m_offset x \<and> m_offset x + m_length x \<le> m_offset m"
    using gap_lookup [OF Cons.prems(1), of a "m_offset m"] m Cons.prems by auto
  have r: "index_ok (combo_scan low (m_end m) e ms)
    \<and> (\<forall>x\<in>set (combo_scan low (m_end m) e ms). m_end m \<le> m_offset x)
    \<and> imap (combo_scan low (m_end m) e ms) b
      = (if m_end m \<le> b \<and> b < e then over (imap ms b) (imap low b) else None)"
    using Cons.prems m by (intro Cons.IH) (auto simp: disjoint_before_def)
  have nb: "imap ms b = None" if "b < m_offset m + m_length m"
    using m(6) that by (fastforce simp: imap_None_iff covers_def disjoint_before_def)
  have ok: "index_ok (?g @ m # combo_scan low (m_end m) e ms)"
    using g r m by (fastforce simp: index_ok_append index_ok_Cons disjoint_before_def)
  moreover have "\<forall>x\<in>set (?g @ m # combo_scan low (m_end m) e ms). a \<le> m_offset x"
    using g(3) r m by fastforce
  moreover have "imap (?g @ m # combo_scan low (m_end m) e ms) b =
     (if a \<le> b \<and> b < e then over (imap (m # ms) b) (imap low b) else None)"
    unfolding imap_append g(2) using r m nb
    by (auto simp: over_def covers_def split: option.splits)
  ultimately show ?case by simp
qed

definition combo_ok :: "ComboIndex \<Rightarrow> bool" where
  "combo_ok ci \<longleftrightarrow> index_ok (upper ci) \<and> (case lower ci of None \<Rightarrow> True | Some l \<Rightarrow> index_ok l)"

definition combo_map :: "ComboIndex \<Rightarrow> nat \<Rightarrow> cell option" where
  "combo_map ci b = over (imap (upper ci) b) (case lower ci of None \<Rightarrow> None | Some l \<Rightarrow> imap l b)"

lemma ComboIndex_insert_lower [simp]: "lower (ComboIndex_insert ci m) = lower ci"
  by (simp add: ComboIndex_insert_def)

lemma ComboIndex_lookup_ok:
  assumes "combo_ok ci" "segment_ok q"
  shows "index_ok (ComboIndex_lookup ci q)"
    and "imap (ComboIndex_lookup ci q) b = (if in_segment q b then combo_map ci b else None)"
proof -
  have u: "index_ok (upper ci)" using assms by (simp add: combo_ok_def)
  note U = MutableIndex_lookup_ref [OF u assms(2)] lookup_ref_ok [OF u assms(2)] lookup_ref_imap [OF u assms(2)]
  have "index_ok (ComboIndex_lookup ci q)
    \<and> imap (ComboIndex_lookup ci q) b = (if in_segment q b then combo_map ci b else None)"
  proof (cases "lower ci")
    case None
    then show ?thesis using U
      by (auto simp: ComboIndex_lookup_def combo_map_def over_def in_segment_def split: option.splits)
  next
    case (Some low)
    then have "index_ok low" using assms by (simp add: combo_ok_def)
    from combo_scan_ok [OF this U(2), of "seg_offset q" "Segment_end q" b] assms(2) Some U(1,3)
      lookup_ref_within [OF u assms(2)]
    show ?thesis
      by (auto simp: ComboIndex_lookup_def combo_map_def over_def in_segment_def segment_ok_def nowrap)
  qed
  then show "index_ok (ComboIndex_lookup ci q)"
    "imap (ComboIndex_lookup ci q) b = (if in_segment q b then combo_map ci b else None)" by auto
qed

lemma ComboIndex_insert_ok:
  assumes "combo_ok ci" "mapping_ok m"
  shows "combo_ok (ComboIndex_insert ci m)"
    and "combo_map (ComboIndex_insert ci m) b = (if covers m b then Some (cell_at m b) else combo_map ci b)"
  using assms MutableIndex_insert_ok [OF assms(2), of "upper ci"]
    MutableIndex_insert_imap [OF assms(2), of "upper ci" b]
  by (auto simp: combo_ok_def combo_map_def ComboIndex_insert_def over_def)

lemma bt_insert_last:
  assumes "\<forall>x\<in>set xs. m_offset x < m_offset m"
  shows "bt_insert m xs = xs @ [m]"
  using assms by (induction xs) auto

lemma bt_insert_all:
  assumes "osorted (acc @ map f ms)"
  shows "fold (\<lambda>m acc. bt_insert (f m) acc) ms acc = acc @ map f ms"
  using assms
proof (induction ms arbitrary: acc)
  case (Cons m ms)
  have "\<forall>x\<in>set acc. m_offset x < m_offset (f m)"
    using Cons.prems by (auto simp: osorted_def sorted_wrt_append)
  with Cons.IH [of "acc @ [f m]"] Cons.prems show ?case by (simp add: bt_insert_last)
qed simp

lemma ComboIndex_new_upper:
  assumes "index_ok up"
  shows "upper (ComboIndex_new up low n) =
    (if n > 0 then map (\<lambda>m. m\<lparr>tag := u8_add (tag m) n\<rparr>) up else up)"
proof -
  have "osorted up" using assms by (simp add: index_ok_iff)
  then have "osorted (map (\<lambda>m. m\<lparr>tag := u8_add (tag m) n\<rparr>) up)"
    by (simp add: osorted_def sorted_wrt_map)
  then show ?thesis
    using bt_insert_all [of "[]" "\<lambda>m. m\<lparr>tag := u8_add (tag m) n\<rparr>" up]
    by (simp add: ComboIndex_new_def)
qed

lemma imap_retag_map:
  "imap (map (\<lambda>m. m\<lparr>tag := f (tag m)\<rparr>) ms) b = map_option (\<lambda>c. retag (f (cell_tag c)) c) (imap ms b)"
  by (induction ms) (auto simp: retag_cell, auto simp: cell_at_def)

lemma index_ok_retag_map:
  assumes "index_ok ms" "\<And>t. f t < 2 ^ 8"
  shows "index_ok (map (\<lambda>m. m\<lparr>tag := f (tag m)\<rparr>) ms)"
  using assms by (auto simp: index_ok_def sorted_wrt_map retag_ok disjoint_before_def [abs_def])

subsection \<open>The interface of an index\<close>

locale log_index =
  fixes ix_ok :: "'ix \<Rightarrow> bool"
    and lookup :: "'ix \<Rightarrow> Segment \<Rightarrow> SegmentMapping list"
    and denote :: "'ix \<Rightarrow> nat \<Rightarrow> cell option"
  assumes lookup_ok: "ix_ok ix \<Longrightarrow> segment_ok q \<Longrightarrow> index_ok (lookup ix q)"
    and lookup_map: "ix_ok ix \<Longrightarrow> segment_ok q \<Longrightarrow>
      imap (lookup ix q) b = (if in_segment q b then denote ix b else None)"
begin

lemma lookup_mem:
  assumes "ix_ok ix" "segment_ok q" "m \<in> set (lookup ix q)" "covers m b"
  shows "in_segment q b \<and> denote ix b = Some (cell_at m b)"
  using imap_mem [OF lookup_ok [OF assms(1,2)] assms(3,4)] lookup_map [OF assms(1,2), of b]
  by (auto split: if_splits)

lemma lookup_bounds:
  assumes "ix_ok ix" "segment_ok q" "m \<in> set (lookup ix q)"
  shows "seg_offset q \<le> m_offset m" "m_offset m + m_length m \<le> seg_offset q + seg_length q"
proof -
  have "0 < m_length m" using lookup_ok [OF assms(1,2)] assms(3) by (simp add: index_ok_def)
  then have "covers m (m_offset m)" "covers m (m_offset m + m_length m - 1)" by (auto simp: covers_def)
  with lookup_mem [OF assms] show "seg_offset q \<le> m_offset m"
    "m_offset m + m_length m \<le> seg_offset q + seg_length q" by (force simp: in_segment_def)+
qed

lemma lookup_gap:
  assumes "ix_ok ix" "segment_ok q" "in_segment q b" "\<forall>m\<in>set (lookup ix q). \<not> covers m b"
  shows "denote ix b = None"
proof -
  have "imap (lookup ix q) b = None" using assms(4) by (simp add: imap_None_iff)
  then show ?thesis using lookup_map [OF assms(1,2), of b] assms(3) by simp
qed

end

interpretation ro_ix: log_index index_ok ReadOnlyIndex_lookup imap
  by unfold_locales (simp_all add: ReadOnlyIndex_lookup_ref lookup_ref_ok lookup_ref_imap)

interpretation rw_ix: log_index index_ok MutableIndex_lookup imap
  by unfold_locales (simp_all add: MutableIndex_lookup_ref lookup_ref_ok lookup_ref_imap)

interpretation combo_ix: log_index combo_ok ComboIndex_lookup combo_map
  by unfold_locales (simp_all add: ComboIndex_lookup_ok)

subsection \<open>Properties\<close>

lemmas index_eval = index_ok_def mapping_ok_def segment_ok_def in_segment_def disjoint_before_def combo_ok_def
  SegmentMapping_new_def Segment_new_def has_physical_range_def NO_PHYSICAL_OFFSET_def covers_def cell_at_def
  ComboIndex_new_def combo_map_def over_def norm_cell_def retag_def

text \<open>A small index with a data mapping, a zeroed mapping and a gap, for the witnesses.\<close>

definition sample_index :: "SegmentMapping list" where
  "sample_index = [SegmentMapping_new 0 10 100 False 0, SegmentMapping_new 20 5 NO_PHYSICAL_OFFSET True 1,
     SegmentMapping_new 25 4 300 False 0]"

lemma sample_index_ok: "index_ok sample_index"
  by (simp add: sample_index_def index_eval)

text \<open>
  C23. Inserting a mapping into the writable index keeps the index well formed (sorted, disjoint, in
  range) and updates exactly the blocks the mapping covers: every other block keeps its cell.
\<close>

theorem MutableIndex_insert_refines:
  assumes "index_ok xs" "mapping_ok m"
  shows "index_ok (MutableIndex_insert xs m) \<and>
    imap (MutableIndex_insert xs m) = (\<lambda>b. if covers m b then Some (cell_at m b) else imap xs b)"
  using MutableIndex_insert_ok [OF assms(2,1)] MutableIndex_insert_imap [OF assms(2,1)] by (simp add: fun_eq_iff)

theorem MutableIndex_insert_refines_witness:
  "index_ok (MutableIndex_insert sample_index (SegmentMapping_new 5 18 500 False 0)) \<and>
   imap (MutableIndex_insert sample_index (SegmentMapping_new 5 18 500 False 0)) 22 = Some (Cell False (Some 517) 0)"
proof -
  have m: "mapping_ok (SegmentMapping_new 5 18 500 False 0)" by (simp add: sample_index_def index_eval u8_add_def as_u8_def)
  have c: "covers (SegmentMapping_new 5 18 500 False 0) 22"
    "cell_at (SegmentMapping_new 5 18 500 False 0) 22 = Cell False (Some 517) 0" by (simp_all add: sample_index_def index_eval u8_add_def as_u8_def)
  show ?thesis using MutableIndex_insert_refines [OF sample_index_ok m] c by simp
qed

text \<open>
  C24. The binary search of the read-only index and the ordered-set range scan of the writable index
  return the same mappings for every query, and these denote the index cut to the queried range.
\<close>

theorem index_lookup_equiv:
  assumes "index_ok ms" "segment_ok q"
  shows "ReadOnlyIndex_lookup ms q = MutableIndex_lookup ms q \<and> index_ok (MutableIndex_lookup ms q) \<and>
    imap (MutableIndex_lookup ms q) = (\<lambda>b. if in_segment q b then imap ms b else None)"
  using rw_ix.lookup_ok [OF assms] rw_ix.lookup_map [OF assms]
  by (simp add: ReadOnlyIndex_lookup_ref MutableIndex_lookup_ref assms fun_eq_iff)

theorem index_lookup_equiv_witness:
  "ReadOnlyIndex_lookup sample_index (Segment_new 3 19) = MutableIndex_lookup sample_index (Segment_new 3 19)
   \<and> imap (MutableIndex_lookup sample_index (Segment_new 3 19)) 2 = None"
proof -
  have q: "segment_ok (Segment_new 3 19)" "\<not> in_segment (Segment_new 3 19) 2" by (simp_all add: sample_index_def index_eval u8_add_def as_u8_def)
  show ?thesis using index_lookup_equiv [OF sample_index_ok q(1)] q(2) by simp
qed

text \<open>
  C25. A lookup in the two-level index returns, for every queried block, the cell of the writable upper
  index where it has one and the cell of the lower index otherwise, as a sorted list of disjoint
  mappings; inserting into it shadows the lower index on the inserted range only.
\<close>

theorem ComboIndex_refines:
  assumes "combo_ok ci" "segment_ok q" "mapping_ok m"
  shows "index_ok (ComboIndex_lookup ci q)
    \<and> imap (ComboIndex_lookup ci q) = (\<lambda>b. if in_segment q b then combo_map ci b else None)
    \<and> combo_ok (ComboIndex_insert ci m)
    \<and> combo_map (ComboIndex_insert ci m) = (\<lambda>b. if covers m b then Some (cell_at m b) else combo_map ci b)"
  using ComboIndex_lookup_ok [OF assms(1,2)] ComboIndex_insert_ok [OF assms(1,3)] by (simp add: fun_eq_iff)

theorem ComboIndex_refines_witness:
  "imap (ComboIndex_lookup (ComboIndex_new [SegmentMapping_new 8 4 900 False 0] (Some sample_index) 2)
      (Segment_new 0 30)) 11 = Some (Cell False (Some 903) 2)"
proof -
  let ?ci = "ComboIndex_new [SegmentMapping_new 8 4 900 False 0] (Some sample_index) 2"
  have ok: "combo_ok ?ci" "segment_ok (Segment_new 0 30)" "mapping_ok (SegmentMapping_new 5 18 500 False 0)"
    "in_segment (Segment_new 0 30) 11" by (simp_all add: sample_index_def index_eval u8_add_def as_u8_def)
  have "combo_map ?ci 11 = Some (Cell False (Some 903) 2)" by (simp add: sample_index_def index_eval u8_add_def as_u8_def)
  then show ?thesis using ComboIndex_refines [OF ok(1,2,3)] ok(4) by simp
qed

text \<open>
  C26. Merging the indexes of a stack of layers, given from the newest to the oldest, yields a
  well-formed index in which every block has the cell of the newest layer that maps it, tagged with
  that layer's position; a zeroed cell of a newer layer hides the older ones.
\<close>

theorem ReadOnlyIndex_merge_topmost:
  assumes "\<forall>x\<in>set indexes. index_ok x"
  shows "index_ok (ReadOnlyIndex_merge indexes) \<and>
    imap (ReadOnlyIndex_merge indexes) = (\<lambda>b. map_option norm_cell (layer_map 0 indexes b))"
  using ReadOnlyIndex_merge_ok [OF assms] ReadOnlyIndex_merge_imap [OF assms] by (simp add: fun_eq_iff)

theorem ReadOnlyIndex_merge_topmost_witness:
  "imap (ReadOnlyIndex_merge [[SegmentMapping_new 8 14 700 False 0], sample_index]) 21 = Some (Cell False (Some 713) 0)
   \<and> imap (ReadOnlyIndex_merge [[SegmentMapping_new 8 14 700 False 0], sample_index]) 3 = Some (Cell False (Some 103) 1)"
proof -
  let ?ix = "[[SegmentMapping_new 8 14 700 False 0], sample_index]"
  have ok: "\<forall>x\<in>set ?ix. index_ok x" by (simp add: sample_index_def index_eval u8_add_def as_u8_def)
  have "map_option norm_cell (layer_map 0 ?ix 21) = Some (Cell False (Some 713) 0)"
    "map_option norm_cell (layer_map 0 ?ix 3) = Some (Cell False (Some 103) 1)" by (simp_all add: sample_index_def index_eval u8_add_def as_u8_def)
  then show ?thesis using ReadOnlyIndex_merge_topmost [OF ok] by simp
qed

lemma length_compress_from: "length (compress_from m ms) \<le> Suc (length ms)"
  by (induction ms arbitrary: m) (simp_all add: le_SucI)

text \<open>
  C27. Joining adjacent mappings before an index is written keeps what the index denotes and its
  well-formedness, never makes it longer, and the predicted number of entries is the real one.
\<close>

theorem compress_raw_index_sound:
  assumes "index_ok ms" "ms \<noteq> []"
  shows "index_ok (snd (compress_raw_index ms)) \<and> imap (snd (compress_raw_index ms)) = imap ms
    \<and> length (snd (compress_raw_index ms)) \<le> length ms
    \<and> compress_raw_index_predict ms = length (snd (compress_raw_index ms))"
proof -
  obtain m r where ms: "ms = m # r" using assms(2) by (cases ms) auto
  show ?thesis using compress_from_ok [of m r] length_compress_from [of m r] assms(1)
    by (simp add: ms compress_raw_index_predict_eq compress_raw_index_eq fun_eq_iff)
qed

theorem compress_raw_index_sound_witness:
  "compress_raw_index_predict [SegmentMapping_new 0 10 100 False 0, SegmentMapping_new 10 5 110 False 0] = 1 \<and>
   index_ok (snd (compress_raw_index [SegmentMapping_new 0 10 100 False 0, SegmentMapping_new 10 5 110 False 0]))"
proof -
  let ?ms = "[SegmentMapping_new 0 10 100 False 0, SegmentMapping_new 10 5 110 False 0]"
  have ok: "index_ok ?ms" "?ms \<noteq> []" by (simp_all add: sample_index_def index_eval u8_add_def as_u8_def)
  have "length (snd (compress_raw_index ?ms)) = 1"
    by (simp add: compress_raw_index_def compress_step_def can_merge_with_def m_end_def mend_def Segment_end_def
        index_eval MAX_LENGTH_def u64_add_def u32_add_def)
  then show ?thesis using compress_raw_index_sound [OF ok] by simp
qed

end
