(* ===== verification/Lsmt_Format.thy ===== *)
theory Lsmt_Format
  imports Lsmt_Index
begin

text \<open>
  The on-disk format of a layer: \<^verbatim>\<open>storage/overlaybd/src/lsmt/format.rs\<close>, the layout enums of
  \<^verbatim>\<open>lsmt/file/types.rs\<close> and the header fields of \<^verbatim>\<open>lsmt/file/helper.rs\<close>.

  A segment mapping is stored in two 64-bit words of packed fields (50-bit offset, 14-bit length,
  55-bit physical offset, zero flag, 8-bit tag), kept here as machine words with the source's masks and
  shifts. Headers and trailers are packed little-endian structures of 390 bytes in a 4096-byte block.
  The lemmas show that both codecs round-trip on the values that fit, what is kept of a mapping that does
  not fit, and that a freshly made header describes the layer it was made for.
\<close>

unbundle bit_operations_syntax

subsection \<open>Segment mappings on disk\<close>

record DiskSegmentMapping =
  data_low :: "64 word"
  data_high :: "64 word"

definition OFFSET_MASK :: "64 word" where "OFFSET_MASK = push_bit 50 1 - 1"
definition LENGTH_MASK :: "64 word" where "LENGTH_MASK = push_bit 14 1 - 1"
definition MOFFSET_MASK :: "64 word" where "MOFFSET_MASK = push_bit 55 1 - 1"
definition ZEROED_MASK :: "64 word" where "ZEROED_MASK = 1"
definition TAG_MASK :: "64 word" where "TAG_MASK = 0xFF"

definition from_memory :: "SegmentMapping \<Rightarrow> DiskSegmentMapping" where
  "from_memory m =
     (let off = of_nat (m_offset m) AND OFFSET_MASK;
          len = of_nat (m_length m) AND LENGTH_MASK;
          low = off OR push_bit 50 len;
          moff = of_nat (moffset m) AND MOFFSET_MASK;
          z = (if zeroed m then 1 else 0);
          t = of_nat (tag m) AND TAG_MASK;
          high = moff OR push_bit 55 z OR push_bit 56 t
      in \<lparr>data_low = low, data_high = high\<rparr>)"

definition to_memory :: "DiskSegmentMapping \<Rightarrow> SegmentMapping" where
  "to_memory d =
     (let low = data_low d; high = data_high d;
          off = low AND OFFSET_MASK;
          len = drop_bit 50 low AND LENGTH_MASK;
          moff = high AND MOFFSET_MASK;
          z = (drop_bit 55 high AND ZEROED_MASK \<noteq> 0);
          t = drop_bit 56 high
      in SegmentMapping_new (unat off) (unat len) (unat moff) z (as_u8 (unat t)))"

lemma masks:
  "w AND OFFSET_MASK = take_bit 50 w" "w AND LENGTH_MASK = take_bit 14 w"
  "w AND MOFFSET_MASK = take_bit 55 w" "w AND ZEROED_MASK = take_bit 1 w" "w AND TAG_MASK = take_bit 8 w"
  by (simp_all add: take_bit_eq_mask mask_eq_exp_minus_1 OFFSET_MASK_def LENGTH_MASK_def MOFFSET_MASK_def
      ZEROED_MASK_def TAG_MASK_def)

lemma unat_take_bit_of_nat:
  assumes "n \<le> 64"
  shows "unat (take_bit n (of_nat k :: 64 word)) = k mod 2 ^ n"
proof -
  have "unat (take_bit n (of_nat k :: 64 word)) = (k mod 2 ^ 64) mod 2 ^ n"
    unfolding unsigned_take_bit_eq by (simp add: unat_of_nat take_bit_eq_mod)
  also have "\<dots> = k mod 2 ^ n" by (rule mod_mod_cancel) (use assms in \<open>rule le_imp_power_dvd\<close>)
  finally show ?thesis .
qed

lemma to_memory_from_memory_gen:
  "to_memory (from_memory m) =
     SegmentMapping_new (m_offset m mod 2 ^ 50) (m_length m mod 2 ^ 14) (moffset m mod 2 ^ 55)
       (zeroed m) (tag m mod 2 ^ 8)"
proof -
  define off len moff t z where "off = (of_nat (m_offset m) :: 64 word)"
    and "len = (of_nat (m_length m) :: 64 word)" and "moff = (of_nat (moffset m) :: 64 word)"
    and "t = (of_nat (tag m) :: 64 word)" and "z = (if zeroed m then 1 else 0 :: 64 word)"
  note d = off_def len_def moff_def t_def
  have low: "take_bit 50 (take_bit 50 off OR push_bit 50 (take_bit 14 len)) = take_bit 50 off"
    by (rule bit_word_eqI) (auto simp: bit_simps)
  have len: "take_bit 14 (drop_bit 50 (take_bit 50 off OR push_bit 50 (take_bit 14 len))) = take_bit 14 len"
    by (rule bit_word_eqI) (auto simp: bit_simps)
  let ?h = "take_bit 55 moff OR push_bit 55 z OR push_bit 56 (take_bit 8 t)"
  have moff: "take_bit 55 ?h = take_bit 55 moff"
    by (rule bit_word_eqI) (auto simp: bit_simps)
  have z: "take_bit 1 (drop_bit 55 ?h) = z"
    by (rule bit_word_eqI) (auto simp: z_def bit_simps simp del: take_bit_Suc_0 One_nat_def split: if_splits)
  have t: "drop_bit 56 ?h = take_bit 8 t"
    by (rule bit_word_eqI) (auto simp: bit_simps z_def bit_1_iff split: if_splits)
  have "z \<noteq> 0 \<longleftrightarrow> zeroed m" by (simp add: z_def)
  then show ?thesis
    unfolding from_memory_def to_memory_def Let_def masks d [symmetric] z_def [symmetric]
      DiskSegmentMapping.select_convs low len moff z t
    unfolding d by (simp add: unat_take_bit_of_nat as_u8_def del: take_bit_of_nat)
qed


corollary to_memory_from_memory:
  assumes "m_offset m < 2 ^ 50" "m_length m < 2 ^ 14" "moffset m < 2 ^ 55" "tag m < 2 ^ 8"
  shows "to_memory (from_memory m) = m"
  using assms unfolding to_memory_from_memory_gen
  by (simp add: SegmentMapping_new_def Segment_new_def)

definition disk_fits :: "SegmentMapping \<Rightarrow> bool" where
  "disk_fits m \<longleftrightarrow> m_offset m < 2 ^ 50 \<and> m_length m < 2 ^ 14 \<and> moffset m < 2 ^ 55 \<and> tag m < 2 ^ 8"

lemma to_memory_fits: "disk_fits (to_memory d)"
proof -
  have "unat (data_low d AND OFFSET_MASK) < 2 ^ 50" "unat (drop_bit 50 (data_low d) AND LENGTH_MASK) < 2 ^ 14"
    "unat (data_high d AND MOFFSET_MASK) < 2 ^ 55"
    unfolding masks unsigned_take_bit_eq by (simp_all only: take_bit_nat_less_exp)
  then show ?thesis
    unfolding disk_fits_def to_memory_def Let_def by (simp add: as_u8_def)
qed

definition disk_bytes :: "DiskSegmentMapping \<Rightarrow> byte list" where
  "disk_bytes d = le_bytes 8 (unat (data_low d)) @ le_bytes 8 (unat (data_high d))"

definition disk_read_from_bytes :: "byte list \<Rightarrow> DiskSegmentMapping option" where
  "disk_read_from_bytes bs =
     (if length bs = 16
      then Some \<lparr>data_low = of_nat (le_nat (take 8 bs)), data_high = of_nat (le_nat (drop 8 bs))\<rparr>
      else None)"

lemma length_disk_bytes [simp]: "length (disk_bytes d) = 16"
  by (simp add: disk_bytes_def)

lemma disk_read_disk_bytes: "disk_read_from_bytes (disk_bytes d) = Some d"
proof -
  have "unat w < 256 ^ 8" for w :: "64 word" using unsigned_less [of w] by simp
  then show ?thesis by (simp add: disk_read_from_bytes_def disk_bytes_def le_nat_le_bytes)
qed

subsection \<open>Headers and trailers\<close>

record HeaderTrailer =
  magic0 :: nat
  magic1 :: "byte list"
  ht_size :: nat
  flags :: "32 word"
  index_offset :: nat
  index_size :: nat
  ht_virtual_size :: nat
  ht_uuid :: "byte list"
  ht_parent_uuid :: "byte list"
  reserved :: nat
  version :: nat
  sub_version :: nat
  user_tag :: "byte list"

definition HT_SIZE :: nat where "HT_SIZE = 390"

definition SPACE :: nat where "SPACE = 4096"

definition MAGIC0 :: nat where "MAGIC0 = 0x00020100544d534c"

definition MAGIC1 :: "byte list" where
  "MAGIC1 = [0x65, 0x7e, 0x63, 0xd2, 0x94, 0x44, 0x08, 0x4c, 0xa2, 0xd2, 0xc8, 0xec, 0x4f, 0xcf, 0xae, 0x8a]"

definition HeaderTrailer_default :: HeaderTrailer where
  "HeaderTrailer_default =
     \<lparr>magic0 = 0, magic1 = replicate 16 0, ht_size = HT_SIZE, flags = 0, index_offset = 0,
      index_size = 0, ht_virtual_size = 0, ht_uuid = replicate 37 0, ht_parent_uuid = replicate 37 0,
      reserved = 0, version = 1, sub_version = 1, user_tag = replicate 256 0\<rparr>"

definition HeaderTrailer_new :: HeaderTrailer where
  "HeaderTrailer_new = HeaderTrailer_default\<lparr>magic0 := MAGIC0, magic1 := MAGIC1\<rparr>"

definition verify_magic :: "HeaderTrailer \<Rightarrow> bool" where
  "verify_magic h \<longleftrightarrow> magic0 h = MAGIC0 \<and> magic1 h = MAGIC1"

definition FLAG_SHIFT_HEADER :: nat where "FLAG_SHIFT_HEADER = 0"
definition FLAG_SHIFT_TYPE :: nat where "FLAG_SHIFT_TYPE = 1"
definition FLAG_SHIFT_SEALED :: nat where "FLAG_SHIFT_SEALED = 2"
definition FLAG_SHIFT_SPARSE_RW :: nat where "FLAG_SHIFT_SPARSE_RW = 4"
definition FLAG_SHIFT_HYBRID_RW :: nat where "FLAG_SHIFT_HYBRID_RW = 5"

lemmas flag_shifts = FLAG_SHIFT_HEADER_def FLAG_SHIFT_TYPE_def FLAG_SHIFT_SEALED_def
  FLAG_SHIFT_SPARSE_RW_def FLAG_SHIFT_HYBRID_RW_def

definition update_flags :: "HeaderTrailer \<Rightarrow> (32 word \<Rightarrow> 32 word) \<Rightarrow> HeaderTrailer" where
  "update_flags h f = h\<lparr>flags := f (flags h)\<rparr>"

definition is_header :: "HeaderTrailer \<Rightarrow> bool" where
  "is_header h \<longleftrightarrow> flags h AND push_bit FLAG_SHIFT_HEADER 1 \<noteq> 0"

definition is_trailer :: "HeaderTrailer \<Rightarrow> bool" where
  "is_trailer h \<longleftrightarrow> \<not> is_header h"

definition is_data_file :: "HeaderTrailer \<Rightarrow> bool" where
  "is_data_file h \<longleftrightarrow> flags h AND push_bit FLAG_SHIFT_TYPE 1 \<noteq> 0"

definition is_sealed :: "HeaderTrailer \<Rightarrow> bool" where
  "is_sealed h \<longleftrightarrow> flags h AND push_bit FLAG_SHIFT_SEALED 1 \<noteq> 0"

definition is_sparse_rw :: "HeaderTrailer \<Rightarrow> bool" where
  "is_sparse_rw h \<longleftrightarrow> flags h AND push_bit FLAG_SHIFT_SPARSE_RW 1 \<noteq> 0"

definition is_hybrid_rw :: "HeaderTrailer \<Rightarrow> bool" where
  "is_hybrid_rw h \<longleftrightarrow> flags h AND push_bit FLAG_SHIFT_HYBRID_RW 1 \<noteq> 0"

definition set_trailer :: "HeaderTrailer \<Rightarrow> HeaderTrailer" where
  "set_trailer h = h\<lparr>flags := flags h AND NOT 1\<rparr>"

definition set_header :: "HeaderTrailer \<Rightarrow> HeaderTrailer" where
  "set_header h = update_flags h (\<lambda>f. f OR push_bit FLAG_SHIFT_HEADER 1)"

definition set_data_file :: "HeaderTrailer \<Rightarrow> HeaderTrailer" where
  "set_data_file h = update_flags h (\<lambda>f. f OR push_bit FLAG_SHIFT_TYPE 1)"

definition set_index_file :: "HeaderTrailer \<Rightarrow> HeaderTrailer" where
  "set_index_file h = update_flags h (\<lambda>f. f AND NOT (push_bit FLAG_SHIFT_TYPE 1))"

definition set_unsealed_index_offset :: "HeaderTrailer \<Rightarrow> HeaderTrailer" where
  "set_unsealed_index_offset h = h\<lparr>index_offset := SPACE\<rparr>"

definition set_sealed :: "HeaderTrailer \<Rightarrow> HeaderTrailer" where
  "set_sealed h = update_flags h (\<lambda>f. f OR push_bit FLAG_SHIFT_SEALED 1)"

definition set_sparse_rw :: "HeaderTrailer \<Rightarrow> HeaderTrailer" where
  "set_sparse_rw h = update_flags h (\<lambda>f. f OR push_bit FLAG_SHIFT_SPARSE_RW 1)"

definition set_hybrid_rw :: "HeaderTrailer \<Rightarrow> HeaderTrailer" where
  "set_hybrid_rw h = update_flags h (\<lambda>f. f OR push_bit FLAG_SHIFT_HYBRID_RW 1)"

lemma flag_test: "(w AND push_bit k 1 \<noteq> (0 :: 32 word)) \<longleftrightarrow> bit w k"
  by (simp add: and_exp_eq_0_iff_not_bit)

lemmas header_queries = is_header_def is_trailer_def is_data_file_def is_sealed_def is_sparse_rw_def
  is_hybrid_rw_def flag_test flag_shifts

lemmas header_setters = set_trailer_def set_header_def set_data_file_def set_index_file_def
  set_sealed_def set_sparse_rw_def set_hybrid_rw_def update_flags_def set_unsealed_index_offset_def
  flag_shifts

text \<open>The structure is packed and little-endian: its bytes are the fields in order.\<close>

definition ht_bytes :: "HeaderTrailer \<Rightarrow> byte list" where
  "ht_bytes h =
     le_bytes 8 (magic0 h) @ magic1 h @ le_bytes 4 (ht_size h) @ le_bytes 4 (unat (flags h))
     @ le_bytes 8 (index_offset h) @ le_bytes 8 (index_size h) @ le_bytes 8 (ht_virtual_size h)
     @ ht_uuid h @ ht_parent_uuid h @ le_bytes 2 (reserved h) @ le_bytes 1 (version h)
     @ le_bytes 1 (sub_version h) @ user_tag h"

definition ht_read_from_bytes :: "byte list \<Rightarrow> HeaderTrailer option" where
  "ht_read_from_bytes bs =
     (if length bs = HT_SIZE
      then Some \<lparr>magic0 = le_nat (subslice 0 8 bs), magic1 = subslice 8 16 bs, ht_size = le_nat (subslice 24 4 bs),
             flags = of_nat (le_nat (subslice 28 4 bs)), index_offset = le_nat (subslice 32 8 bs),
             index_size = le_nat (subslice 40 8 bs), ht_virtual_size = le_nat (subslice 48 8 bs),
             ht_uuid = subslice 56 37 bs, ht_parent_uuid = subslice 93 37 bs, reserved = le_nat (subslice 130 2 bs),
             version = le_nat (subslice 132 1 bs), sub_version = le_nat (subslice 133 1 bs),
             user_tag = subslice 134 256 bs\<rparr>
      else None)"

definition header_ok :: "HeaderTrailer \<Rightarrow> bool" where
  "header_ok h \<longleftrightarrow>
     magic0 h < 2 ^ 64 \<and> length (magic1 h) = 16 \<and> ht_size h < 2 ^ 32 \<and> index_offset h < 2 ^ 64
     \<and> index_size h < 2 ^ 64 \<and> ht_virtual_size h < 2 ^ 64 \<and> length (ht_uuid h) = 37
     \<and> length (ht_parent_uuid h) = 37 \<and> reserved h < 2 ^ 16 \<and> version h < 2 ^ 8 \<and> sub_version h < 2 ^ 8
     \<and> length (user_tag h) = 256"

lemma length_ht_bytes: "header_ok h \<Longrightarrow> length (ht_bytes h) = HT_SIZE"
  by (simp add: header_ok_def ht_bytes_def HT_SIZE_def)

lemma ht_roundtrip:
  assumes "header_ok h"
  shows "ht_read_from_bytes (ht_bytes h) = Some h"
proof -
  note l = assms [unfolded header_ok_def]
  have f: "unat (flags h) < 2 ^ 32" using unsigned_less [of "flags h"] by simp
  have "length (ht_bytes h) = HT_SIZE" using assms by (rule length_ht_bytes)
  then show ?thesis
    unfolding ht_read_from_bytes_def if_P [OF \<open>length (ht_bytes h) = HT_SIZE\<close>] ht_bytes_def
    using l f by (simp add: subslice_append subslice_all le_nat_le_bytes del: le_bytes.simps)
qed

subsection \<open>Identifier and tag fields\<close>

text \<open>
  UUIDs come from the \<^verbatim>\<open>uuid\<close> crate. A UUID is its 16 bytes; the crate's hyphenated text form and
  its parser are the fields of a parameter.
\<close>

type_synonym Uuid = "byte list"

record uuid_crate =
  hyphenated :: "Uuid \<Rightarrow> byte list"
  parse_str :: "byte list \<Rightarrow> Uuid option"

definition uuid_nil :: Uuid where
  "uuid_nil = replicate 16 0"

definition is_nil :: "Uuid \<Rightarrow> bool" where
  "is_nil u \<longleftrightarrow> u = uuid_nil"

text \<open>What the code relies on: the text form has 36 ASCII characters and parses back.\<close>

definition uuid_crate_ok :: "uuid_crate \<Rightarrow> bool" where
  "uuid_crate_ok U \<longleftrightarrow>
     (\<forall>u. length u = 16 \<longrightarrow> length (hyphenated U u) = 36
        \<and> (\<forall>c\<in>set (hyphenated U u). c \<noteq> 0 \<and> unat c < 128)
        \<and> parse_str U (hyphenated U u) = Some u)"

definition is_cont :: "byte \<Rightarrow> bool" where
  "is_cont b \<longleftrightarrow> 0x80 \<le> unat b \<and> unat b \<le> 0xBF"

fun from_utf8_ok :: "byte list \<Rightarrow> bool" where
  "from_utf8_ok [] = True"
| "from_utf8_ok (a # bs) =
     (let x = unat a in
      if x < 0x80 then from_utf8_ok bs
      else case bs of
        [] \<Rightarrow> False
      | b # cs \<Rightarrow>
          if 0xC2 \<le> x \<and> x \<le> 0xDF then is_cont b \<and> from_utf8_ok cs
          else (case cs of
            [] \<Rightarrow> False
          | c # ds \<Rightarrow>
              if 0xE0 \<le> x \<and> x \<le> 0xEF
              then (if x = 0xE0 then 0xA0 \<le> unat b else if x = 0xED then unat b \<le> 0x9F else True)
                   \<and> is_cont b \<and> is_cont c \<and> from_utf8_ok ds
              else (case ds of
                [] \<Rightarrow> False
              | d # es \<Rightarrow>
                  0xF0 \<le> x \<and> x \<le> 0xF4
                  \<and> (if x = 0xF0 then 0x90 \<le> unat b else if x = 0xF4 then unat b \<le> 0x8F else True)
                  \<and> is_cont b \<and> is_cont c \<and> is_cont d \<and> from_utf8_ok es)))"

definition parse_uuid_field :: "uuid_crate \<Rightarrow> byte list \<Rightarrow> Uuid option" where
  "parse_uuid_field U field =
     (let s = takeWhile (\<lambda>b. b \<noteq> 0) field
      in if s = [] then None
         else if \<not> from_utf8_ok s then None
         else parse_str U s)"

definition fill_uuid_field :: "uuid_crate \<Rightarrow> byte list \<Rightarrow> Uuid option \<Rightarrow> byte list" where
  "fill_uuid_field U dst uuid =
     (let z = replicate (length dst) 0
      in case uuid of
           None \<Rightarrow> z
         | Some u \<Rightarrow>
             let bytes = hyphenated U u;
                 n = min (length bytes) (length dst - 1)
             in take n bytes @ drop n z)"

definition fill_user_tag :: "byte list \<Rightarrow> byte list option \<Rightarrow> byte list" where
  "fill_user_tag dst utag =
     (let z = replicate (length dst) 0
      in case utag of
           None \<Rightarrow> z
         | Some t \<Rightarrow> let n = min (length t) (length dst) in take n t @ drop n z)"

definition parse_user_tag_field :: "byte list \<Rightarrow> byte list option" where
  "parse_user_tag_field field =
     (let s = takeWhile (\<lambda>b. b \<noteq> 0) field in if s = [] then None else Some s)"

definition set_uuid :: "uuid_crate \<Rightarrow> HeaderTrailer \<Rightarrow> Uuid \<Rightarrow> HeaderTrailer" where
  "set_uuid U h u = h\<lparr>ht_uuid := (hyphenated U u @ drop 36 (ht_uuid h))[36 := 0]\<rparr>"

lemma from_utf8_ascii: "\<forall>c\<in>set s. unat c < 128 \<Longrightarrow> from_utf8_ok s"
  by (induction s) (simp_all add: Let_def)

lemma takeWhile_nul:
  "\<forall>c\<in>set s. c \<noteq> 0 \<Longrightarrow> takeWhile (\<lambda>b. b \<noteq> (0::byte)) (s @ 0 # rest) = s"
  by (induction s) auto

lemma parse_uuid_text:
  assumes "uuid_crate_ok U" "length u = 16"
  shows "parse_uuid_field U (hyphenated U u @ 0 # rest) = Some u"
proof -
  have h: "length (hyphenated U u) = 36" "\<forall>c\<in>set (hyphenated U u). c \<noteq> 0 \<and> unat c < 128"
    "parse_str U (hyphenated U u) = Some u"
    using assms by (auto simp: uuid_crate_ok_def)
  have "hyphenated U u \<noteq> []" using h(1) by auto
  then show ?thesis
    using h takeWhile_nul [of "hyphenated U u" rest] from_utf8_ascii [of "hyphenated U u"]
    by (simp add: parse_uuid_field_def Let_def)
qed

lemma parse_fill_uuid:
  assumes "uuid_crate_ok U" "length u = 16" "length dst = 37"
  shows "parse_uuid_field U (fill_uuid_field U dst (Some u)) = Some u"
proof -
  have "length (hyphenated U u) = 36" using assms by (auto simp: uuid_crate_ok_def)
  then have "fill_uuid_field U dst (Some u) = hyphenated U u @ 0 # []"
    using assms(3) by (simp add: fill_uuid_field_def Let_def)
  then show ?thesis using parse_uuid_text [OF assms(1,2)] by simp
qed

lemma parse_set_uuid:
  assumes "uuid_crate_ok U" "length u = 16" "length (ht_uuid h) = 37"
  shows "parse_uuid_field U (ht_uuid (set_uuid U h u)) = Some u" "length (ht_uuid (set_uuid U h u)) = 37"
proof -
  have l: "length (hyphenated U u) = 36" using assms by (auto simp: uuid_crate_ok_def)
  obtain x where "drop 36 (ht_uuid h) = [x]"
    using assms(3) by (cases "drop 36 (ht_uuid h)") (auto dest: arg_cong [where f = length])
  then have "ht_uuid (set_uuid U h u) = hyphenated U u @ 0 # []"
    using l by (simp add: set_uuid_def list_update_append)
  then show "parse_uuid_field U (ht_uuid (set_uuid U h u)) = Some u" "length (ht_uuid (set_uuid U h u)) = 37"
    using parse_uuid_text [OF assms(1,2)] l by simp_all
qed

lemma parse_user_tag_fill:
  assumes "t \<noteq> []" "\<forall>c\<in>set t. c \<noteq> 0" "length t \<le> length dst"
  shows "parse_user_tag_field (fill_user_tag dst (Some t)) = Some t"
proof -
  have n: "min (length t) (length dst) = length t" using assms(3) by simp
  have tw: "takeWhile (\<lambda>b. b \<noteq> 0) t = t" using assms(2) by simp
  have "takeWhile (\<lambda>b. b \<noteq> 0) (t @ replicate k (0::byte)) = t" for k
    using assms(2) takeWhile_nul [of t] tw by (cases k) auto
  then show ?thesis
    using assms(1) n by (simp add: parse_user_tag_field_def fill_user_tag_def Let_def)
qed

subsection \<open>Layer layouts and the header of a writable layer\<close>

datatype LSMTFileType = ReadOnly | ReadWrite | SparseReadWrite | HybridReadWrite

datatype RwLayout = LogStructured | Sparse | HybridLogStructured

fun RwLayout_file_type :: "RwLayout \<Rightarrow> LSMTFileType" where
  "RwLayout_file_type LogStructured = ReadWrite"
| "RwLayout_file_type Sparse = SparseReadWrite"
| "RwLayout_file_type HybridLogStructured = HybridReadWrite"

definition rw_header :: "uuid_crate \<Rightarrow> nat \<Rightarrow> RwLayout \<Rightarrow> Uuid \<Rightarrow> Uuid option \<Rightarrow> byte list option
    \<Rightarrow> HeaderTrailer" where
  "rw_header U virt_size rw_layout uuid parent utag =
     (let h0 = HeaderTrailer_new\<lparr>ht_size := HT_SIZE, ht_virtual_size := virt_size\<rparr>;
          h1 = set_data_file (set_header h0);
          h2 = (case rw_layout of LogStructured \<Rightarrow> h1 | Sparse \<Rightarrow> set_sparse_rw h1
                | HybridLogStructured \<Rightarrow> set_hybrid_rw h1);
          h3 = set_uuid U h2 uuid
      in h3\<lparr>ht_parent_uuid := fill_uuid_field U (ht_parent_uuid h3) parent,
            user_tag := fill_user_tag (user_tag h3) utag\<rparr>)"

definition HEADER_SIZE :: nat where "HEADER_SIZE = 4096"

definition copy_header_block :: "byte list \<Rightarrow> HeaderTrailer \<Rightarrow> byte list" where
  "copy_header_block dst h = ht_bytes h @ drop HT_SIZE (replicate (length dst) 0)"

lemma rw_header_ok:
  assumes "uuid_crate_ok U" "length u = 16" "vs < 2 ^ 64" "\<forall>p. parent = Some p \<longrightarrow> length p = 16"
  shows "header_ok (rw_header U vs lay u parent t)"
proof -
  have l: "length (hyphenated U v) = 36" if "length v = 16" for v
    using assms(1) that by (auto simp: uuid_crate_ok_def)
  show ?thesis
    using assms(2-4) l
    by (cases lay; cases parent; cases t)
      (simp_all add: header_ok_def rw_header_def Let_def HeaderTrailer_new_def HeaderTrailer_default_def
        header_setters set_uuid_def fill_uuid_field_def fill_user_tag_def MAGIC0_def MAGIC1_def HT_SIZE_def)
qed

lemma rw_header_flags:
  "flags (rw_header U vs lay u parent t) =
     (case lay of LogStructured \<Rightarrow> 3 | Sparse \<Rightarrow> 19 | HybridLogStructured \<Rightarrow> 35)"
  by (cases lay)
    (simp_all add: rw_header_def Let_def HeaderTrailer_new_def HeaderTrailer_default_def header_setters
      set_uuid_def)

lemma rw_header_magic: "verify_magic (rw_header U vs lay u parent t)"
  by (cases lay)
    (simp_all add: verify_magic_def rw_header_def Let_def HeaderTrailer_new_def HeaderTrailer_default_def
      header_setters set_uuid_def)

lemma rw_header_virtual_size: "ht_virtual_size (rw_header U vs lay u parent t) = vs"
  by (cases lay) (simp_all add: rw_header_def Let_def HeaderTrailer_new_def header_setters set_uuid_def)

lemma rw_header_kind:
  "is_header (rw_header U vs lay u parent t)" "is_data_file (rw_header U vs lay u parent t)"
  "\<not> is_sealed (rw_header U vs lay u parent t)"
  "is_sparse_rw (rw_header U vs lay u parent t) \<longleftrightarrow> lay = Sparse"
  "is_hybrid_rw (rw_header U vs lay u parent t) \<longleftrightarrow> lay = HybridLogStructured"
  by (cases lay; simp add: header_queries rw_header_flags bit_numeral_rec)+

lemma rw_header_uuid:
  assumes "uuid_crate_ok U" "length u = 16"
  shows "parse_uuid_field U (ht_uuid (rw_header U vs lay u parent t)) = Some u"
proof -
  have "ht_uuid (rw_header U vs lay u parent t) = ht_uuid (set_uuid U HeaderTrailer_new u)"
    by (cases lay) (simp_all add: rw_header_def Let_def HeaderTrailer_new_def HeaderTrailer_default_def
      header_setters set_uuid_def)
  then show ?thesis
    using parse_set_uuid(1) [OF assms, of HeaderTrailer_new]
    by (simp add: HeaderTrailer_new_def HeaderTrailer_default_def)
qed

subsection \<open>The text form of UUIDs\<close>

text \<open>
  A concrete crate for the witnesses: lower-case hexadecimal in groups of 8, 4, 4, 4 and 12 digits.
\<close>

definition uuid_digit :: "nat \<Rightarrow> byte" where
  "uuid_digit n = of_nat (if n < 10 then 48 + n else 87 + n)"

definition uuid_undigit :: "byte \<Rightarrow> nat" where
  "uuid_undigit c = (if unat c < 97 then unat c - 48 else unat c - 87)"

definition uuid_pair :: "byte \<Rightarrow> byte list" where
  "uuid_pair b = [uuid_digit (unat b div 16), uuid_digit (unat b mod 16)]"

fun uuid_unpair :: "byte list \<Rightarrow> byte list" where
  "uuid_unpair (a # b # cs) = of_nat (uuid_undigit a * 16 + uuid_undigit b) # uuid_unpair cs"
| "uuid_unpair cs = []"

definition uuid_hex :: uuid_crate where
  "uuid_hex =
     \<lparr>hyphenated = (\<lambda>u. let h = (\<lambda>i n. concat (map uuid_pair (subslice i n u)))
        in h 0 4 @ [0x2d] @ h 4 2 @ [0x2d] @ h 6 2 @ [0x2d] @ h 8 2 @ [0x2d] @ h 10 6),
      parse_str = (\<lambda>s. if length s = 36 then Some (uuid_unpair (filter (\<lambda>c. c \<noteq> 0x2d) s)) else None)\<rparr>"

lemma unat_uuid_digit: "n < 16 \<Longrightarrow> unat (uuid_digit n) = (if n < 10 then 48 + n else 87 + n)"
  by (simp add: uuid_digit_def unat_of_nat)

lemma uuid_undigit_digit: "n < 16 \<Longrightarrow> uuid_undigit (uuid_digit n) = n"
  by (simp add: uuid_undigit_def unat_uuid_digit)

lemma uuid_digit_char:
  assumes "n < 16"
  shows "uuid_digit n \<noteq> 0" "uuid_digit n \<noteq> 0x2d" "unat (uuid_digit n) < 128"
proof -
  have "unat (uuid_digit n) \<noteq> unat (0 :: byte)" "unat (uuid_digit n) \<noteq> unat (0x2d :: byte)"
    using assms by (simp_all add: unat_uuid_digit)
  then show "uuid_digit n \<noteq> 0" "uuid_digit n \<noteq> 0x2d" by metis+
  show "unat (uuid_digit n) < 128" using assms by (simp add: unat_uuid_digit)
qed

lemma byte_nibbles: "unat (b :: byte) div 16 < 16" "unat b mod 16 < 16"
  using unsigned_less [of b] by (simp_all add: div_less_iff_less_mult)

lemma uuid_pair_chars: "c \<in> set (uuid_pair b) \<Longrightarrow> c \<noteq> 0 \<and> c \<noteq> 0x2d \<and> unat c < 128"
  using uuid_digit_char byte_nibbles by (auto simp: uuid_pair_def)

lemma filter_uuid_pairs: "filter (\<lambda>c. c \<noteq> 0x2d) (concat (map uuid_pair bs)) = concat (map uuid_pair bs)"
  by (rule filter_True) (use uuid_pair_chars in auto)

lemma uuid_unpair_pairs: "uuid_unpair (concat (map uuid_pair bs)) = bs"
proof (induction bs)
  case (Cons b bs)
  have "unat b div 16 * 16 + unat b mod 16 = unat b" by simp
  then show ?case using Cons by (simp add: uuid_pair_def uuid_undigit_digit byte_nibbles)
qed simp

lemma length_uuid_pairs: "length (concat (map uuid_pair bs)) = 2 * length bs"
  by (induction bs) (simp_all add: uuid_pair_def)

lemma uuid_hex_ok: "uuid_crate_ok uuid_hex"
proof -
  have "length (hyphenated uuid_hex u) = 36
      \<and> (\<forall>c\<in>set (hyphenated uuid_hex u). c \<noteq> 0 \<and> unat c < 128)
      \<and> parse_str uuid_hex (hyphenated uuid_hex u) = Some u" if u: "length u = 16" for u
  proof -
    have len: "length (hyphenated uuid_hex u) = 36"
      using u by (simp add: uuid_hex_def Let_def length_uuid_pairs subslice_def del: length_concat)
    have chars: "\<forall>c\<in>set (hyphenated uuid_hex u). c \<noteq> 0 \<and> unat c < 128"
      using uuid_pair_chars by (auto simp: uuid_hex_def Let_def)
    have "filter (\<lambda>c. c \<noteq> 0x2d) (hyphenated uuid_hex u)
        = concat (map uuid_pair (subslice 0 4 u @ subslice 4 2 u @ subslice 6 2 u @ subslice 8 2 u @ subslice 10 6 u))"
      by (simp add: uuid_hex_def Let_def filter_uuid_pairs)
    moreover have "subslice 0 4 u @ subslice 4 2 u @ subslice 6 2 u @ subslice 8 2 u @ subslice 10 6 u = u"
    proof -
      have split: "subslice i n u @ drop (i + n) u = drop i u" for i n
        by (metis append_take_drop_id drop_drop add.commute subslice_def)
      have "subslice 10 6 u = drop 10 u" using u by (simp add: subslice_def)
      then show ?thesis using split [of 0 4] split [of 4 2] split [of 6 2] split [of 8 2] by simp
    qed
    ultimately have "uuid_unpair (filter (\<lambda>c. c \<noteq> 0x2d) (hyphenated uuid_hex u)) = u"
      using uuid_unpair_pairs [of u] by presburger
    then show ?thesis using len chars by (simp add: uuid_hex_def)
  qed
  then show ?thesis by (simp add: uuid_crate_ok_def)
qed

subsection \<open>Properties\<close>

text \<open>
  C28. A mapping whose fields fit the packed on-disk widths (50-bit offset, 14-bit length, 55-bit
  physical offset, 8-bit tag) survives encoding to 16 bytes and decoding, and every 16-byte record
  decodes to a mapping that fits.
\<close>

theorem DiskSegmentMapping_roundtrip:
  assumes "disk_fits m"
  shows "length (disk_bytes (from_memory m)) = 16
    \<and> map_option to_memory (disk_read_from_bytes (disk_bytes (from_memory m))) = Some m
    \<and> (\<forall>d. disk_fits (to_memory d))"
  using assms by (simp add: disk_read_disk_bytes to_memory_from_memory disk_fits_def [of m] to_memory_fits)

theorem DiskSegmentMapping_roundtrip_witness:
  "map_option to_memory (disk_read_from_bytes (disk_bytes (from_memory (SegmentMapping_new 7 16383 4096 False 3))))
     = Some (SegmentMapping_new 7 16383 4096 False 3)"
proof -
  have "disk_fits (SegmentMapping_new 7 16383 4096 False 3)"
    by (simp add: disk_fits_def SegmentMapping_new_def Segment_new_def)
  from DiskSegmentMapping_roundtrip [OF this] show ?thesis by simp
qed

text \<open>
  C31. The packed record truncates: whatever the mapping, decoding its encoding yields the fields
  modulo the widths of the record, so a mapping of 2^14 blocks (8 MiB) is read back with length 0.
\<close>

theorem DiskSegmentMapping_truncates:
  "to_memory (from_memory m) =
     SegmentMapping_new (m_offset m mod 2 ^ 50) (m_length m mod 2 ^ 14) (moffset m mod 2 ^ 55)
       (zeroed m) (tag m mod 2 ^ 8)
   \<and> m_length (to_memory (from_memory (SegmentMapping_new off (2 ^ 14) p z t))) = 0"
  by (simp add: to_memory_from_memory_gen SegmentMapping_new_def Segment_new_def)

text \<open>
  C29. The header written for a writable layer is read back from the first 390 bytes of its header block
  with the same magic, layout flags, virtual size and UUID, as an unsealed data-file header.
\<close>

theorem rw_header_roundtrip:
  assumes "uuid_crate_ok U" "length u = 16" "vs < 2 ^ 64" "\<forall>p. parent = Some p \<longrightarrow> length p = 16"
  shows "\<exists>h. ht_read_from_bytes (take HT_SIZE (copy_header_block (replicate HEADER_SIZE 0)
            (rw_header U vs lay u parent t))) = Some h
    \<and> verify_magic h \<and> is_header h \<and> is_data_file h \<and> \<not> is_sealed h
    \<and> (is_sparse_rw h \<longleftrightarrow> lay = Sparse) \<and> (is_hybrid_rw h \<longleftrightarrow> lay = HybridLogStructured)
    \<and> ht_virtual_size h = vs \<and> parse_uuid_field U (ht_uuid h) = Some u"
proof -
  let ?h = "rw_header U vs lay u parent t"
  have ok: "header_ok ?h" using assms by (rule rw_header_ok)
  have "take HT_SIZE (copy_header_block (replicate HEADER_SIZE 0) ?h) = ht_bytes ?h"
    using length_ht_bytes [OF ok] by (simp add: copy_header_block_def)
  then show ?thesis
    using ht_roundtrip [OF ok] rw_header_magic rw_header_kind rw_header_virtual_size rw_header_uuid [OF assms(1,2)]
    by simp
qed

theorem rw_header_roundtrip_witness:
  "\<exists>h. ht_read_from_bytes (take HT_SIZE (copy_header_block (replicate HEADER_SIZE 0)
      (rw_header uuid_hex 1073741824 HybridLogStructured (replicate 16 7) None (Some [65])))) = Some h
    \<and> is_hybrid_rw h \<and> ht_virtual_size h = 1073741824"
proof -
  have h: "length (replicate 16 (7 :: byte)) = 16" "(1073741824 :: nat) < 2 ^ 64"
    "\<forall>p. (None :: Uuid option) = Some p \<longrightarrow> length p = 16" by simp_all
  show ?thesis using rw_header_roundtrip [OF uuid_hex_ok h, of HybridLogStructured "Some [65]"] by blast
qed

end
