(* ===== verification/Virtual_File.thy ===== *)
theory Virtual_File
  imports Lsmt_Format
begin

text \<open>
  Files: the local file of
  \<^verbatim>\<open>storage/overlaybd/src/backend/local.rs\<close> with the hole punching of \<^verbatim>\<open>sys/release_space.rs\<close>,
  the exact read of \<^verbatim>\<open>io/vfile_io.rs\<close> and the writer of \<^verbatim>\<open>io/virtual_file.rs\<close>.

  The host file system is the part the sources only call: a file is its length, its bytes, the set of
  allocated file-system blocks that \<^verbatim>\<open>SEEK_DATA\<close> reports, and a bound on its size, so that a write
  can run out of space after storing a prefix. The lemmas show that direct and buffered reads agree, that
  an exact read inside the file returns its bytes, and what a write stores on success and on failure.
\<close>

subsection \<open>Local files\<close>

text \<open>
  A file of the host: its length, its bytes, which file-system blocks are allocated, the size of such
  a block, the largest size the host can give it, and whether it was opened for direct I/O.
\<close>

record VFile =
  vf_size :: nat
  vf_byte :: "nat \<Rightarrow> byte"
  vf_alloc :: "nat \<Rightarrow> bool"
  vf_granule :: nat
  vf_limit :: nat
  vf_direct :: bool

definition vf_ok :: "VFile \<Rightarrow> bool" where
  "vf_ok f \<longleftrightarrow> vf_size f \<le> vf_limit f \<and> vf_limit f < 2 ^ 63 \<and> 0 < vf_granule f
     \<and> (\<forall>i\<ge>vf_size f. vf_byte f i = 0)"

definition vf_bytes :: "VFile \<Rightarrow> nat \<Rightarrow> nat \<Rightarrow> byte list" where
  "vf_bytes f off n = map (vf_byte f) [off..<off + n]"

definition DIRECT_IO_ALIGNMENT :: nat where "DIRECT_IO_ALIGNMENT = 512"

text \<open>The bytes that fit are written and the rest is reported.\<close>

definition pwrite :: "nat \<Rightarrow> byte list \<Rightarrow> VFile \<Rightarrow> VFile" where
  "pwrite off buf f =
     (if buf = [] then f
      else f\<lparr>vf_size := max (vf_size f) (off + length buf),
             vf_byte := (\<lambda>i. if off \<le> i \<and> i < off + length buf then buf ! (i - off) else vf_byte f i),
             vf_alloc := (\<lambda>k. (off div vf_granule f \<le> k \<and> k \<le> (off + length buf - 1) div vf_granule f)
                              \<or> vf_alloc f k)\<rparr>)"

definition write_all_at :: "nat \<Rightarrow> byte list \<Rightarrow> VFile \<Rightarrow> (unit, VFile) outcome" where
  "write_all_at off buf f =
     (let n = min (length buf) (vf_limit f - off)
      in (if n = length buf then Inr () else Inl NoSpace, pwrite off (take n buf) f))"

definition vf_write_at :: "nat \<Rightarrow> byte list \<Rightarrow> VFile \<Rightarrow> (nat, VFile) outcome" where
  "vf_write_at off buf f =
     (if buf = [] then (Inr 0, f)
      else if vf_direct f \<and> \<not> off mod DIRECT_IO_ALIGNMENT = 0 then (Inl (Err ''unaligned direct I/O''), f)
      else if vf_direct f \<and> \<not> length buf mod DIRECT_IO_ALIGNMENT = 0 then (Inl (Err ''unaligned direct I/O''), f)
      else bindR (write_all_at off buf f) (\<lambda>_ f. (Inr (length buf), f)))"

text \<open>Reads fill a prefix of the destination; an offset beyond the range of \<^verbatim>\<open>off_t\<close> is refused.\<close>

definition read_into_at :: "VFile \<Rightarrow> nat \<Rightarrow> byte list \<Rightarrow> (nat, byte list) outcome" where
  "read_into_at f off buf =
     (if buf = [] then (Inr 0, buf)
      else if 2 ^ 63 \<le> off then (Inl (Err ''EINVAL''), buf)
      else let n = min (length buf) (vf_size f - off)
           in (Inr n, vf_bytes f off n @ drop n buf))"

definition align_down :: "nat \<Rightarrow> nat \<Rightarrow> nat" where
  "align_down v a = unat ((of_nat v :: 64 word) AND NOT (of_nat (u64_sub a 1)))"

definition align_up :: "nat \<Rightarrow> nat \<Rightarrow> nat" where
  "align_up v a = unat ((of_nat (saturating_add_u64 v (u64_sub a 1)) :: 64 word) AND NOT (of_nat (u64_sub a 1)))"

definition read_buffered_at :: "VFile \<Rightarrow> nat \<Rightarrow> nat \<Rightarrow> error + byte list" where
  "read_buffered_at f off len =
     (case read_into_at f off (replicate len 0) of
        (Inl e, _) \<Rightarrow> Inl e
      | (Inr n, buf) \<Rightarrow> Inr (take n buf))"

definition read_direct_at :: "VFile \<Rightarrow> nat \<Rightarrow> nat \<Rightarrow> error + byte list" where
  "read_direct_at f off len =
     (let size = vf_size f
      in if off \<ge> size then Inr []
         else
           let expected = min (size - off) len;
               aligned_offset = align_down off DIRECT_IO_ALIGNMENT;
               head = u64_sub off aligned_offset;
               aligned_end = align_up (u64_add off expected) DIRECT_IO_ALIGNMENT;
               aligned_len = aligned_end - aligned_offset
           in case read_into_at f aligned_offset (replicate aligned_len 0) of
                (Inl e, _) \<Rightarrow> Inl e
              | (Inr got, buffer) \<Rightarrow>
                  if got \<le> head then Inr []
                  else let tail = min (head + expected) got
                       in Inr (subslice head (tail - head) buffer))"

definition vf_read_at :: "VFile \<Rightarrow> nat \<Rightarrow> nat \<Rightarrow> error + byte list" where
  "vf_read_at f off len =
     (if len = 0 then Inr []
      else if vf_direct f then read_direct_at f off len
      else read_buffered_at f off len)"

definition vf_read_at_into :: "VFile \<Rightarrow> nat \<Rightarrow> byte list \<Rightarrow> (nat, byte list) outcome" where
  "vf_read_at_into f off dst =
     (if dst = [] then (Inr 0, dst)
      else if vf_direct f
      then (case read_direct_at f off (length dst) of
              Inl e \<Rightarrow> (Inl e, dst)
            | Inr data \<Rightarrow> (Inr (length data), data @ drop (length data) dst))
      else read_into_at f off dst)"

definition vf_truncate :: "nat \<Rightarrow> VFile \<Rightarrow> (unit, VFile) outcome" where
  "vf_truncate new_size f =
     (if vf_limit f < new_size then (Inl NoSpace, f)
      else (Inr (), f\<lparr>vf_size := new_size,
                      vf_byte := (\<lambda>i. if i < new_size then vf_byte f i else 0),
                      vf_alloc := (\<lambda>k. vf_alloc f k \<and> k * vf_granule f < new_size)\<rparr>))"

definition vf_seek_data :: "VFile \<Rightarrow> nat \<Rightarrow> error + nat option" where
  "vf_seek_data f off =
     (if 2 ^ 63 \<le> off then Inl (Err ''offset overflow'')
      else Inr (find (\<lambda>i. vf_alloc f (i div vf_granule f)) [off..<vf_size f]))"

definition vf_seek_hole :: "VFile \<Rightarrow> nat \<Rightarrow> error + nat option" where
  "vf_seek_hole f off =
     (if 2 ^ 63 \<le> off then Inl (Err ''offset overflow'')
      else if vf_size f \<le> off then Inr None
      else Inr (case find (\<lambda>i. \<not> vf_alloc f (i div vf_granule f)) [off..<vf_size f] of
                  None \<Rightarrow> Some (vf_size f) | Some i \<Rightarrow> Some i))"

definition release_space_hint :: "nat \<Rightarrow> nat \<Rightarrow> VFile \<Rightarrow> (unit, VFile) outcome" where
  "release_space_hint off len f =
     (if len = 0 then (Inr (), f)
      else if checked_add_u64 off len = None then (Inl (Err ''offset overflow''), f)
      else if 2 ^ 63 \<le> off \<or> 2 ^ 63 \<le> len then (Inl (Err ''offset overflow''), f)
      else (Inr (), f\<lparr>vf_byte := (\<lambda>i. if off \<le> i \<and> i < off + len then 0 else vf_byte f i),
                      vf_alloc := (\<lambda>k. vf_alloc f k
                         \<and> \<not> (off \<le> k * vf_granule f \<and> (k + 1) * vf_granule f \<le> off + len))\<rparr>))"

definition vf_discard :: "nat \<Rightarrow> nat \<Rightarrow> VFile \<Rightarrow> (unit, VFile) outcome" where
  "vf_discard off len f = (if len = 0 then (Inr (), f) else release_space_hint off len f)"

text \<open>
  The loop of \<^verbatim>\<open>read_exact\<close> ends: each round that goes on has read something. The bound on the
  number of rounds is the number of bytes wanted.
\<close>

fun read_exact_loop :: "nat \<Rightarrow> VFile \<Rightarrow> nat \<Rightarrow> byte list \<Rightarrow> (unit, byte list) outcome" where
  "read_exact_loop 0 f off dst = (if dst = [] then (Inr (), dst) else (Inl Diverges, dst))"
| "read_exact_loop (Suc fuel) f off dst =
     (if dst = [] then (Inr (), dst)
      else case vf_read_at_into f off dst of
             (Inl e, dst) \<Rightarrow> (Inl e, dst)
           | (Inr n, dst) \<Rightarrow>
               if n = 0 then (Inl (Err ''unexpected EOF''), dst)
               else (case checked_add_u64 off n of
                       None \<Rightarrow> (Inl (Err ''offset overflow''), dst)
                     | Some off' \<Rightarrow>
                         (case read_exact_loop fuel f off' (drop n dst) of
                            (r, rest) \<Rightarrow> (r, take n dst @ rest))))"

definition read_exact :: "VFile \<Rightarrow> nat \<Rightarrow> byte list \<Rightarrow> (unit, byte list) outcome" where
  "read_exact f off dst = read_exact_loop (length dst) f off dst"

definition writer_write_all_at :: "byte list \<Rightarrow> nat \<Rightarrow> VFile \<Rightarrow> (unit, VFile) outcome" where
  "writer_write_all_at data off f =
     bindR (vf_write_at off data f)
       (\<lambda>written f. if written \<noteq> length data then (Inl (Err ''short write''), f) else (Inr (), f))"

definition writer_write :: "byte list \<Rightarrow> nat \<Rightarrow> nat \<Rightarrow> VFile \<Rightarrow> (unit, VFile) outcome" where
  "writer_write buf off len f =
     (if len > length buf then (Inl (Err ''write len exceeds buffer range''), f)
      else bindR (vf_write_at off (take len buf) f)
             (\<lambda>written f. if written \<noteq> len then (Inl (Err ''short write''), f) else (Inr (), f)))"

subsection \<open>Facts\<close>

lemma length_vf_bytes [simp]: "length (vf_bytes f off n) = n"
  by (simp add: vf_bytes_def)

lemma nth_vf_bytes [simp]: "i < n \<Longrightarrow> vf_bytes f off n ! i = vf_byte f (off + i)"
  by (simp add: vf_bytes_def)

lemma vf_bytes_add: "vf_bytes f off (m + n) = vf_bytes f off m @ vf_bytes f (off + m) n"
  using upt_add_eq_append [of off "off + m" n] by (simp add: vf_bytes_def add.assoc)

lemma align_down_512:
  assumes "v < 2 ^ 64"
  shows "align_down v 512 = v - v mod 512"
proof -
  define w where "w = (of_nat v :: 64 word)"
  have uw: "unat w = v" using assms by (simp add: w_def unat_of_nat)
  have ut: "unat (take_bit 9 w) = v mod 512"
    unfolding w_def using unat_take_bit_of_nat [of 9 v] by simp
  have "w AND NOT (mask 9) = push_bit 9 (drop_bit 9 w)"
    by (rule bit_word_eqI) (auto simp: bit_simps)
  also have "\<dots> = w - take_bit 9 w"
    using bits_ident [of 9 w] by (metis add_diff_cancel_right')
  finally have "unat (w AND NOT (mask 9)) = unat w - unat (take_bit 9 w)"
    using unat_sub [of "take_bit 9 w" w] by (simp only: word_le_nat_alt uw ut mod_less_eq_dividend)
  moreover have "of_nat (u64_sub 512 1) = (mask 9 :: 64 word)"
    by (simp add: u64_sub_def mask_eq_exp_minus_1)
  ultimately show ?thesis unfolding align_down_def by (simp only: uw ut flip: w_def)
qed

lemma align_up_512:
  assumes "v + 511 < 2 ^ 64"
  shows "align_up v 512 = (v + 511) - (v + 511) mod 512"
proof -
  have s: "u64_sub 512 1 = 511" by (simp add: u64_sub_def)
  have "saturating_add_u64 v 511 = v + 511" using assms by (simp add: saturating_add_u64_def)
  then have "align_up v 512 = align_down (v + 511) 512" unfolding align_up_def align_down_def s by simp
  then show ?thesis using align_down_512 [OF assms] by simp
qed

lemma read_into_at_ok:
  "off < 2 ^ 63 \<Longrightarrow> read_into_at f off buf =
     (Inr (min (length buf) (vf_size f - off)),
      vf_bytes f off (min (length buf) (vf_size f - off)) @ drop (min (length buf) (vf_size f - off)) buf)"
  by (auto simp: read_into_at_def Let_def vf_bytes_def)

text \<open>Direct and buffered reads of a file give the same bytes.\<close>

lemma read_direct_at_eq:
  assumes "vf_ok f" "off < 2 ^ 63"
  shows "read_direct_at f off len = Inr (vf_bytes f off (min len (vf_size f - off)))"
proof (cases "vf_size f \<le> off")
  case True
  then show ?thesis by (simp add: read_direct_at_def vf_bytes_def)
next
  case False
  define s where "s = vf_size f"
  define e where "e = min (s - off) len"
  define a where "a = off - off mod 512"
  define b where "b = (off + e + 511) - (off + e + 511) mod 512"
  have lim: "s < 2 ^ 63" "off < s" using assms False by (auto simp: vf_ok_def s_def)
  have ad: "align_down off DIRECT_IO_ALIGNMENT = a"
    using align_down_512 [of off] assms by (simp add: DIRECT_IO_ALIGNMENT_def a_def)
  have sum: "u64_add off e = off + e" using lim by (simp add: e_def nowrap)
  have au: "align_up (u64_add off e) DIRECT_IO_ALIGNMENT = b"
  proof -
    have "off + e + 511 < 2 ^ 64" using lim by (simp add: e_def)
    then show ?thesis unfolding sum DIRECT_IO_ALIGNMENT_def b_def by (rule align_up_512)
  qed
  have a: "a \<le> off" "off - a < 512" "a < 2 ^ 63" using assms by (auto simp: a_def)
  have "(off + e + 511) mod 512 < 512" by simp
  then have b: "off + e \<le> b" unfolding b_def by linarith
  define g where "g = min (b - a) (s - a)"
  have g: "e = 0" if "g \<le> off - a"
    using that a(1) b lim(2) unfolding g_def min_def by (auto split: if_splits)
  have "e \<le> s - off" by (simp add: e_def)
  then have "off - a + e \<le> b - a" "off - a + e \<le> s - a" using a b lim by linarith+
  then have tail: "min (off - a + e) g = off - a + e" by (simp add: g_def)
  have sub: "subslice (off - a) e (vf_bytes f a g @ drop g (replicate (b - a) 0)) = vf_bytes f off e"
    if "off - a + e \<le> g"
  proof -
    have "vf_bytes f a g = vf_bytes f a (off - a) @ vf_bytes f off (g - (off - a))"
      using vf_bytes_add [of f a "off - a" "g - (off - a)"] that a by simp
    moreover have "vf_bytes f off (g - (off - a)) = vf_bytes f off e @ vf_bytes f (off + e) (g - (off - a) - e)"
      using vf_bytes_add [of f off e "g - (off - a) - e"] that by simp
    ultimately show ?thesis by (simp add: subslice_def)
  qed
  have e': "min (vf_size f - off) len = e" "min len (vf_size f - off) = e" by (simp_all add: e_def s_def)
  have r: "read_into_at f a (replicate (b - a) 0) = (Inr g, vf_bytes f a g @ drop g (replicate (b - a) 0))"
    using a(3) by (simp add: read_into_at_ok g_def s_def)
  have u: "u64_sub off a = off - a" using a(1) by (simp add: nowrap)
  show ?thesis
  proof (cases "g \<le> off - a")
    case True
    then have "read_direct_at f off len = Inr []" using False
      by (simp add: read_direct_at_def Let_def e' ad au r u del: drop_replicate)
    moreover have "e = 0" using True by (rule g)
    ultimately show ?thesis by (simp add: e' vf_bytes_def)
  next
    case gt: False
    then show ?thesis using False tail sub
      by (simp add: read_direct_at_def Let_def e' ad au r u del: drop_replicate)
  qed
qed

lemma vf_read_at_into_eq:
  assumes "vf_ok f" "off < 2 ^ 63"
  shows "vf_read_at_into f off dst =
     (Inr (min (length dst) (vf_size f - off)),
      vf_bytes f off (min (length dst) (vf_size f - off)) @ drop (min (length dst) (vf_size f - off)) dst)"
  using read_direct_at_eq [OF assms, of "length dst"] read_into_at_ok [OF assms(2), of f dst]
  by (auto simp: vf_read_at_into_def vf_bytes_def)

lemma vf_read_at_eq:
  assumes "vf_ok f" "off < 2 ^ 63"
  shows "vf_read_at f off len = Inr (vf_bytes f off (min len (vf_size f - off)))"
  using read_direct_at_eq [OF assms, of len] read_into_at_ok [OF assms(2), of f "replicate len 0"]
  by (auto simp: vf_read_at_def read_buffered_at_def vf_bytes_def)

lemma read_exact_ok:
  assumes "vf_ok f" "off + length dst \<le> vf_size f"
  shows "read_exact f off dst = (Inr (), vf_bytes f off (length dst))"
proof (cases "dst = []")
  case True
  then show ?thesis by (simp add: read_exact_def vf_bytes_def)
next
  case False
  then obtain k where k: "length dst = Suc k" by (cases dst) auto
  have lim: "off + length dst < 2 ^ 63" using assms by (auto simp: vf_ok_def)
  have "vf_read_at_into f off dst = (Inr (length dst), vf_bytes f off (length dst))"
    using vf_read_at_into_eq [OF assms(1), of off dst] lim assms(2) by simp
  moreover have "read_exact_loop k f x [] = (Inr (), [])" for x by (cases k) auto
  ultimately show ?thesis
    using False k lim by (simp add: read_exact_def checked_add_u64_def)
qed

lemma pwrite_simps [simp]:
  "vf_limit (pwrite off buf f) = vf_limit f" "vf_granule (pwrite off buf f) = vf_granule f"
  "vf_direct (pwrite off buf f) = vf_direct f"
  by (simp_all add: pwrite_def)

lemma pwrite_size: "vf_size (pwrite off buf f) = (if buf = [] then vf_size f else max (vf_size f) (off + length buf))"
  by (simp add: pwrite_def)

lemma pwrite_byte:
  "vf_byte (pwrite off buf f) i = (if off \<le> i \<and> i < off + length buf then buf ! (i - off) else vf_byte f i)"
  by (auto simp: pwrite_def)

lemma pwrite_ok:
  assumes "vf_ok f" "off + length buf \<le> vf_limit f"
  shows "vf_ok (pwrite off buf f)"
  using assms by (auto simp: vf_ok_def pwrite_size pwrite_byte)

text \<open>A write either stores the whole buffer or reports an error with a prefix stored.\<close>

lemma write_all_at_cases:
  "off + length buf \<le> vf_limit f \<Longrightarrow> write_all_at off buf f = (Inr (), pwrite off buf f)"
  "\<not> off + length buf \<le> vf_limit f \<Longrightarrow> buf \<noteq> [] \<Longrightarrow>
     write_all_at off buf f = (Inl NoSpace, pwrite off (take (vf_limit f - off) buf) f)"
proof -
  show "write_all_at off buf f = (Inr (), pwrite off buf f)" if "off + length buf \<le> vf_limit f"
  proof -
    have "length buf \<le> vf_limit f - off" using that by linarith
    then show ?thesis by (simp add: write_all_at_def Let_def min_absorb1)
  qed
  assume "\<not> off + length buf \<le> vf_limit f" "buf \<noteq> []"
  then have "vf_limit f - off < length buf" by (cases buf) auto
  then have "min (length buf) (vf_limit f - off) = vf_limit f - off" "vf_limit f - off \<noteq> length buf" by simp_all
  then show "write_all_at off buf f = (Inl NoSpace, pwrite off (take (vf_limit f - off) buf) f)"
    unfolding write_all_at_def Let_def by simp
qed

lemma vf_write_at_Inr:
  assumes "vf_write_at off buf f = (Inr n, f')"
  shows "f' = pwrite off buf f" "n = length buf" "buf \<noteq> [] \<Longrightarrow> off + length buf \<le> vf_limit f"
proof -
  have "f' = pwrite off buf f \<and> n = length buf \<and> (buf \<noteq> [] \<longrightarrow> off + length buf \<le> vf_limit f)"
  proof (cases "buf = []")
    case True
    then show ?thesis using assms by (simp add: vf_write_at_def pwrite_def)
  next
    case False
    then show ?thesis using assms
      by (cases "off + length buf \<le> vf_limit f")
        (simp_all add: vf_write_at_def write_all_at_cases split: if_splits)
  qed
  then show "f' = pwrite off buf f" "n = length buf" "buf \<noteq> [] \<Longrightarrow> off + length buf \<le> vf_limit f"
    by auto
qed

lemma vf_write_at_fits:
  assumes "off + length buf \<le> vf_limit f" "\<not> vf_direct f \<or> off mod 512 = 0 \<and> length buf mod 512 = 0"
  shows "vf_write_at off buf f = (Inr (length buf), pwrite off buf f)"
  using assms by (auto simp: vf_write_at_def write_all_at_cases DIRECT_IO_ALIGNMENT_def pwrite_def)

lemma vf_write_at_snd: "\<exists>k. snd (vf_write_at off buf f) = pwrite off (take k buf) f"
proof -
  have z: "pwrite off (take 0 buf) f = f" by (simp add: pwrite_def)
  have b: "snd (bindR r (\<lambda>_ f. (Inr n, f))) = snd r" for r :: "(unit, VFile) outcome" and n :: nat
    by (cases r; cases "fst r") auto
  have "snd (vf_write_at off buf f) = f
      \<or> buf \<noteq> [] \<and> snd (vf_write_at off buf f) = snd (write_all_at off buf f)"
    by (simp add: vf_write_at_def b)
  then show ?thesis
  proof
    assume "snd (vf_write_at off buf f) = f"
    then show ?thesis using z by (intro exI [of _ 0]) simp
  next
    assume "buf \<noteq> [] \<and> snd (vf_write_at off buf f) = snd (write_all_at off buf f)"
    then show ?thesis
      by (cases "off + length buf \<le> vf_limit f")
        (auto simp: write_all_at_cases intro: exI [of _ "length buf"])
  qed
qed

subsection \<open>Contents as functions\<close>

definition overlay :: "nat \<Rightarrow> byte list \<Rightarrow> (nat \<Rightarrow> byte) \<Rightarrow> nat \<Rightarrow> byte" where
  "overlay off data d i = (if off \<le> i \<and> i < off + length data then data ! (i - off) else d i)"

definition zeros :: "nat \<Rightarrow> byte list" where
  "zeros n = replicate n 0"

lemma overlay_append: "overlay (off + length a) b (overlay off a d) = overlay off (a @ b) d"
  by (rule ext) (auto simp: overlay_def nth_append)

lemma overlay_Nil [simp]: "overlay off [] d = d"
  by (rule ext) (auto simp: overlay_def)

lemma zeros_add: "zeros a @ zeros b = zeros (a + b)"
  by (simp add: zeros_def replicate_add)

lemma length_zeros [simp]: "length (zeros n) = n"
  by (simp add: zeros_def)

lemma overlay_zeros: "overlay off (zeros n) d i = (if off \<le> i \<and> i < off + n then 0 else d i)"
  by (auto simp: overlay_def zeros_def)

lemma overlay_read: "map (overlay off data d) [off..<off + length data] = data"
  by (rule nth_equalityI) (simp_all add: overlay_def)

lemma overlay_outside:
  "off' + n \<le> off \<or> off + length data \<le> off' \<Longrightarrow> map (overlay off data d) [off'..<off' + n] = map d [off'..<off' + n]"
  by (auto simp: overlay_def)

lemma vf_discard_Inr:
  assumes "vf_discard off len d = (Inr v, d')" "vf_ok d"
  shows "vf_ok d'" "vf_size d' = vf_size d" "vf_limit d' = vf_limit d"
    "vf_byte d' i = (if off \<le> i \<and> i < off + len then 0 else vf_byte d i)"
  using assms by (auto simp: vf_discard_def release_space_hint_def vf_ok_def split: if_splits)

subsection \<open>The trait of files\<close>

text \<open>
  The contract of the trait \<^verbatim>\<open>VirtualFile\<close>: a file has a size and a content, a read returns the
  content up to the size, a successful write or discard replaces the content of its range and nothing
  else. \<open>io_ok\<close> is the range of requests an implementation accepts. The operations of a client are a
  list of writes and discards; \<open>vops_apply\<close> is their effect on an abstract array of bytes.
\<close>

datatype vop = VWrite nat "byte list" | VDiscard nat nat

fun vop_range :: "vop \<Rightarrow> nat \<times> nat" where
  "vop_range (VWrite off data) = (off, length data)"
| "vop_range (VDiscard off len) = (off, len)"

fun vop_apply :: "vop \<Rightarrow> (nat \<Rightarrow> byte) \<Rightarrow> nat \<Rightarrow> byte" where
  "vop_apply (VWrite off data) d = overlay off data d"
| "vop_apply (VDiscard off len) d = overlay off (zeros len) d"

fun run_vops :: "(nat \<Rightarrow> byte list \<Rightarrow> 'f \<Rightarrow> (nat, 'f) outcome) \<Rightarrow> (nat \<Rightarrow> nat \<Rightarrow> 'f \<Rightarrow> (unit, 'f) outcome)
    \<Rightarrow> vop list \<Rightarrow> 'f \<Rightarrow> (unit, 'f) outcome" where
  "run_vops wr dis [] f = (Inr (), f)"
| "run_vops wr dis (VWrite off data # ops) f = bindR (wr off data f) (\<lambda>_ f. run_vops wr dis ops f)"
| "run_vops wr dis (VDiscard off len # ops) f = bindR (dis off len f) (\<lambda>_ f. run_vops wr dis ops f)"

locale virtual_file =
  fixes ok :: "'f \<Rightarrow> bool"
    and fsize :: "'f \<Rightarrow> nat"
    and content :: "'f \<Rightarrow> nat \<Rightarrow> byte"
    and io_ok :: "nat \<Rightarrow> nat \<Rightarrow> bool"
    and read_into :: "'f \<Rightarrow> nat \<Rightarrow> byte list \<Rightarrow> (nat, byte list) outcome"
    and write_op :: "nat \<Rightarrow> byte list \<Rightarrow> 'f \<Rightarrow> (nat, 'f) outcome"
    and discard_op :: "nat \<Rightarrow> nat \<Rightarrow> 'f \<Rightarrow> (unit, 'f) outcome"
  assumes read_law: "ok f \<Longrightarrow> io_ok off (length dst) \<Longrightarrow>
      read_into f off dst =
        (Inr (min (length dst) (fsize f - off)),
         map (content f) [off..<off + min (length dst) (fsize f - off)] @ drop (min (length dst) (fsize f - off)) dst)"
    and write_law: "ok f \<Longrightarrow> io_ok off (length data) \<Longrightarrow> write_op off data f = (Inr n, f') \<Longrightarrow>
      n = length data \<and> ok f' \<and> fsize f \<le> fsize f' \<and> content f' = overlay off data (content f)"
    and discard_law: "ok f \<Longrightarrow> io_ok off len \<Longrightarrow> discard_op off len f = (Inr v, f') \<Longrightarrow>
      ok f' \<and> fsize f' = fsize f \<and> content f' = overlay off (zeros len) (content f)"
begin

lemma read_within:
  assumes "ok f" "io_ok off (length dst)" "off + length dst \<le> fsize f"
  shows "read_into f off dst = (Inr (length dst), map (content f) [off..<off + length dst])"
proof -
  have "min (length dst) (fsize f - off) = length dst" using assms(3) by simp
  then show ?thesis using read_law [OF assms(1,2)] by simp
qed

lemma read_after_write:
  assumes "ok f" "io_ok off (length data)" "write_op off data f = (Inr n, f')"
    "off + length data \<le> fsize f'" "length dst = length data"
  shows "read_into f' off dst = (Inr (length data), data)"
proof -
  have "ok f'" "content f' = overlay off data (content f)" using write_law [OF assms(1-3)] by auto
  then show ?thesis using read_within [of f' off dst] assms(2,4,5) overlay_read by simp
qed

lemma run_vops_content:
  "ok f \<Longrightarrow> \<forall>v\<in>set ops. case vop_range v of (off, n) \<Rightarrow> io_ok off n \<Longrightarrow>
     run_vops write_op discard_op ops f = (Inr u, f') \<Longrightarrow>
     ok f' \<and> fsize f \<le> fsize f' \<and> content f' = fold vop_apply ops (content f)"
proof (induction ops arbitrary: f)
  case (Cons v ops)
  show ?case
  proof (cases v)
    case (VWrite off data)
    obtain n g where g: "write_op off data f = (Inr n, g)" "run_vops write_op discard_op ops g = (Inr u, f')"
      using Cons.prems(3) VWrite by (auto simp: bindR_eq_Inr)
    have "ok g \<and> fsize f \<le> fsize g \<and> content g = overlay off data (content f)"
      using write_law [OF Cons.prems(1) _ g(1)] Cons.prems(2) VWrite by simp
    then show ?thesis using Cons.IH [of g] g(2) Cons.prems(2) VWrite by auto
  next
    case (VDiscard off len)
    obtain n g where g: "discard_op off len f = (Inr n, g)" "run_vops write_op discard_op ops g = (Inr u, f')"
      using Cons.prems(3) VDiscard by (auto simp: bindR_eq_Inr)
    have "ok g \<and> fsize g = fsize f \<and> content g = overlay off (zeros len) (content f)"
      using discard_law [OF Cons.prems(1) _ g(1)] Cons.prems(2) VDiscard by simp
    then show ?thesis using Cons.IH [of g] g(2) Cons.prems(2) VDiscard by auto
  qed
qed simp

lemma read_after_run:
  assumes "ok f" "\<forall>v\<in>set ops. case vop_range v of (off, n) \<Rightarrow> io_ok off n"
    "run_vops write_op discard_op ops f = (Inr u, f')" "io_ok off (length dst)" "off + length dst \<le> fsize f"
  shows "read_into f' off dst = (Inr (length dst), map (fold vop_apply ops (content f)) [off..<off + length dst])"
proof -
  have "ok f'" "fsize f \<le> fsize f'" "content f' = fold vop_apply ops (content f)"
    using run_vops_content [OF assms(1-3)] by auto
  then show ?thesis using read_within [of f' off dst] assms(4,5) by simp
qed

end

interpretation local_file: virtual_file vf_ok vf_size vf_byte "\<lambda>off n. off + n < 2 ^ 63"
  vf_read_at_into vf_write_at vf_discard
proof
  fix f off and dst :: "byte list" assume "vf_ok f" "off + length dst < 2 ^ 63"
  then show "vf_read_at_into f off dst =
      (Inr (min (length dst) (vf_size f - off)),
       map (vf_byte f) [off..<off + min (length dst) (vf_size f - off)] @ drop (min (length dst) (vf_size f - off)) dst)"
    using vf_read_at_into_eq [of f off dst] by (simp add: vf_bytes_def)
next
  fix f off data n f' assume a: "vf_ok f" "vf_write_at off data f = (Inr n, f')"
  note w = vf_write_at_Inr [OF a(2)]
  have "vf_ok f'" using w a(1) pwrite_ok [of f off data] by (cases "data = []") (auto simp: pwrite_def)
  then show "n = length data \<and> vf_ok f' \<and> vf_size f \<le> vf_size f' \<and> vf_byte f' = overlay off data (vf_byte f)"
    using w by (auto simp: pwrite_size pwrite_byte overlay_def fun_eq_iff)
next
  fix f off len v f' assume "vf_ok f" "vf_discard off len f = (Inr v, f')"
  then show "vf_ok f' \<and> vf_size f' = vf_size f \<and> vf_byte f' = overlay off (zeros len) (vf_byte f)"
    using vf_discard_Inr [of off len f v f'] by (auto simp: overlay_zeros fun_eq_iff)
qed

end
