(* ===== verification/Lsmt_Read.thy ===== *)
theory Lsmt_Read
  imports Virtual_File
begin

text \<open>
  The read path that \<^verbatim>\<open>lsmt/file/readwrite.rs\<close> and \<^verbatim>\<open>lsmt/file/readonly.rs\<close> share: a request is
  split into chunks of the maximal I/O size, each chunk is looked up in the index, and holes, zero
  mappings and layer reads fill the caller's buffer.

  The chunk loop does not end for a maximal I/O size of zero, which the setter refuses; it is run with
  the number of requested bytes as its bound, and \<open>read_internal_into_ok\<close>, proved once for every index
  that satisfies the \<open>log_index\<close> contract, shows that the bound is never reached: the read returns, and
  what it returns is the block map of the index applied to the layers.
\<close>

subsection \<open>Alignment\<close>

definition ALIGNMENT :: nat where "ALIGNMENT = 512"
definition div_ceil :: "nat \<Rightarrow> nat \<Rightarrow> nat" where
  "div_ceil a b = (a div b) + (if a mod b = 0 then 0 else 1)"

definition check_alignment :: "nat \<Rightarrow> nat \<Rightarrow> error + unit" where
  "check_alignment off len =
     (if off mod ALIGNMENT = 0 \<and> len mod ALIGNMENT = 0 then Inr ()
      else Inl (Err ''IO must be aligned''))"

subsection \<open>The read path\<close>

text \<open>Slicing the destination outside its bounds panics.\<close>

definition fill_range :: "nat \<Rightarrow> nat \<Rightarrow> byte list \<Rightarrow> (unit, byte list) outcome" where
  "fill_range a n buf =
     (if a + n \<le> length buf then (Inr (), take a buf @ replicate n 0 @ drop (a + n) buf)
      else (Inl Panic, buf))"

definition read_exact_range :: "VFile \<Rightarrow> nat \<Rightarrow> nat \<Rightarrow> nat \<Rightarrow> byte list \<Rightarrow> (unit, byte list) outcome" where
  "read_exact_range layer phys a n buf =
     (if a + n \<le> length buf
      then (case read_exact layer phys (subslice a n buf) of
              (r, d) \<Rightarrow> (r, take a buf @ d @ drop (a + n) buf))
      else (Inl Panic, buf))"

fun read_mappings_loop :: "VFile list \<Rightarrow> nat \<Rightarrow> nat \<Rightarrow> nat \<Rightarrow> nat \<Rightarrow> SegmentMapping list \<Rightarrow> nat \<Rightarrow> byte list
    \<Rightarrow> (nat, byte list) outcome" where
  "read_mappings_loop layers begin_blk end_blk step buf_pos [] current_blk buf = (Inr current_blk, buf)"
| "read_mappings_loop layers begin_blk end_blk step buf_pos (m # ms) current_blk buf =
     bindR
       (if m_offset m > current_blk
        then let hole_bytes = u64_mul (u64_sub (m_offset m) current_blk) ALIGNMENT;
                 local_buf_pos = buf_pos + u64_mul (u64_sub current_blk begin_blk) ALIGNMENT;
                 fill_len = min hole_bytes (step - (local_buf_pos - buf_pos))
             in bindR (if fill_len > 0 then fill_range local_buf_pos fill_len buf else (Inr (), buf))
                  (\<lambda>_ buf. (Inr (m_offset m), buf))
        else (Inr current_blk, buf))
       (\<lambda>current_blk buf.
          if current_blk \<ge> end_blk then (Inr current_blk, buf)
          else
            let local_buf_pos = buf_pos + u64_mul (u64_sub current_blk begin_blk) ALIGNMENT
            in if local_buf_pos - buf_pos \<ge> step then (Inr current_blk, buf)
               else
                 let chunk_bytes = u64_mul (m_length m) ALIGNMENT;
                     actual_read_len = min chunk_bytes (step - (local_buf_pos - buf_pos))
                 in bindR
                      (if zeroed m then fill_range local_buf_pos actual_read_len buf
                       else if tag m < length layers
                       then read_exact_range (layers ! tag m) (u64_mul (moffset m) ALIGNMENT)
                              local_buf_pos actual_read_len buf
                       else (Inl (Err ''Invalid layer tag''), buf))
                      (\<lambda>_ buf. read_mappings_loop layers begin_blk end_blk step buf_pos ms (m_end m) buf))"

definition read_mappings_into :: "VFile list \<Rightarrow> SegmentMapping list \<Rightarrow> nat \<Rightarrow> nat \<Rightarrow> nat \<Rightarrow> nat
    \<Rightarrow> byte list \<Rightarrow> (unit, byte list) outcome" where
  "read_mappings_into layers mappings begin_blk count_blk step buf_pos buf =
     (let end_blk = u64_add begin_blk count_blk
      in bindR (read_mappings_loop layers begin_blk end_blk step buf_pos mappings begin_blk buf)
           (\<lambda>current_blk buf.
              if current_blk < end_blk
              then let local_buf_pos = buf_pos + u64_mul (u64_sub current_blk begin_blk) ALIGNMENT
                   in if local_buf_pos - buf_pos < step
                      then fill_range local_buf_pos (buf_pos + step - local_buf_pos) buf
                      else (Inr (), buf)
              else (Inr (), buf)))"

fun read_chunks :: "nat \<Rightarrow> (Segment \<Rightarrow> SegmentMapping list) \<Rightarrow> VFile list \<Rightarrow> nat \<Rightarrow> nat \<Rightarrow> nat \<Rightarrow> nat
    \<Rightarrow> byte list \<Rightarrow> (unit, byte list) outcome" where
  "read_chunks 0 lookup layers max_io remaining curr_offset buf_pos buf =
     (if remaining = 0 then (Inr (), buf) else (Inl Diverges, buf))"
| "read_chunks (Suc fuel) lookup layers max_io remaining curr_offset buf_pos buf =
     (if remaining = 0 then (Inr (), buf)
      else
        let step = min remaining max_io;
            begin_blk = curr_offset div ALIGNMENT;
            count_blk = div_ceil step ALIGNMENT;
            mappings = lookup (Segment_new begin_blk (as_u32 count_blk))
        in bindR (read_mappings_into layers mappings begin_blk count_blk step buf_pos buf)
             (\<lambda>_ buf. read_chunks fuel lookup layers max_io (remaining - step)
                        (u64_add curr_offset step) (buf_pos + step) buf))"

definition read_internal_into :: "(Segment \<Rightarrow> SegmentMapping list) \<Rightarrow> VFile list \<Rightarrow> nat \<Rightarrow> nat \<Rightarrow> nat
    \<Rightarrow> byte list \<Rightarrow> (nat, byte list) outcome" where
  "read_internal_into lookup layers vsize max_io off dst =
     (case check_alignment off (length dst) of
        Inl e \<Rightarrow> (Inl e, dst)
      | Inr _ \<Rightarrow>
          if off \<ge> vsize then (Inr 0, dst)
          else let read_len = min (length dst) (vsize - off)
               in if read_len = 0 then (Inr 0, dst)
                  else (case read_chunks read_len lookup layers max_io read_len off 0 (take read_len dst) of
                          (Inl e, buf) \<Rightarrow> (Inl e, buf @ drop read_len dst)
                        | (Inr _, buf) \<Rightarrow> (Inr read_len, buf @ drop read_len dst)))"

subsection \<open>What a read returns\<close>

definition cell_byte :: "VFile list \<Rightarrow> cell option \<Rightarrow> nat \<Rightarrow> byte" where
  "cell_byte layers c r =
     (case c of
        None \<Rightarrow> 0
      | Some c \<Rightarrow>
          if cell_zeroed c then 0
          else case cell_phys c of
                 None \<Rightarrow> 0
               | Some p \<Rightarrow> vf_byte (layers ! cell_tag c) (p * 512 + r))"

definition readable :: "VFile list \<Rightarrow> cell \<Rightarrow> bool" where
  "readable layers c \<longleftrightarrow>
     cell_zeroed c \<or> (case cell_phys c of None \<Rightarrow> False
       | Some p \<Rightarrow> cell_tag c < length layers \<and> p * 512 + 512 \<le> vf_size (layers ! cell_tag c))"

definition map_byte :: "VFile list \<Rightarrow> (nat \<Rightarrow> cell option) \<Rightarrow> nat \<Rightarrow> byte" where
  "map_byte layers d i = cell_byte layers (d (i div 512)) (i mod 512)"

lemma covers_div: "covers m (i div 512) \<longleftrightarrow> m_offset m * 512 \<le> i \<and> i < (m_offset m + m_length m) * 512"
  by (auto simp: covers_def less_eq_div_iff_mult_less_eq div_less_iff_less_mult)

lemma fill_range_nth:
  assumes "a + n \<le> length buf"
  obtains buf' where "fill_range a n buf = (Inr (), buf')" "length buf' = length buf"
    "\<And>i. i < length buf \<Longrightarrow> buf' ! i = (if a \<le> i \<and> i < a + n then 0 else buf ! i)"
proof
  show "fill_range a n buf = (Inr (), take a buf @ replicate n 0 @ drop (a + n) buf)"
    using assms by (simp add: fill_range_def)
qed (use assms in \<open>auto simp: nth_append\<close>)

lemma read_exact_range_nth:
  assumes "a + n \<le> length buf" "vf_ok layer" "phys + n \<le> vf_size layer"
  obtains buf' where "read_exact_range layer phys a n buf = (Inr (), buf')" "length buf' = length buf"
    "\<And>i. i < length buf \<Longrightarrow> buf' ! i = (if a \<le> i \<and> i < a + n then vf_byte layer (phys + (i - a)) else buf ! i)"
proof
  have "length (subslice a n buf) = n" using assms by (simp add: subslice_def)
  then show "read_exact_range layer phys a n buf = (Inr (), take a buf @ vf_bytes layer phys n @ drop (a + n) buf)"
    using read_exact_ok [of layer phys "subslice a n buf"] assms by (simp add: read_exact_range_def)
qed (use assms in \<open>auto simp: nth_append\<close>)

definition mapping_readable :: "VFile list \<Rightarrow> SegmentMapping \<Rightarrow> bool" where
  "mapping_readable layers m \<longleftrightarrow>
     zeroed m \<or> (has_physical_range m \<and> tag m < length layers \<and> vf_ok (layers ! tag m)
       \<and> (moffset m + m_length m) * 512 \<le> vf_size (layers ! tag m))"


lemma hole_stage:
  assumes "P + (x + y) * 512 \<le> length buf" "(x + y) * 512 < step" "(b + x + y) * 512 < 2 ^ 64" "0 < y"
  obtains buf1 where
    "(let hole_bytes = u64_mul (u64_sub (b + x + y) (b + x)) ALIGNMENT;
          local_buf_pos = P + u64_mul (u64_sub (b + x) b) ALIGNMENT;
          fill_len = min hole_bytes (step - (local_buf_pos - P))
      in bindR (if fill_len > 0 then fill_range local_buf_pos fill_len buf else (Inr (), buf))
           (\<lambda>_ buf. (Inr (b + x + y), buf))) = (Inr (b + x + y), buf1)"
    "length buf1 = length buf"
    "\<And>i. i < length buf \<Longrightarrow> buf1 ! i = (if P + x * 512 \<le> i \<and> i < P + (x + y) * 512 then 0 else buf ! i)"
proof -
  have n: "u64_sub (b + x + y) (b + x) = y" "u64_sub (b + x) b = x" by (simp_all add: nowrap)
  have m: "u64_mul y ALIGNMENT = y * 512" "u64_mul x ALIGNMENT = x * 512"
    using assms(3) by (simp_all add: ALIGNMENT_def u64_mul_nowrap)
  have f: "min (y * 512) (step - (P + x * 512 - P)) = y * 512" using assms(2) by simp
  obtain buf1 where b1: "fill_range (P + x * 512) (y * 512) buf = (Inr (), buf1)" "length buf1 = length buf"
    "\<And>i. i < length buf \<Longrightarrow> buf1 ! i = (if P + x * 512 \<le> i \<and> i < P + x * 512 + y * 512 then 0 else buf ! i)"
    using fill_range_nth [of "P + x * 512" "y * 512" buf] assms(1) by (auto simp: algebra_simps)
  show ?thesis
  proof (rule that [of buf1])
    show "(let hole_bytes = u64_mul (u64_sub (b + x + y) (b + x)) ALIGNMENT;
          local_buf_pos = P + u64_mul (u64_sub (b + x) b) ALIGNMENT;
          fill_len = min hole_bytes (step - (local_buf_pos - P))
      in bindR (if fill_len > 0 then fill_range local_buf_pos fill_len buf else (Inr (), buf))
           (\<lambda>_ buf. (Inr (b + x + y), buf))) = (Inr (b + x + y), buf1)"
      unfolding Let_def n m f using b1(1) assms(4) by simp
  qed (use b1 in \<open>simp_all add: algebra_simps\<close>)
qed

lemma map_byte_cell_at:
  assumes "covers m (i div 512)"
  shows "map_byte layers (imap (m # ms)) i =
    (if zeroed m \<or> \<not> has_physical_range m then 0 else vf_byte (layers ! tag m) (moffset m * 512 + (i - m_offset m * 512)))"
proof -
  have "m_offset m \<le> i div 512" using assms by (simp add: covers_def)
  then have "(moffset m + (i div 512 - m_offset m)) * 512 + i mod 512 = moffset m * 512 + (i - m_offset m * 512)"
    by (simp add: algebra_simps diff_mult_distrib)
  then have "vf_byte l ((moffset m + (i div 512 - m_offset m)) * 512 + i mod 512) =
      vf_byte l (moffset m * 512 + (i - m_offset m * 512))" for l :: VFile by (rule arg_cong)
  then show ?thesis using assms
    by (simp add: map_byte_def cell_byte_def cell_at_def del: add_mult_distrib)
qed

lemma data_stage:
  assumes m: "mapping_ok m" "0 < m_length m" "mapping_readable layers m" "m_offset m = b + x"
    and "P + step \<le> length buf" "x * 512 < step" "(b + x + m_length m) * 512 < 2 ^ 64"
  defines "n \<equiv> min (m_length m * 512) (step - x * 512)"
  obtains buf2 where
    "(if zeroed m then fill_range (P + x * 512) n buf
      else if tag m < length layers
      then read_exact_range (layers ! tag m) (u64_mul (moffset m) ALIGNMENT) (P + x * 512) n buf
      else (Inl (Err ''Invalid layer tag''), buf)) = (Inr (), buf2)"
    "length buf2 = length buf"
    "\<And>i. i < length buf \<Longrightarrow> buf2 ! i =
       (if P + x * 512 \<le> i \<and> i < P + step \<and> i < P + (x + m_length m) * 512
        then map_byte layers (imap (m # ms)) (b * 512 + (i - P)) else buf ! i)"
proof -
  have fit: "P + x * 512 + n \<le> length buf" using assms(5,6) by (simp add: n_def)
  have rng: "P + x * 512 \<le> i \<and> i < P + x * 512 + n \<longleftrightarrow>
      P + x * 512 \<le> i \<and> i < P + step \<and> i < P + (x + m_length m) * 512" for i
    using assms(6) by (auto simp: n_def algebra_simps)
  have cov: "covers m ((b * 512 + (i - P)) div 512)"
    if "P + x * 512 \<le> i" "i < P + (x + m_length m) * 512" for i
    using that m(4) by (auto simp: covers_div algebra_simps)
  show ?thesis
  proof (cases "zeroed m")
    case True
    obtain buf2 where "fill_range (P + x * 512) n buf = (Inr (), buf2)" "length buf2 = length buf"
      "\<And>i. i < length buf \<Longrightarrow> buf2 ! i = (if P + x * 512 \<le> i \<and> i < P + x * 512 + n then 0 else buf ! i)"
      using fill_range_nth [OF fit] by blast
    then show ?thesis
      using True map_byte_cell_at [OF cov] by (intro that [of buf2]) (auto simp: rng)
  next
    case False
    then have r: "has_physical_range m" "tag m < length layers" "vf_ok (layers ! tag m)"
      "(moffset m + m_length m) * 512 \<le> vf_size (layers ! tag m)"
      using m(3) by (auto simp: mapping_readable_def)
    have "vf_size (layers ! tag m) < 2 ^ 63" using r(3) by (simp add: vf_ok_def)
    then have mo: "u64_mul (moffset m) ALIGNMENT = moffset m * 512"
      using r(4) by (simp add: ALIGNMENT_def u64_mul_nowrap)
    have "moffset m * 512 + n \<le> vf_size (layers ! tag m)" using r(4) by (simp add: n_def algebra_simps)
    from read_exact_range_nth [OF fit r(3) this] obtain buf2 where
      "read_exact_range (layers ! tag m) (moffset m * 512) (P + x * 512) n buf = (Inr (), buf2)"
      "length buf2 = length buf"
      "\<And>i. i < length buf \<Longrightarrow> buf2 ! i = (if P + x * 512 \<le> i \<and> i < P + x * 512 + n
         then vf_byte (layers ! tag m) (moffset m * 512 + (i - (P + x * 512))) else buf ! i)" by blast
    moreover have "map_byte layers (imap (m # ms)) (b * 512 + (i - P)) =
        vf_byte (layers ! tag m) (moffset m * 512 + (i - (P + x * 512)))"
      if "P + x * 512 \<le> i" "i < P + (x + m_length m) * 512" for i
    proof -
      have "b * 512 + (i - P) - m_offset m * 512 = i - (P + x * 512)" using m(4) by (simp add: algebra_simps)
      then show ?thesis using map_byte_cell_at [OF cov [OF that]] False r(1) by simp
    qed
    ultimately show ?thesis
      using False r(2) mo by (intro that [of buf2]) (simp_all add: rng)
  qed
qed


lemma imap_before: "\<forall>m\<in>set ms. c \<le> m_offset m \<Longrightarrow> k < c \<Longrightarrow> imap ms k = None"
  by (auto simp: imap_None_iff covers_def)

lemma read_mappings_loop_ok:
  assumes "index_ok ms" "\<forall>m\<in>set ms. b + x \<le> m_offset m \<and> m_offset m + m_length m \<le> b + w"
    and "\<forall>m\<in>set ms. mapping_readable layers m"
    and "x \<le> w" "(b + w) * 512 < 2 ^ 64" "w * 512 < step + 512" "step \<le> w * 512"
    and "P + step \<le> length buf"
  shows "\<exists>x' buf'. read_mappings_loop layers b (b + w) step P ms (b + x) buf = (Inr (b + x'), buf')
    \<and> x \<le> x' \<and> x' \<le> w \<and> length buf' = length buf \<and> (\<forall>k\<ge>b + x'. imap ms k = None)
    \<and> (\<forall>i<length buf. buf' ! i =
         (if P + x * 512 \<le> i \<and> i < P + step \<and> i < P + x' * 512
          then map_byte layers (imap ms) (b * 512 + (i - P)) else buf ! i))"
  using assms
proof (induction ms arbitrary: x buf)
  case Nil
  then show ?case by (intro exI [of _ x] exI [of _ buf]) auto
next
  case (Cons m ms)
  have m: "mapping_ok m" "0 < m_length m" "mapping_readable layers m" "index_ok ms"
    "\<forall>n\<in>set ms. disjoint_before m n" "b + x \<le> m_offset m" "m_offset m + m_length m \<le> b + w"
    using Cons.prems by (auto simp: index_ok_Cons)
  obtain y where y: "m_offset m = b + x + y" using m(6) by (metis le_Suc_ex)
  define l where "l = m_length m"
  have lw: "x + y + l \<le> w" "0 < l" using m(2,7) y by (auto simp: l_def)
  have st: "(x + y) * 512 < step" using lw Cons.prems(6) unfolding add_mult_distrib by linarith
  have e: "m_end m = b + (x + y + l)" using m(1) y by (simp add: nowrap l_def)
  have le: "P + (x + y) * 512 \<le> length buf" "(b + x + y) * 512 < 2 ^ 64" "(b + (x + y) + l) * 512 < 2 ^ 64"
    using Cons.prems(5,8) st mult_le_mono1 [OF lw(1), of 512] unfolding add_mult_distrib by linarith+
  obtain buf1 where b1: "length buf1 = length buf"
    "(if m_offset m > b + x
        then let hole_bytes = u64_mul (u64_sub (m_offset m) (b + x)) ALIGNMENT;
                 local_buf_pos = P + u64_mul (u64_sub (b + x) b) ALIGNMENT;
                 fill_len = min hole_bytes (step - (local_buf_pos - P))
             in bindR (if fill_len > 0 then fill_range local_buf_pos fill_len buf else (Inr (), buf))
                  (\<lambda>_ buf. (Inr (m_offset m), buf))
        else (Inr (b + x), buf)) = (Inr (b + (x + y)), buf1)"
    "\<And>i. i < length buf \<Longrightarrow> buf1 ! i = (if P + x * 512 \<le> i \<and> i < P + (x + y) * 512 then 0 else buf ! i)"
  proof (cases "y = 0")
    case True
    then show ?thesis by (intro that [of buf]) (use y in auto)
  next
    case False
    then have "0 < y" by simp
    from hole_stage [OF le(1) st le(2) this] obtain buf1 where
      "(let hole_bytes = u64_mul (u64_sub (b + x + y) (b + x)) ALIGNMENT;
          local_buf_pos = P + u64_mul (u64_sub (b + x) b) ALIGNMENT;
          fill_len = min hole_bytes (step - (local_buf_pos - P))
      in bindR (if fill_len > 0 then fill_range local_buf_pos fill_len buf else (Inr (), buf))
           (\<lambda>_ buf. (Inr (b + x + y), buf))) = (Inr (b + x + y), buf1)"
      "length buf1 = length buf"
      "\<And>i. i < length buf \<Longrightarrow> buf1 ! i = (if P + x * 512 \<le> i \<and> i < P + (x + y) * 512 then 0 else buf ! i)" by blast
    then show ?thesis using \<open>0 < y\<close> by (intro that [of buf1]) (simp_all add: y add.assoc)
  qed
  have "m_offset m = b + (x + y)" using y by simp
  have pb: "P + step \<le> length buf1" using Cons.prems(8) b1(1) by simp
  obtain buf2 where b2: "length buf2 = length buf"
    "(if zeroed m then fill_range (P + (x + y) * 512) (min (l * 512) (step - (x + y) * 512)) buf1
      else if tag m < length layers
      then read_exact_range (layers ! tag m) (u64_mul (moffset m) ALIGNMENT) (P + (x + y) * 512)
             (min (l * 512) (step - (x + y) * 512)) buf1
      else (Inl (Err ''Invalid layer tag''), buf1)) = (Inr (), buf2)"
    "\<And>i. i < length buf \<Longrightarrow> buf2 ! i =
       (if P + (x + y) * 512 \<le> i \<and> i < P + step \<and> i < P + (x + y + l) * 512
        then map_byte layers (imap (m # ms)) (b * 512 + (i - P)) else buf1 ! i)"
    using data_stage [OF m(1-3) \<open>m_offset m = b + (x + y)\<close> pb st le(3) [unfolded l_def], of ms]
    unfolding l_def b1(1) by blast
  have "\<exists>x' buf'. read_mappings_loop layers b (b + w) step P ms (b + (x + y + l)) buf2 = (Inr (b + x'), buf')
    \<and> x + y + l \<le> x' \<and> x' \<le> w \<and> length buf' = length buf2 \<and> (\<forall>k\<ge>b + x'. imap ms k = None)
    \<and> (\<forall>i<length buf2. buf' ! i =
         (if P + (x + y + l) * 512 \<le> i \<and> i < P + step \<and> i < P + x' * 512
          then map_byte layers (imap ms) (b * 512 + (i - P)) else buf2 ! i))"
    by (rule Cons.IH) (use Cons.prems m y lw b2(1) in \<open>auto simp: disjoint_before_def l_def\<close>)
  then obtain x' buf' where r: "read_mappings_loop layers b (b + w) step P ms (b + (x + y + l)) buf2 = (Inr (b + x'), buf')"
    "x + y + l \<le> x'" "x' \<le> w" "length buf' = length buf" "\<And>k. k \<ge> b + x' \<Longrightarrow> imap ms k = None"
    "\<And>i. i < length buf \<Longrightarrow> buf' ! i =
         (if P + (x + y + l) * 512 \<le> i \<and> i < P + step \<and> i < P + x' * 512
          then map_byte layers (imap ms) (b * 512 + (i - P)) else buf2 ! i)"
    unfolding b2(1) by blast
  have n: "u64_mul (u64_sub (b + (x + y)) b) ALIGNMENT = (x + y) * 512" "u64_mul (m_length m) ALIGNMENT = l * 512"
    using le(3) by (simp_all add: nowrap ALIGNMENT_def l_def u64_mul_nowrap)
  have "read_mappings_loop layers b (b + w) step P (m # ms) (b + x) buf = (Inr (b + x'), buf')"
    using st lw unfolding read_mappings_loop.simps b1(2) bindR.simps
    unfolding Let_def n add_diff_cancel_left' unfolding b2(2) bindR.simps e r(1) by simp
  moreover have "imap (m # ms) k = None" if "k \<ge> b + x'" for k
    using r(2,5) that y by (auto simp: covers_def l_def)
  moreover have "buf' ! i =
         (if P + x * 512 \<le> i \<and> i < P + step \<and> i < P + x' * 512
          then map_byte layers (imap (m # ms)) (b * 512 + (i - P)) else buf ! i)" if "i < length buf" for i
  proof -
    let ?o = "b * 512 + (i - P)"
    have x': "(x + y + l) * 512 \<le> x' * 512" using r(2) by (rule mult_le_mono1)
    define j where "j = i - P"
    have later: "map_byte layers (imap (m # ms)) ?o = map_byte layers (imap ms) ?o"
      if "P + (x + y + l) * 512 \<le> i"
    proof -
      have "(b + (x + y + l)) * 512 \<le> b * 512 + j" using that by (simp add: j_def)
      then have "\<not> covers m (?o div 512)" using y unfolding covers_div j_def [symmetric] by (simp add: l_def)
      then show ?thesis by (simp add: map_byte_def)
    qed
    have hole: "map_byte layers (imap (m # ms)) ?o = 0" if "P + x * 512 \<le> i" "i < P + (x + y) * 512"
    proof -
      have "b * 512 + j < (b + (x + y)) * 512" using that by (simp add: j_def)
      then have "?o div 512 < b + (x + y)" unfolding j_def [symmetric] by (subst div_less_iff_less_mult) simp_all
      moreover have "\<forall>n\<in>set (m # ms). b + (x + y) \<le> m_offset n"
        using m(5) y by (auto simp: disjoint_before_def)
      ultimately have "imap (m # ms) (?o div 512) = None" by (intro imap_before)
      then show ?thesis by (simp add: map_byte_def cell_byte_def)
    qed
    consider "i < P + x * 512" | "P + x * 512 \<le> i" "i < P + (x + y) * 512"
      | "P + (x + y) * 512 \<le> i" "i < P + (x + y + l) * 512" | "P + (x + y + l) * 512 \<le> i" by linarith
    then show ?thesis
      using r(6) [OF that] b2(3) [OF that] b1(3) [OF that] x' later hole st
      unfolding add_mult_distrib by cases auto
  qed
  ultimately show ?case using r(2-4) lw by (intro exI [of _ x'] exI [of _ buf']) auto
qed


lemma div_ceil_512: "n \<le> div_ceil n 512 * 512" "div_ceil n 512 * 512 < n + 512"
proof -
  define q r where "q = n div 512" and "r = n mod 512"
  have "q * 512 + r = n" "r < 512" by (simp_all add: q_def r_def)
  then show "n \<le> div_ceil n 512 * 512" "div_ceil n 512 * 512 < n + 512"
    unfolding div_ceil_def q_def [symmetric] r_def [symmetric] add_mult_distrib
    by (cases "r = 0"; simp)+
qed

lemma read_mappings_into_ok:
  assumes "index_ok ms" "\<forall>m\<in>set ms. b \<le> m_offset m \<and> m_offset m + m_length m \<le> b + div_ceil step 512"
    and "\<forall>m\<in>set ms. mapping_readable layers m"
    and "(b + div_ceil step 512) * 512 < 2 ^ 64" "P + step \<le> length buf"
  shows "\<exists>buf'. read_mappings_into layers ms b (div_ceil step 512) step P buf = (Inr (), buf')
    \<and> length buf' = length buf
    \<and> (\<forall>i<length buf. buf' ! i =
         (if P \<le> i \<and> i < P + step then map_byte layers (imap ms) (b * 512 + (i - P)) else buf ! i))"
proof -
  define w where "w = div_ceil step 512"
  have w: "step \<le> w * 512" "w * 512 < step + 512" unfolding w_def by (rule div_ceil_512)+
  from read_mappings_loop_ok [of ms b 0 w layers step P buf] assms w
  obtain x' buf1 where r: "read_mappings_loop layers b (b + w) step P ms b buf = (Inr (b + x'), buf1)"
    "x' \<le> w" "length buf1 = length buf" "\<And>k. k \<ge> b + x' \<Longrightarrow> imap ms k = None"
    "\<And>i. i < length buf \<Longrightarrow> buf1 ! i =
         (if P \<le> i \<and> i < P + step \<and> i < P + x' * 512
          then map_byte layers (imap ms) (b * 512 + (i - P)) else buf ! i)"
    unfolding w_def [symmetric] by auto
  have n: "u64_add b w = b + w" "u64_mul (u64_sub (b + x') b) ALIGNMENT = x' * 512"
    using assms(4) r(2) unfolding w_def [symmetric] by (simp_all add: nowrap ALIGNMENT_def u64_mul_nowrap)
  have rest: "map_byte layers (imap ms) (b * 512 + (i - P)) = 0" if "P + x' * 512 \<le> i" for i
  proof -
    have "(b + x') * 512 \<le> b * 512 + (i - P)" using that by simp
    then have "b + x' \<le> (b * 512 + (i - P)) div 512" by (subst less_eq_div_iff_mult_less_eq) simp_all
    then show ?thesis using r(4) by (simp add: map_byte_def cell_byte_def)
  qed
  show ?thesis
  proof (cases "x' < w \<and> x' * 512 < step")
    case True
    then have fit: "P + x' * 512 + (P + step - (P + x' * 512)) \<le> length buf1" using assms(5) r(3) by simp
    from fill_range_nth [OF fit] obtain buf' where
      b: "fill_range (P + x' * 512) (P + step - (P + x' * 512)) buf1 = (Inr (), buf')" "length buf' = length buf"
      "\<And>i. i < length buf \<Longrightarrow> buf' ! i =
         (if P + x' * 512 \<le> i \<and> i < P + x' * 512 + (P + step - (P + x' * 512)) then 0 else buf1 ! i)"
      unfolding r(3) by blast
    have "read_mappings_into layers ms b w step P buf = (Inr (), buf')"
      unfolding read_mappings_into_def Let_def n(1) r(1) bindR.simps n(2) add_diff_cancel_left' using True b(1) by simp
    moreover have "buf' ! i =
         (if P \<le> i \<and> i < P + step then map_byte layers (imap ms) (b * 512 + (i - P)) else buf ! i)"
      if "i < length buf" for i
      using b(3) [OF that] r(5) [OF that] rest [of i] True by auto
    ultimately show ?thesis using b(2) unfolding w_def by blast
  next
    case False
    have "read_mappings_into layers ms b w step P buf = (Inr (), buf1)"
      unfolding read_mappings_into_def Let_def n(1) r(1) bindR.simps n(2) add_diff_cancel_left' using False by auto
    moreover have "step \<le> x' * 512" using False r(2) w(1) by (cases "x' = w") auto
    ultimately show ?thesis using r(3,5) unfolding w_def by (intro exI [of _ buf1]) auto
  qed
qed

context log_index
begin

lemma lookup_readable:
  assumes ix: "ix_ok ix" "segment_ok q" "m \<in> set (lookup ix q)"
    and rd: "\<forall>b c. denote ix b = Some c \<longrightarrow> readable layers c" "\<forall>l\<in>set layers. vf_ok l"
  shows "mapping_readable layers m"
proof -
  have len: "0 < m_length m" using lookup_ok [OF ix(1,2)] ix(3) by (simp add: index_ok_def)
  have "covers m (m_offset m + m_length m - 1)" using len by (auto simp: covers_def)
  then have "readable layers (cell_at m (m_offset m + m_length m - 1))"
    using lookup_mem [OF ix] rd(1) by blast
  moreover have "(moffset m + (m_length m - 1)) * 512 + 512 = (moffset m + m_length m) * 512"
    using len by (simp add: algebra_simps)
  ultimately show ?thesis
    using rd(2) len by (auto simp: readable_def mapping_readable_def cell_at_def split: if_splits)
qed

lemma lookup_map_byte:
  assumes "ix_ok ix" "segment_ok q" "in_segment q (i div 512)"
  shows "map_byte layers (imap (lookup ix q)) i = map_byte layers (denote ix) i"
  using lookup_map [OF assms(1,2), of "i div 512"] assms(3) by (simp add: map_byte_def)

lemma read_chunks_ok:
  assumes ix: "ix_ok ix" and rd: "\<forall>b c. denote ix b = Some c \<longrightarrow> readable layers c" "\<forall>l\<in>set layers. vf_ok l"
    and io: "0 < max_io" "max_io mod 512 = 0"
    and "n \<le> fuel" "n < 2 ^ 40" "off + n < 2 ^ 63" "off mod 512 = 0" "P + n = length buf"
  shows "\<exists>buf'. read_chunks fuel (lookup ix) layers max_io n off P buf = (Inr (), buf') \<and> length buf' = length buf
    \<and> (\<forall>i<length buf. buf' ! i = (if P \<le> i then map_byte layers (denote ix) (off + (i - P)) else buf ! i))"
  using assms(6-)
proof (induction fuel arbitrary: n off P buf)
  case 0
  then show ?case by simp
next
  case (Suc fuel)
  show ?case
  proof (cases "n = 0")
    case True
    then show ?thesis using Suc.prems by auto
  next
    case False
    define step where "step = min n max_io"
    have step: "0 < step" "step \<le> n" "step = n \<or> step mod 512 = 0" using False io by (auto simp: step_def min_def)
    define b w where "b = off div 512" and "w = div_ceil step 512"
    have bo: "b * 512 = off" using Suc.prems(4) div_mult_mod_eq [of off 512] by (simp add: b_def)
    have w: "step \<le> w * 512" "w * 512 < step + 512" unfolding w_def by (rule div_ceil_512)+
    have w32: "w < 2 ^ 32" using w(2) step(2) Suc.prems(2) by simp
    define q where "q = Segment_new b w"
    have q: "segment_ok q" using w32 bo Suc.prems(3) by (simp add: q_def segment_ok_def)
    have mr: "\<forall>m\<in>set (lookup ix q). mapping_readable layers m"
      using lookup_readable [OF ix q _ rd] by blast
    have "(b + w) * 512 < 2 ^ 64" using w(2) bo step(2) Suc.prems(3) by (simp add: add_mult_distrib)
    with read_mappings_into_ok [of "lookup ix q" b step layers P buf] lookup_ok [OF ix q] lookup_bounds [OF ix q] mr
      Suc.prems(5) step(2)
    obtain buf1 where r: "read_mappings_into layers (lookup ix q) b w step P buf = (Inr (), buf1)"
      "length buf1 = length buf"
      "\<And>i. i < length buf \<Longrightarrow> buf1 ! i =
         (if P \<le> i \<and> i < P + step then map_byte layers (imap (lookup ix q)) (b * 512 + (i - P)) else buf ! i)"
      unfolding w_def [symmetric] by (auto simp: q_def)
    have mb: "map_byte layers (imap (lookup ix q)) (b * 512 + (i - P)) = map_byte layers (denote ix) (off + (i - P))"
      if "P \<le> i" "i < P + step" for i
    proof -
      have "off + (i - P) < (b + w) * 512" using that w(1) bo by (simp add: add_mult_distrib)
      then have "(off + (i - P)) div 512 < b + w" by (subst div_less_iff_less_mult) simp_all
      moreover have "b \<le> (off + (i - P)) div 512" using bo by (subst less_eq_div_iff_mult_less_eq) simp_all
      ultimately show ?thesis unfolding bo by (intro lookup_map_byte [OF ix q]) (simp add: q_def in_segment_def)
    qed
    have "\<exists>buf'. read_chunks fuel (lookup ix) layers max_io (n - step) (off + step) (P + step) buf1 = (Inr (), buf')
      \<and> length buf' = length buf1 \<and> (\<forall>i<length buf1. buf' ! i =
        (if P + step \<le> i then map_byte layers (denote ix) (off + step + (i - (P + step))) else buf1 ! i))"
    proof (cases "step = n")
      case True
      then show ?thesis using r(2) Suc.prems(5) by (cases fuel) auto
    next
      case False
      then have "(off + step) mod 512 = 0" using step(3) Suc.prems(4) by (simp add: mod_add_eq [symmetric] del: mod_add_eq)
      then show ?thesis using Suc.prems step r(2) by (intro Suc.IH) auto
    qed
    then obtain buf' where r': "read_chunks fuel (lookup ix) layers max_io (n - step) (off + step) (P + step) buf1 = (Inr (), buf')"
      "length buf' = length buf" "\<And>i. i < length buf \<Longrightarrow> buf' ! i =
        (if P + step \<le> i then map_byte layers (denote ix) (off + step + (i - (P + step))) else buf1 ! i)"
      unfolding r(2) by blast
    have u: "u64_add off step = off + step" using Suc.prems(3) step(2) by (simp add: nowrap)
    have "read_chunks (Suc fuel) (lookup ix) layers max_io n off P buf = (Inr (), buf')"
      using False r(1) r'(1) w32
      by (simp add: step_def [symmetric] ALIGNMENT_def b_def [symmetric] w_def [symmetric] q_def u Let_def as_u32_nowrap)
    moreover have "buf' ! i = (if P \<le> i then map_byte layers (denote ix) (off + (i - P)) else buf ! i)"
      if "i < length buf" for i
      using r'(3) [OF that] r(3) [OF that] mb [of i] by auto
    ultimately show ?thesis using r'(2) by blast
  qed
qed

lemma read_internal_into_ok:
  assumes ix: "ix_ok ix" and rd: "\<forall>b c. denote ix b = Some c \<longrightarrow> readable layers c" "\<forall>l\<in>set layers. vf_ok l"
    and io: "0 < max_io" "max_io mod 512 = 0"
    and al: "off mod 512 = 0" "length dst mod 512 = 0" and bd: "length dst < 2 ^ 40" "vsize < 2 ^ 63"
  defines "n \<equiv> min (length dst) (vsize - off)"
  shows "read_internal_into (lookup ix) layers vsize max_io off dst =
    (Inr n, map (map_byte layers (denote ix)) [off..<off + n] @ drop n dst)"
proof -
  have al': "check_alignment off (length dst) = Inr ()" using al by (simp add: check_alignment_def ALIGNMENT_def)
  show ?thesis
  proof (cases "n = 0")
    case True
    then show ?thesis unfolding read_internal_into_def al' n_def [symmetric] by (simp add: Let_def n_def)
  next
    case False
    then have "off < vsize" by (simp add: n_def)
    have "\<exists>buf'. read_chunks n (lookup ix) layers max_io n off 0 (take n dst) = (Inr (), buf')
      \<and> length buf' = length (take n dst) \<and> (\<forall>i<length (take n dst). buf' ! i =
          (if 0 \<le> i then map_byte layers (denote ix) (off + (i - 0)) else take n dst ! i))"
      using bd al(1) \<open>off < vsize\<close> by (intro read_chunks_ok [OF ix rd io]) (auto simp: n_def)
    then obtain buf' where b: "read_chunks n (lookup ix) layers max_io n off 0 (take n dst) = (Inr (), buf')"
      "length buf' = n" "\<And>i. i < n \<Longrightarrow> buf' ! i = map_byte layers (denote ix) (off + i)"
      by (auto simp: n_def)
    have "buf' = map (map_byte layers (denote ix)) [off..<off + n]"
      using b(2,3) by (intro nth_equalityI) auto
    then show ?thesis
      using False b(1) \<open>off < vsize\<close> unfolding read_internal_into_def al' n_def [symmetric] by (simp add: Let_def n_def [symmetric])
  qed
qed

end

end
