(* ===== verification/Lsmt_File.thy ===== *)
theory Lsmt_File
  imports Lsmt_Read
begin

text \<open>
  The writable layer, \<^verbatim>\<open>storage/overlaybd/src/lsmt/file/readwrite.rs\<close> with the append digest of
  \<^verbatim>\<open>types.rs\<close>: its state, the append cursors, the index file and its group commit, the plan of a hybrid
  write, writes and discards for the three layouts, and reads.

  Operations pass the state and return the error or value with the state they leave. The shared handle
  of the writable file (it is both \<^verbatim>\<open>rw_data_file\<close> and the last layer) is one field, and \<open>layers\<close> puts it
  at the end. The write and discard loops are bounded by the number of bytes, as the read loop is.

  The contract is the device: the byte function that the index and the layers denote. The lemmas show
  that every cell can be read, that reads return the device, and that a chunk written in any of the
  layouts overlays exactly its range.
\<close>

section \<open>The writable layer\<close>

definition ALIGNMENT_4K :: nat where "ALIGNMENT_4K = 4096"
definition MAX_IO_SIZE :: nat where "MAX_IO_SIZE = 4 * 1024 * 1024"
definition DISK_MAPPING_SIZE :: nat where "DISK_MAPPING_SIZE = 16"

subsection \<open>The append digest\<close>

text \<open>
  SHA-256 comes from the \<^verbatim>\<open>sha2\<close> crate: the state of a hasher is the bytes it has absorbed, and the
  digest function is a parameter of the operations that finalize it.
\<close>

record AppendDigestTracker =
  hasher :: "byte list"
  ad_offset :: nat

record LayerDescriptor =
  ld_digest :: string
  ld_size :: nat

definition hex_digit :: "nat \<Rightarrow> char" where
  "hex_digit n = ''0123456789abcdef'' ! n"

definition hex_lower :: "byte list \<Rightarrow> string" where
  "hex_lower bs = concat (map (\<lambda>b. [hex_digit (unat (drop_bit 4 b)), hex_digit (unat (b AND 0x0f))]) bs)"

definition AppendDigestTracker_from_header :: "VFile \<Rightarrow> error + AppendDigestTracker" where
  "AppendDigestTracker_from_header file =
     (case vf_read_at_into file 0 (replicate HEADER_SIZE 0) of
        (Inl e, _) \<Rightarrow> Inl e
      | (Inr read, raw) \<Rightarrow>
          if read \<noteq> HEADER_SIZE then Inl (Err ''short read while initializing append digest tracker'')
          else Inr \<lparr>hasher = raw, ad_offset = HEADER_SIZE\<rparr>)"

definition absorb :: "AppendDigestTracker \<Rightarrow> nat \<Rightarrow> byte list \<Rightarrow> error + AppendDigestTracker" where
  "absorb t off data =
     (if data = [] then Inr t
      else if off \<noteq> ad_offset t then Inl (Err ''append digest tracker saw out-of-order write'')
      else case checked_add_u64 (ad_offset t) (length data) of
             None \<Rightarrow> Inl (Err ''append digest size overflow'')
           | Some n \<Rightarrow> Inr \<lparr>hasher = hasher t @ data, ad_offset = n\<rparr>)"

definition descriptor :: "(byte list \<Rightarrow> byte list) \<Rightarrow> AppendDigestTracker \<Rightarrow> LayerDescriptor" where
  "descriptor sha256 t =
     \<lparr>ld_digest = ''sha256:'' @ hex_lower (sha256 (hasher t)), ld_size = ad_offset t\<rparr>"

subsection \<open>The state of a writable layer\<close>

record LSMTFile =
  index :: ComboIndex
  lower_files :: "VFile list"
  rw_data_file :: VFile
  rw_index_file :: "VFile option"
  virtual_size :: nat
  rw_tag :: nat
  sealed :: bool
  max_io_size :: nat
  uuids :: "Uuid list"
  file_type :: LSMTFileType
  group_commit_size :: nat
  group_commit_buf :: "DiskSegmentMapping list"
  rw_data_append_offset :: nat
  rw_index_append_offset :: nat
  append_digest :: "AppendDigestTracker option"

text \<open>The layer vector ends with the writable file itself, which is shared, not copied.\<close>

definition layers :: "LSMTFile \<Rightarrow> VFile list" where
  "layers f = lower_files f @ [rw_data_file f]"

definition on_data :: "(VFile \<Rightarrow> ('a, VFile) outcome) \<Rightarrow> LSMTFile \<Rightarrow> ('a, LSMTFile) outcome" where
  "on_data op f = (case op (rw_data_file f) of (r, d) \<Rightarrow> (r, f\<lparr>rw_data_file := d\<rparr>))"

definition on_index_file :: "VFile \<Rightarrow> (VFile \<Rightarrow> ('a, VFile) outcome) \<Rightarrow> LSMTFile \<Rightarrow> ('a, LSMTFile) outcome" where
  "on_index_file idx_file op f = (case op idx_file of (r, d) \<Rightarrow> (r, f\<lparr>rw_index_file := Some d\<rparr>))"

definition set_max_io_size :: "nat \<Rightarrow> LSMTFile \<Rightarrow> (unit, LSMTFile) outcome" where
  "set_max_io_size sz f =
     bindR (ensureR (sz \<noteq> 0 \<and> sz mod ALIGNMENT_4K = 0) (Err ''size must be non-zero and aligned to 4K'') f)
       (\<lambda>_ f. (Inr (), f\<lparr>max_io_size := sz\<rparr>))"

definition set_index_group_commit :: "nat \<Rightarrow> LSMTFile \<Rightarrow> (unit, LSMTFile) outcome" where
  "set_index_group_commit buffer_size f = (Inr (), f\<lparr>group_commit_size := buffer_size\<rparr>)"

definition get_uuid :: "LSMTFile \<Rightarrow> nat \<Rightarrow> error + Uuid" where
  "get_uuid f layer_idx =
     (if layer_idx < length (uuids f) then Inr (uuids f ! layer_idx) else Inl (Err ''layer_idx out of range''))"

definition data_append_offset :: "LSMTFile \<Rightarrow> (nat, LSMTFile) outcome" where
  "data_append_offset f =
     bindR (ensureR (rw_data_append_offset f mod ALIGNMENT = 0)
              (Err ''Underlying RW data file is not aligned'') f)
       (\<lambda>_ f. (Inr (rw_data_append_offset f), f))"

definition advance_data_append_offset :: "nat \<Rightarrow> nat \<Rightarrow> LSMTFile \<Rightarrow> (unit, LSMTFile) outcome" where
  "advance_data_append_offset start len f =
     (case checked_add_u64 start len of
        None \<Rightarrow> (Inl (Err ''rw data append offset overflow''), f)
      | Some nxt \<Rightarrow>
          if rw_data_append_offset f = start then (Inr (), f\<lparr>rw_data_append_offset := nxt\<rparr>)
          else (Inl (Err ''rw data append cursor race''), f))"

definition index_append_offset :: "LSMTFile \<Rightarrow> (nat, LSMTFile) outcome" where
  "index_append_offset f =
     bindR (ensureR (rw_index_append_offset f mod DISK_MAPPING_SIZE = 0)
              (Err ''Underlying RW index file is not mapping-aligned'') f)
       (\<lambda>_ f. (Inr (rw_index_append_offset f), f))"

definition advance_index_append_offset :: "nat \<Rightarrow> nat \<Rightarrow> LSMTFile \<Rightarrow> (unit, LSMTFile) outcome" where
  "advance_index_append_offset start len f =
     (case checked_add_u64 start len of
        None \<Rightarrow> (Inl (Err ''rw index append offset overflow''), f)
      | Some nxt \<Rightarrow>
          if rw_index_append_offset f = start then (Inr (), f\<lparr>rw_index_append_offset := nxt\<rparr>)
          else (Inl (Err ''rw index append cursor race''), f))"

definition append_index_bytes :: "byte list \<Rightarrow> LSMTFile \<Rightarrow> (unit, LSMTFile) outcome" where
  "append_index_bytes bytes f =
     (if bytes = [] then (Inr (), f)
      else case rw_index_file f of
             None \<Rightarrow> (Inr (), f)
           | Some idx_file \<Rightarrow>
               bindR (index_append_offset f) (\<lambda>off f.
               bindR (on_index_file idx_file (vf_write_at off bytes) f) (\<lambda>_ f.
               advance_index_append_offset off (length bytes) f)))"

definition mapping_bytes :: "DiskSegmentMapping list \<Rightarrow> byte list" where
  "mapping_bytes ds = concat (map disk_bytes ds)"

definition flush_group_commit :: "LSMTFile \<Rightarrow> (unit, LSMTFile) outcome" where
  "flush_group_commit f =
     (if group_commit_buf f = [] then (Inr (), f)
      else bindR (append_index_bytes (mapping_bytes (group_commit_buf f)) f) (\<lambda>_ f.
           (Inr (), f\<lparr>group_commit_buf := []\<rparr>)))"

definition append_index_mapping :: "DiskSegmentMapping \<Rightarrow> LSMTFile \<Rightarrow> (unit, LSMTFile) outcome" where
  "append_index_mapping m f =
     (if group_commit_size f = 0 then append_index_bytes (disk_bytes m) f
      else let capacity = max (group_commit_size f div DISK_MAPPING_SIZE) 1;
               f = f\<lparr>group_commit_buf := group_commit_buf f @ [m]\<rparr>
           in if capacity \<le> length (group_commit_buf f)
              then bindR (append_index_bytes (mapping_bytes (group_commit_buf f)) f) (\<lambda>_ f.
                   (Inr (), f\<lparr>group_commit_buf := []\<rparr>))
              else (Inr (), f))"

definition index_insert :: "SegmentMapping \<Rightarrow> LSMTFile \<Rightarrow> LSMTFile" where
  "index_insert m f = f\<lparr>index := ComboIndex_insert (index f) m\<rparr>"

subsection \<open>Planning a hybrid write\<close>

datatype WriteFragment =
    InPlace nat nat nat
  | ReuseZero nat nat nat nat
  | Append nat nat nat

fun plan_loop :: "nat \<Rightarrow> nat \<Rightarrow> SegmentMapping list \<Rightarrow> nat \<Rightarrow> WriteFragment list
    \<Rightarrow> error + (nat \<times> WriteFragment list)" where
  "plan_loop start_blk end_blk [] current_blk fragments = Inr (current_blk, fragments)"
| "plan_loop start_blk end_blk (m # ms) current_blk fragments =
     (let (current_blk, fragments) =
        (if m_offset m > current_blk
         then (m_offset m,
               fragments @ [Append (u64_mul current_blk ALIGNMENT)
                              (u64_mul (u64_sub current_blk start_blk) ALIGNMENT)
                              (u64_mul (u64_sub (m_offset m) current_blk) ALIGNMENT)])
         else (current_blk, fragments))
      in if current_blk \<ge> end_blk then Inr (current_blk, fragments)
         else
           let fragment_end = min (m_end m) end_blk
           in if fragment_end \<le> current_blk then plan_loop start_blk end_blk ms current_blk fragments
              else
                let data_offset = u64_mul (u64_sub current_blk start_blk) ALIGNMENT;
                    len = u64_mul (u64_sub fragment_end current_blk) ALIGNMENT
                in if zeroed m \<and> \<not> has_physical_range m
                   then plan_loop start_blk end_blk ms fragment_end
                          (fragments @ [Append (u64_mul current_blk ALIGNMENT) data_offset len])
                   else case checked_add_u64 (moffset m) (u64_sub current_blk (m_offset m)) of
                          None \<Rightarrow> Inl (Err ''hybrid write physical offset overflow'')
                        | Some p \<Rightarrow>
                            let phys_offset = u64_mul p ALIGNMENT
                            in plan_loop start_blk end_blk ms fragment_end
                                 (fragments @
                                   [if zeroed m
                                    then ReuseZero (u64_mul current_blk ALIGNMENT) data_offset len phys_offset
                                    else InPlace data_offset len phys_offset]))"

definition plan_hybrid_write :: "MutableIndex \<Rightarrow> nat \<Rightarrow> nat \<Rightarrow> error + WriteFragment list" where
  "plan_hybrid_write up logical_offset data_len =
     (let start_blk = logical_offset div ALIGNMENT;
          block_count = as_u32 (data_len div ALIGNMENT);
          end_blk = u64_add start_blk block_count;
          upper_results = MutableIndex_lookup up (Segment_new start_blk block_count)
      in case plan_loop start_blk end_blk upper_results start_blk [] of
           Inl e \<Rightarrow> Inl e
         | Inr (current_blk, fragments) \<Rightarrow>
             Inr (if current_blk < end_blk
                  then fragments @ [Append (u64_mul current_blk ALIGNMENT)
                                      (u64_mul (u64_sub current_blk start_blk) ALIGNMENT)
                                      (u64_mul (u64_sub end_blk current_blk) ALIGNMENT)]
                  else fragments))"

subsection \<open>Writing\<close>

definition checked_slice :: "nat \<Rightarrow> nat \<Rightarrow> byte list \<Rightarrow> LSMTFile \<Rightarrow> (byte list, LSMTFile) outcome" where
  "checked_slice a n xs f = (if a + n \<le> length xs then (Inr (subslice a n xs), f) else (Inl Panic, f))"

definition rw_mapping :: "nat \<Rightarrow> nat \<Rightarrow> nat \<Rightarrow> LSMTFile \<Rightarrow> SegmentMapping" where
  "rw_mapping logical_offset len phys_offset f =
     SegmentMapping_new (logical_offset div ALIGNMENT) (as_u32 (len div ALIGNMENT))
       (phys_offset div ALIGNMENT) False (as_u8 (rw_tag f))"

definition publish :: "SegmentMapping \<Rightarrow> LSMTFile \<Rightarrow> (unit, LSMTFile) outcome" where
  "publish m f = append_index_mapping (from_memory (m\<lparr>tag := 0\<rparr>)) f"

fun write_fragments :: "byte list \<Rightarrow> WriteFragment list \<Rightarrow> nat option \<Rightarrow> SegmentMapping list \<Rightarrow> LSMTFile
    \<Rightarrow> (SegmentMapping list, LSMTFile) outcome" where
  "write_fragments chunk [] next_append_offset inserted f = (Inr inserted, f)"
| "write_fragments chunk (InPlace data_offset len phys_offset # fs) next_append_offset inserted f =
     bindR (checked_slice data_offset len chunk f) (\<lambda>d f.
     bindR (on_data (vf_write_at phys_offset d) f) (\<lambda>_ f.
     write_fragments chunk fs next_append_offset inserted f))"
| "write_fragments chunk (ReuseZero logical_offset data_offset len phys_offset # fs) next_append_offset inserted f =
     bindR (checked_slice data_offset len chunk f) (\<lambda>d f.
     bindR (on_data (vf_write_at phys_offset d) f) (\<lambda>_ f.
     let m_mem = rw_mapping logical_offset len phys_offset f in
     bindR (publish m_mem f) (\<lambda>_ f.
     write_fragments chunk fs next_append_offset (inserted @ [m_mem]) f)))"
| "write_fragments chunk (Append logical_offset data_offset len # fs) next_append_offset inserted f =
     bindR (case next_append_offset of Some off \<Rightarrow> (Inr off, f) | None \<Rightarrow> data_append_offset f) (\<lambda>phys_offset f.
     bindR (checked_slice data_offset len chunk f) (\<lambda>d f.
     bindR (on_data (vf_write_at phys_offset d) f) (\<lambda>_ f.
     bindR (advance_data_append_offset phys_offset len f) (\<lambda>_ f.
     let m_mem = rw_mapping logical_offset len phys_offset f in
     bindR (publish m_mem f) (\<lambda>_ f.
     (case checked_add_u64 phys_offset len of
        None \<Rightarrow> (Inl (Err ''hybrid append offset overflow''), f)
      | Some nxt \<Rightarrow> write_fragments chunk fs (Some nxt) (inserted @ [m_mem]) f))))))"

definition write_chunk_hybrid :: "nat \<Rightarrow> byte list \<Rightarrow> LSMTFile \<Rightarrow> (unit, LSMTFile) outcome" where
  "write_chunk_hybrid off chunk f =
     (case plan_hybrid_write (upper (index f)) off (length chunk) of
        Inl e \<Rightarrow> (Inl e, f)
      | Inr fragments \<Rightarrow>
          bindR (write_fragments chunk fragments None [] f) (\<lambda>inserted f.
          (Inr (), fold index_insert inserted f)))"

definition write_chunk_sparse :: "nat \<Rightarrow> byte list \<Rightarrow> LSMTFile \<Rightarrow> (unit, LSMTFile) outcome" where
  "write_chunk_sparse off chunk f =
     (let phys_offset = u64_add HEADER_SIZE off in
      bindR (on_data (vf_write_at phys_offset chunk) f) (\<lambda>_ f.
      (Inr (), index_insert (rw_mapping off (length chunk) phys_offset f) f)))"

definition absorb_or_drop :: "nat \<Rightarrow> byte list \<Rightarrow> AppendDigestTracker option \<Rightarrow> AppendDigestTracker option" where
  "absorb_or_drop off data t =
     (case t of
        None \<Rightarrow> None
      | Some state \<Rightarrow> (case absorb state off data of Inl _ \<Rightarrow> None | Inr state' \<Rightarrow> Some state'))"

definition write_chunk_log :: "nat \<Rightarrow> byte list \<Rightarrow> LSMTFile \<Rightarrow> (unit, LSMTFile) outcome" where
  "write_chunk_log off chunk f =
     bindR (data_append_offset f) (\<lambda>phys_offset f.
     bindR (on_data (vf_write_at phys_offset chunk) f) (\<lambda>_ f.
     bindR (advance_data_append_offset phys_offset (length chunk) f) (\<lambda>_ f.
     let f = f\<lparr>append_digest := absorb_or_drop phys_offset chunk (append_digest f)\<rparr>;
         m_mem = rw_mapping off (length chunk) phys_offset f;
         f = index_insert m_mem f
     in publish m_mem f)))"

definition write_chunk :: "nat \<Rightarrow> byte list \<Rightarrow> LSMTFile \<Rightarrow> (unit, LSMTFile) outcome" where
  "write_chunk off chunk f =
     (if file_type f = HybridReadWrite then write_chunk_hybrid off chunk f
      else if file_type f = SparseReadWrite then write_chunk_sparse off chunk f
      else write_chunk_log off chunk f)"

fun write_chunks :: "nat \<Rightarrow> nat \<Rightarrow> nat \<Rightarrow> byte list \<Rightarrow> nat \<Rightarrow> LSMTFile \<Rightarrow> (nat, LSMTFile) outcome" where
  "write_chunks 0 max_io off data total_written f =
     (if data = [] then (Inr total_written, f) else (Inl Diverges, f))"
| "write_chunks (Suc fuel) max_io off data total_written f =
     (if data = [] then (Inr total_written, f)
      else
        let chunk_len = min (length data) max_io;
            chunk = take chunk_len data
        in bindR (write_chunk off chunk f) (\<lambda>_ f.
           write_chunks fuel max_io (u64_add off chunk_len) (drop chunk_len data) (total_written + chunk_len) f))"

definition write_internal :: "nat \<Rightarrow> byte list \<Rightarrow> LSMTFile \<Rightarrow> (nat, LSMTFile) outcome" where
  "write_internal off data f =
     bindR (ensureR (\<not> sealed f) (Err ''File is sealed.'') f) (\<lambda>_ f.
     if data = [] then (Inr 0, f)
     else case check_alignment off (length data) of
            Inl e \<Rightarrow> (Inl e, f)
          | Inr _ \<Rightarrow> write_chunks (length data) (max_io_size f) off data 0 f)"

subsection \<open>Discarding\<close>

definition zero_mapping :: "nat \<Rightarrow> nat \<Rightarrow> LSMTFile \<Rightarrow> SegmentMapping" where
  "zero_mapping off len f = SegmentMapping_new off len NO_PHYSICAL_OFFSET True (as_u8 (rw_tag f))"

fun hybrid_zeros :: "LSMTFile \<Rightarrow> nat \<Rightarrow> nat \<Rightarrow> SegmentMapping list \<Rightarrow> SegmentMapping list" where
  "hybrid_zeros f current end_pos [] =
     (if current < end_pos then [zero_mapping current (as_u32 (u64_sub end_pos current)) f] else [])"
| "hybrid_zeros f current end_pos (m # ms) =
     (if current < m_offset m then [zero_mapping current (as_u32 (u64_sub (m_offset m) current)) f] else [])
     @ m\<lparr>zeroed := True\<rparr> # hybrid_zeros f (m_end m) end_pos ms"

fun publish_all :: "SegmentMapping list \<Rightarrow> LSMTFile \<Rightarrow> (unit, LSMTFile) outcome" where
  "publish_all [] f = (Inr (), f)"
| "publish_all (m # ms) f =
     bindR (publish m f) (\<lambda>_ f. publish_all ms (index_insert m f))"

definition discard_hybrid_range :: "nat \<Rightarrow> nat \<Rightarrow> LSMTFile \<Rightarrow> (unit, LSMTFile) outcome" where
  "discard_hybrid_range off len f =
     (let q = Segment_new (off div ALIGNMENT) (as_u32 (len div ALIGNMENT));
          mappings = MutableIndex_lookup (upper (index f)) q
      in publish_all (hybrid_zeros f (seg_offset q) (Segment_end q) mappings) f)"

definition discard_step :: "nat \<Rightarrow> nat \<Rightarrow> LSMTFile \<Rightarrow> (unit, LSMTFile) outcome" where
  "discard_step off step_bytes f =
     (if file_type f = HybridReadWrite then discard_hybrid_range off step_bytes f
      else
        bindR (if file_type f = SparseReadWrite
               then on_data (vf_discard (u64_add HEADER_SIZE off) step_bytes) f
               else (Inr (), f)) (\<lambda>_ f.
        let m_mem = zero_mapping (off div ALIGNMENT) (as_u32 (step_bytes div ALIGNMENT)) f;
            f = index_insert m_mem f
        in if file_type f \<noteq> SparseReadWrite then publish m_mem f else (Inr (), f)))"

fun discard_loop :: "nat \<Rightarrow> nat \<Rightarrow> nat \<Rightarrow> LSMTFile \<Rightarrow> (unit, LSMTFile) outcome" where
  "discard_loop 0 off remaining f = (if remaining = 0 then (Inr (), f) else (Inl Diverges, f))"
| "discard_loop (Suc fuel) off remaining f =
     (if remaining = 0 then (Inr (), f)
      else let step_bytes = min remaining (MAX_LENGTH * ALIGNMENT)
           in bindR (discard_step off step_bytes f) (\<lambda>_ f.
              discard_loop fuel (u64_add off step_bytes) (remaining - step_bytes) f))"

definition discard_range :: "nat \<Rightarrow> nat \<Rightarrow> LSMTFile \<Rightarrow> (unit, LSMTFile) outcome" where
  "discard_range off len f =
     bindR (ensureR (\<not> sealed f) (Err ''File is sealed.'') f) (\<lambda>_ f.
     if len = 0 then (Inr (), f)
     else bindR (ensureR (off mod ALIGNMENT = 0 \<and> len mod ALIGNMENT = 0) (Err ''discard must be aligned'') f) (\<lambda>_ f.
          discard_loop len off len f))"

subsection \<open>Reading\<close>

definition LSMTFile_read_at_into :: "LSMTFile \<Rightarrow> nat \<Rightarrow> byte list \<Rightarrow> (nat, byte list) outcome" where
  "LSMTFile_read_at_into f off dst =
     (if dst = [] then (Inr 0, dst)
      else read_internal_into (ComboIndex_lookup (index f)) (layers f) (virtual_size f) (max_io_size f) off dst)"

definition LSMTFile_read_at :: "LSMTFile \<Rightarrow> nat \<Rightarrow> nat \<Rightarrow> error + byte list" where
  "LSMTFile_read_at f off len =
     (if len = 0 \<or> off \<ge> virtual_size f then Inr []
      else case read_internal_into (ComboIndex_lookup (index f)) (layers f) (virtual_size f) (max_io_size f) off
                  (replicate (min len (virtual_size f - off)) 0) of
             (Inl e, _) \<Rightarrow> Inl e
           | (Inr n, buffer) \<Rightarrow> Inr (take n buffer))"

definition LSMTFile_seek_data :: "LSMTFile \<Rightarrow> nat \<Rightarrow> nat \<Rightarrow> Segment list \<Rightarrow> nat \<times> Segment list" where
  "LSMTFile_seek_data f begin_off end_off segs =
     (if end_off \<le> begin_off then (0, segs)
      else
        let begin_blk = begin_off div ALIGNMENT; end_blk = div_ceil end_off ALIGNMENT
        in if end_blk \<le> begin_blk then (0, segs)
           else
             let mappings = ComboIndex_lookup (index f) (Segment_new begin_blk (as_u32 (end_blk - begin_blk)));
                 segs = segs @ map (\<lambda>m. Segment_new (m_offset m) (m_length m)) (filter (\<lambda>m. \<not> zeroed m) mappings)
             in (length segs, segs))"

record DataStat =
  total_data_size :: nat
  valid_data_size :: nat

definition valid_blocks :: "SegmentMapping list \<Rightarrow> nat" where
  "valid_blocks ms = sum_list (map (\<lambda>m. m_length m * (if zeroed m then 0 else 1)) ms)"

definition LSMTFile_data_stat :: "LSMTFile \<Rightarrow> DataStat" where
  "LSMTFile_data_stat f =
     (let query = Segment_new 0 (as_u32 (div_ceil (virtual_size f) ALIGNMENT));
          mappings = ComboIndex_lookup (index f) query
      in \<lparr>total_data_size = vf_size (rw_data_file f) - HEADER_SIZE,
          valid_data_size = u64_mul (valid_blocks mappings) ALIGNMENT\<rparr>)"

subsection \<open>The device and the invariant\<close>

definition device :: "LSMTFile \<Rightarrow> nat \<Rightarrow> byte" where
  "device f = map_byte (layers f) (combo_map (index f))"

definition upper_map :: "LSMTFile \<Rightarrow> nat \<Rightarrow> cell option" where
  "upper_map f = imap (upper (index f))"

definition lower_map :: "LSMTFile \<Rightarrow> nat \<Rightarrow> cell option" where
  "lower_map f b = (case lower (index f) of None \<Rightarrow> None | Some l \<Rightarrow> imap l b)"

definition data_end :: "LSMTFile \<Rightarrow> nat" where
  "data_end f = (if file_type f = SparseReadWrite then vf_size (rw_data_file f) else rw_data_append_offset f)"

definition upper_cell_ok :: "LSMTFile \<Rightarrow> nat \<Rightarrow> cell \<Rightarrow> bool" where
  "upper_cell_ok f b c \<longleftrightarrow> cell_tag c = rw_tag f \<and>
     (case cell_phys c of
        None \<Rightarrow> cell_zeroed c
      | Some p \<Rightarrow> 8 \<le> p \<and> p * 512 + 512 \<le> data_end f \<and> (file_type f = SparseReadWrite \<longrightarrow> p = 8 + b))"

definition phys_inj :: "(nat \<Rightarrow> cell option) \<Rightarrow> bool" where
  "phys_inj u \<longleftrightarrow> (\<forall>b b' c c' p. u b = Some c \<longrightarrow> u b' = Some c' \<longrightarrow> cell_phys c = Some p \<longrightarrow>
     cell_phys c' = Some p \<longrightarrow> b = b')"

definition file_inv :: "LSMTFile \<Rightarrow> bool" where
  "file_inv f \<longleftrightarrow>
     combo_ok (index f) \<and> length (lower_files f) = rw_tag f \<and> rw_tag f < 2 ^ 8
     \<and> (\<forall>l\<in>set (layers f). vf_ok l)
     \<and> (\<forall>b c. upper_map f b = Some c \<longrightarrow> upper_cell_ok f b c) \<and> phys_inj (upper_map f)
     \<and> (\<forall>b c. lower_map f b = Some c \<longrightarrow> readable (lower_files f) c)
     \<and> file_type f \<noteq> ReadOnly
     \<and> (file_type f \<noteq> SparseReadWrite \<longrightarrow>
          rw_data_append_offset f mod 512 = 0 \<and> 4096 \<le> rw_data_append_offset f
          \<and> rw_data_append_offset f \<le> vf_size (rw_data_file f))
     \<and> 0 < max_io_size f \<and> max_io_size f mod 4096 = 0"

lemma combo_map_split: "combo_map (index f) b = over (upper_map f b) (lower_map f b)"
  by (simp add: combo_map_def upper_map_def lower_map_def)

lemma upper_insert:
  assumes "combo_ok (index f)" "mapping_ok m"
  shows "upper_map (index_insert m f) b = (if covers m b then Some (cell_at m b) else upper_map f b)"
    "lower_map (index_insert m f) = lower_map f" "combo_ok (index (index_insert m f))"
  using assms MutableIndex_insert_imap [of m "upper (index f)" b] ComboIndex_insert_ok(1) [OF assms]
  by (auto simp: upper_map_def lower_map_def index_insert_def ComboIndex_insert_def combo_ok_def)

lemma index_insert_simps [simp]:
  "lower_files (index_insert m f) = lower_files f" "rw_data_file (index_insert m f) = rw_data_file f"
  "rw_tag (index_insert m f) = rw_tag f" "file_type (index_insert m f) = file_type f"
  "rw_data_append_offset (index_insert m f) = rw_data_append_offset f"
  "max_io_size (index_insert m f) = max_io_size f" "layers (index_insert m f) = layers f"
  "virtual_size (index_insert m f) = virtual_size f" "sealed (index_insert m f) = sealed f"
  "data_end (index_insert m f) = data_end f"
  by (simp_all add: index_insert_def layers_def data_end_def)

text \<open>Every cell of the device can be read.\<close>

lemma device_readable:
  assumes "file_inv f" "combo_map (index f) b = Some c"
  shows "readable (layers f) c"
proof -
  have de: "data_end f \<le> vf_size (rw_data_file f)" using assms(1) by (auto simp: file_inv_def data_end_def)
  from assms(2) consider "upper_map f b = Some c" | "lower_map f b = Some c"
    by (auto simp: combo_map_split over_def split: option.splits)
  then show ?thesis
  proof cases
    case 1
    then have u: "upper_cell_ok f b c" using assms(1) by (simp add: file_inv_def)
    show ?thesis
    proof (cases "cell_phys c")
      case None
      then show ?thesis using u by (simp add: upper_cell_ok_def readable_def)
    next
      case (Some p)
      then show ?thesis using u de assms(1)
        by (auto simp: upper_cell_ok_def readable_def layers_def nth_append file_inv_def)
    qed
  next
    case 2
    then have "readable (lower_files f) c" using assms(1) by (simp add: file_inv_def)
    then show ?thesis by (auto simp: readable_def layers_def nth_append split: option.splits)
  qed
qed

text \<open>Reads return the device.\<close>

lemma read_at_into_device:
  assumes "file_inv f" "off mod 512 = 0" "length dst mod 512 = 0" "length dst < 2 ^ 40" "virtual_size f < 2 ^ 63"
  defines "n \<equiv> min (length dst) (virtual_size f - off)"
  shows "LSMTFile_read_at_into f off dst = (Inr n, map (device f) [off..<off + n] @ drop n dst)"
proof (cases "dst = []")
  case True
  then show ?thesis by (simp add: LSMTFile_read_at_into_def n_def)
next
  case False
  have "max_io_size f mod 512 = 0" using assms(1) mod_mod_cancel [of 512 4096 "max_io_size f"]
    by (auto simp: file_inv_def)
  then show ?thesis
    using combo_ix.read_internal_into_ok [of "index f" "layers f" "max_io_size f" off dst "virtual_size f"]
      assms device_readable [OF assms(1)] False
    by (simp add: LSMTFile_read_at_into_def file_inv_def device_def n_def)
qed

subsection \<open>One physical write\<close>

text \<open>
  The step that every layout performs: blocks \<open>B\<close> to \<open>B + n\<close> come to be backed by physical blocks
  \<open>P\<close> to \<open>P + n\<close> of the writable file, which no other block uses, and the data is stored there.
\<close>

lemma device_overlay:
  assumes len: "length d = n * 512" and tag: "length low = t"
    and cells: "\<And>k. k < n \<Longrightarrow> u' (B + k) = Some (Cell False (Some (P + k)) t)"
    and same: "\<And>b. \<not> (B \<le> b \<and> b < B + n) \<Longrightarrow> u' b = u b"
    and tags: "\<And>b c. u b = Some c \<Longrightarrow> \<not> cell_zeroed c \<Longrightarrow> cell_tag c \<le> t"
    and free: "\<And>b c p. \<not> (B \<le> b \<and> b < B + n) \<Longrightarrow> u b = Some c \<Longrightarrow> \<not> cell_zeroed c \<Longrightarrow> cell_tag c = t \<Longrightarrow>
       cell_phys c = Some p \<Longrightarrow> \<not> (P \<le> p \<and> p < P + n)"
  shows "map_byte (low @ [pwrite (P * 512) d D]) u' i = overlay (B * 512) d (map_byte (low @ [D]) u) i"
proof (cases "B * 512 \<le> i \<and> i < B * 512 + length d")
  case True
  define k where "k = i div 512 - B"
  have b: "B \<le> i div 512" using True by (subst less_eq_div_iff_mult_less_eq) simp_all
  have e: "i div 512 < B + n" using True len by (subst div_less_iff_less_mult) (simp_all add: algebra_simps)
  have k: "i div 512 = B + k" "k < n" using b e by (auto simp: k_def)
  have i: "i = (B + k) * 512 + i mod 512" using k(1) by (metis div_mult_mod_eq)
  then have "i - B * 512 = k * 512 + i mod 512" by (simp add: algebra_simps)
  moreover have "i mod 512 < 512" by simp
  moreover have "k * 512 + i mod 512 < length d" using k(2) len by linarith
  ultimately show ?thesis
    using True cells [OF k(2)] k(1) nth_append_length [of low "pwrite (P * 512) d D" "[]"] tag
    by (simp add: map_byte_def cell_byte_def overlay_def pwrite_byte algebra_simps)
next
  case False
  have nb: "\<not> (B \<le> i div 512 \<and> i div 512 < B + n)"
  proof
    assume "B \<le> i div 512 \<and> i div 512 < B + n"
    then have "B * 512 \<le> i" "i < (B + n) * 512"
      by (auto simp: less_eq_div_iff_mult_less_eq div_less_iff_less_mult)
    then show False using False len by (simp add: algebra_simps)
  qed
  have "cell_byte (low @ [pwrite (P * 512) d D]) (u (i div 512)) (i mod 512) = cell_byte (low @ [D]) (u (i div 512)) (i mod 512)"
  proof (cases "u (i div 512)")
    case (Some c)
    show ?thesis
    proof (cases "cell_zeroed c \<or> cell_phys c = None")
      case z: False
      then obtain p where p: "cell_phys c = Some p" "\<not> cell_zeroed c" by auto
      have t: "cell_tag c \<le> t" using tags Some p by blast
      have "\<not> (P * 512 \<le> p * 512 + i mod 512 \<and> p * 512 + i mod 512 < P * 512 + length d)" if "cell_tag c = t"
      proof -
        have "\<not> (P \<le> p \<and> p < P + n)" using free [OF nb Some p(2) that p(1)] .
        moreover have "i mod 512 < 512" by simp
        ultimately show ?thesis using len by linarith
      qed
      then show ?thesis using Some p t tag by (auto simp: cell_byte_def nth_append pwrite_byte)
    qed (use Some in \<open>auto simp: cell_byte_def\<close>)
  qed (simp add: cell_byte_def)
  then show ?thesis using False same [OF nb] by (auto simp: map_byte_def overlay_def)
qed

definition stored :: "nat \<Rightarrow> byte list \<Rightarrow> ComboIndex \<Rightarrow> nat \<Rightarrow> LSMTFile \<Rightarrow> LSMTFile" where
  "stored P d idx A g =
     g\<lparr>rw_data_file := pwrite (P * 512) d (rw_data_file g), index := idx, rw_data_append_offset := A\<rparr>"

lemma stored_simps [simp]:
  "rw_data_file (stored P d idx A g) = pwrite (P * 512) d (rw_data_file g)" "index (stored P d idx A g) = idx"
  "rw_data_append_offset (stored P d idx A g) = A" "lower_files (stored P d idx A g) = lower_files g"
  "rw_tag (stored P d idx A g) = rw_tag g" "file_type (stored P d idx A g) = file_type g"
  "max_io_size (stored P d idx A g) = max_io_size g" "virtual_size (stored P d idx A g) = virtual_size g"
  "sealed (stored P d idx A g) = sealed g"
  "layers (stored P d idx A g) = lower_files g @ [pwrite (P * 512) d (rw_data_file g)]"
  by (simp_all add: stored_def layers_def)

definition fresh_phys :: "(nat \<Rightarrow> cell option) \<Rightarrow> nat \<Rightarrow> nat \<Rightarrow> nat \<Rightarrow> bool" where
  "fresh_phys u B n P \<longleftrightarrow>
     (\<forall>b c p. \<not> (B \<le> b \<and> b < B + n) \<longrightarrow> u b = Some c \<longrightarrow> cell_phys c = Some p \<longrightarrow> \<not> (P \<le> p \<and> p < P + n))"

lemma phys_inj_upd:
  assumes inj: "phys_inj u" and fresh: "fresh_phys u B n P"
    and cells: "\<And>k. k < n \<Longrightarrow> u' (B + k) = Some (Cell False (Some (P + k)) t)"
    and same: "\<And>b. \<not> (B \<le> b \<and> b < B + n) \<Longrightarrow> u' b = u b"
  shows "phys_inj u'"
  unfolding phys_inj_def
proof (intro allI impI)
  fix b b' c c' p
  assume h: "u' b = Some c" "u' b' = Some c'" "cell_phys c = Some p" "cell_phys c' = Some p"
  have new: "p = P + (x - B)" if "B \<le> x \<and> x < B + n" "u' x = Some e" "cell_phys e = Some p" for x e
    using cells [of "x - B"] that by auto
  have old: "u x = Some e" if "\<not> (B \<le> x \<and> x < B + n)" "u' x = Some e" for x e
    using same that by auto
  consider "B \<le> b \<and> b < B + n" "B \<le> b' \<and> b' < B + n"
    | "B \<le> b \<and> b < B + n" "\<not> (B \<le> b' \<and> b' < B + n)"
    | "\<not> (B \<le> b \<and> b < B + n)" "B \<le> b' \<and> b' < B + n"
    | "\<not> (B \<le> b \<and> b < B + n)" "\<not> (B \<le> b' \<and> b' < B + n)" by blast
  then show "b = b'"
  proof cases
    case 1
    then show ?thesis using new [of b c] new [of b' c'] h by auto
  next
    case 2
    then show ?thesis using new [of b c] old [of b' c'] h fresh unfolding fresh_phys_def by fastforce
  next
    case 3
    then show ?thesis using new [of b' c'] old [of b c] h fresh unfolding fresh_phys_def by fastforce
  next
    case 4
    then show ?thesis using old h inj unfolding phys_inj_def by blast
  qed
qed

lemma stored_ok:
  assumes inv: "file_inv g" and len: "length d = n * 512" "0 < n"
    and idx: "combo_ok idx" "lower idx = lower (index g)"
    and cells: "\<And>k. k < n \<Longrightarrow> imap (upper idx) (B + k) = Some (Cell False (Some (P + k)) (rw_tag g))"
    and same: "\<And>b. \<not> (B \<le> b \<and> b < B + n) \<Longrightarrow> imap (upper idx) b = upper_map g b"
    and fresh: "fresh_phys (upper_map g) B n P"
    and P: "8 \<le> P" "(P + n) * 512 \<le> vf_limit (rw_data_file g)"
    and sp: "file_type g = SparseReadWrite \<Longrightarrow> P = 8 + B"
    and A: "file_type g \<noteq> SparseReadWrite \<Longrightarrow> rw_data_append_offset g \<le> A \<and> (P + n) * 512 \<le> A \<and> A mod 512 = 0
      \<and> (A = rw_data_append_offset g \<or> A = (P + n) * 512)"
  shows "file_inv (stored P d idx A g)" "device (stored P d idx A g) = overlay (B * 512) d (device g)"
proof -
  let ?g = "stored P d idx A g"
  have um: "upper_map ?g = imap (upper idx)" "lower_map ?g = lower_map g"
    using idx(2) by (auto simp: upper_map_def lower_map_def fun_eq_iff)
  have i: "length (lower_files g) = rw_tag g" "\<forall>l\<in>set (layers g). vf_ok l"
    "\<And>b c. upper_map g b = Some c \<Longrightarrow> upper_cell_ok g b c" "phys_inj (upper_map g)"
    using inv by (auto simp: file_inv_def)
  have dok: "vf_ok (rw_data_file g)" using i(2) by (simp add: layers_def)
  have wok: "vf_ok (pwrite (P * 512) d (rw_data_file g))"
    using P(2) len by (intro pwrite_ok [OF dok]) (simp add: algebra_simps)
  have sz: "vf_size (rw_data_file g) \<le> vf_size (pwrite (P * 512) d (rw_data_file g))"
    "n > 0 \<Longrightarrow> (P + n) * 512 \<le> vf_size (pwrite (P * 512) d (rw_data_file g))"
    using len by (auto simp: pwrite_size algebra_simps)
  have de: "data_end g \<le> data_end ?g" "n > 0 \<Longrightarrow> (P + n) * 512 \<le> data_end ?g"
    using sz A by (auto simp: data_end_def)
  have upok: "upper_cell_ok ?g b c" if "imap (upper idx) b = Some c" for b c
  proof (cases "B \<le> b \<and> b < B + n")
    case True
    then have k: "b - B < n" "B + (b - B) = b" by auto
    then have c: "c = Cell False (Some (P + (b - B))) (rw_tag g)" using cells [OF k(1)] that by simp
    have "(P + (b - B)) * 512 + 512 \<le> (P + n) * 512" using k(1) by simp
    also have "\<dots> \<le> data_end ?g" using de(2) k(1) by simp
    finally show ?thesis using c P(1) sp k by (simp add: upper_cell_ok_def)
  next
    case False
    then have "upper_map g b = Some c" using same that by simp
    then have "upper_cell_ok g b c" by (rule i(3))
    then show ?thesis using de(1) by (auto simp: upper_cell_ok_def split: option.splits)
  qed
  have inj: "phys_inj (imap (upper idx))" by (rule phys_inj_upd [OF i(4) fresh cells same])
  have "file_type g \<noteq> SparseReadWrite \<longrightarrow> A \<le> vf_size (pwrite (P * 512) d (rw_data_file g))"
  proof
    assume ns: "file_type g \<noteq> SparseReadWrite"
    then have a0: "rw_data_append_offset g \<le> vf_size (rw_data_file g)" using inv by (simp add: file_inv_def)
    show "A \<le> vf_size (pwrite (P * 512) d (rw_data_file g))"
      using A [OF ns] a0 sz len(2) by auto
  qed
  then show "file_inv ?g"
    using inv idx(1) wok upok inj um A i(2) by (auto simp: file_inv_def layers_def)
  show "device ?g = overlay (B * 512) d (device g)"
  proof
    fix x
    show "device ?g x = overlay (B * 512) d (device g) x"
      unfolding device_def stored_simps layers_def [of g]
    proof (rule device_overlay [OF len(1) i(1)])
      show "combo_map idx (B + k) = Some (Cell False (Some (P + k)) (rw_tag g))" if "k < n" for k
        using cells [OF that] by (simp add: combo_map_def over_def)
      show "combo_map idx b = combo_map (index g) b" if "\<not> (B \<le> b \<and> b < B + n)" for b
        using same [OF that] idx(2) by (simp add: combo_map_def over_def upper_map_def)
      show "cell_tag c \<le> rw_tag g" if "combo_map (index g) b = Some c" "\<not> cell_zeroed c" for b c
      proof -
        from device_readable [OF inv that(1)] that(2) i(1) show ?thesis
          by (auto simp: readable_def layers_def split: option.splits)
      qed
      show "\<not> (P \<le> p \<and> p < P + n)"
        if "\<not> (B \<le> b \<and> b < B + n)" "combo_map (index g) b = Some c" "\<not> cell_zeroed c"
          "cell_tag c = rw_tag g" "cell_phys c = Some p" for b c p
      proof -
        have "lower_map g b \<noteq> Some c"
        proof
          assume "lower_map g b = Some c"
          then have "readable (lower_files g) c" using inv by (simp add: file_inv_def)
          then show False using that i(1) by (auto simp: readable_def)
        qed
        then have "upper_map g b = Some c" using that(2)
          by (auto simp: combo_map_split over_def split: option.splits)
        then show ?thesis using fresh that unfolding fresh_phys_def by blast
      qed
    qed
  qed
qed

subsection \<open>Frames\<close>

text \<open>Publishing a mapping touches the index file and its cursor and buffer only.\<close>

definition index_frame :: "LSMTFile \<Rightarrow> LSMTFile \<Rightarrow> bool" where
  "index_frame f f' \<longleftrightarrow>
     (\<exists>x y z. f' = f\<lparr>rw_index_file := x, group_commit_buf := y, rw_index_append_offset := z\<rparr>)"

lemma index_frame_refl [simp]: "index_frame f f"
  unfolding index_frame_def
  by (rule exI [of _ "rw_index_file f"], rule exI [of _ "group_commit_buf f"],
      rule exI [of _ "rw_index_append_offset f"]) simp

lemma index_frame_trans: "index_frame f g \<Longrightarrow> index_frame g h \<Longrightarrow> index_frame f h"
  unfolding index_frame_def by (elim exE) (simp, blast)

lemma index_frame_upd:
  "index_frame f (f\<lparr>rw_index_file := x\<rparr>)" "index_frame f (f\<lparr>rw_index_append_offset := z\<rparr>)"
  "index_frame f (f\<lparr>group_commit_buf := y\<rparr>)"
  unfolding index_frame_def
    apply (rule exI [of _ x], rule exI [of _ "group_commit_buf f"], rule exI [of _ "rw_index_append_offset f"], simp)
   apply (rule exI [of _ "rw_index_file f"], rule exI [of _ "group_commit_buf f"], rule exI [of _ z], simp)
  apply (rule exI [of _ "rw_index_file f"], rule exI [of _ y], rule exI [of _ "rw_index_append_offset f"], simp)
  done

lemma bindR_frame:
  assumes "index_frame f (snd r)" "\<And>v s. r = (Inr v, s) \<Longrightarrow> index_frame s (snd (k v s))"
  shows "index_frame f (snd (bindR r k))"
proof (cases r)
  case (Pair a s)
  then show ?thesis using assms index_frame_trans by (cases a) auto
qed

lemma append_index_bytes_frame: "index_frame f (snd (append_index_bytes bs f))"
proof (cases "rw_index_file f")
  case (Some idx)
  show ?thesis
    unfolding append_index_bytes_def
    by (auto simp: Some index_append_offset_def ensureR_def on_index_file_def advance_index_append_offset_def
        intro!: bindR_frame index_frame_upd split: prod.splits option.splits)
qed (simp add: append_index_bytes_def)

lemma append_index_mapping_frame: "index_frame f (snd (append_index_mapping m f))"
proof -
  let ?f = "f\<lparr>group_commit_buf := group_commit_buf f @ [m]\<rparr>"
  have u: "index_frame f ?f" by (rule index_frame_upd)
  have "index_frame ?f (snd (bindR (append_index_bytes bs ?f) (\<lambda>_ f. (Inr (), f\<lparr>group_commit_buf := []\<rparr>))))" for bs
    by (rule bindR_frame [OF append_index_bytes_frame]) (simp add: index_frame_upd)
  then show ?thesis
    using append_index_bytes_frame u index_frame_trans [OF u] by (simp add: append_index_mapping_def Let_def)
qed

lemma publish_frame: "index_frame f (snd (publish m f))"
  by (simp add: publish_def append_index_mapping_frame)

lemma flush_frame: "index_frame f (snd (flush_group_commit f))"
  unfolding flush_group_commit_def
  by (auto intro!: bindR_frame append_index_bytes_frame index_frame_upd)

lemma index_frame_simps:
  assumes "index_frame f f'"
  shows "index f' = index f" "lower_files f' = lower_files f" "rw_data_file f' = rw_data_file f"
    "virtual_size f' = virtual_size f" "rw_tag f' = rw_tag f" "sealed f' = sealed f" "uuids f' = uuids f"
    "max_io_size f' = max_io_size f" "file_type f' = file_type f" "group_commit_size f' = group_commit_size f"
    "rw_data_append_offset f' = rw_data_append_offset f" "append_digest f' = append_digest f"
  using assms by (auto simp: index_frame_def)

text \<open>The device and the invariant do not depend on the index file.\<close>

definition core_eq :: "LSMTFile \<Rightarrow> LSMTFile \<Rightarrow> bool" where
  "core_eq f g \<longleftrightarrow>
     index f = index g \<and> lower_files f = lower_files g \<and> rw_data_file f = rw_data_file g
     \<and> virtual_size f = virtual_size g \<and> rw_tag f = rw_tag g \<and> sealed f = sealed g
     \<and> max_io_size f = max_io_size g \<and> file_type f = file_type g
     \<and> rw_data_append_offset f = rw_data_append_offset g"

lemma core_eq_inv:
  assumes "core_eq f g"
  shows "file_inv f \<longleftrightarrow> file_inv g"
proof -
  have "data_end f = data_end g" using assms by (simp add: core_eq_def data_end_def)
  then have "upper_cell_ok f = upper_cell_ok g"
    using assms by (simp add: fun_eq_iff upper_cell_ok_def core_eq_def split: option.split)
  moreover have "upper_map f = upper_map g" "lower_map f = lower_map g" "layers f = layers g"
    using assms by (auto simp: core_eq_def upper_map_def lower_map_def layers_def fun_eq_iff)
  ultimately show ?thesis using assms unfolding file_inv_def core_eq_def by simp
qed

lemma core_eq_device: "core_eq f g \<Longrightarrow> device f = device g"
  by (simp add: core_eq_def device_def layers_def)

lemma frame_core: "index_frame f f' \<Longrightarrow> core_eq f' f"
  by (simp add: core_eq_def index_frame_simps)

subsection \<open>Log-structured and sparse chunks\<close>

text \<open>What the callers of a write and of a discard keep.\<close>

definition same_shape :: "LSMTFile \<Rightarrow> LSMTFile \<Rightarrow> bool" where
  "same_shape f g \<longleftrightarrow> lower_files g = lower_files f \<and> virtual_size g = virtual_size f \<and> rw_tag g = rw_tag f
     \<and> sealed g = sealed f \<and> max_io_size g = max_io_size f \<and> file_type g = file_type f
     \<and> vf_limit (rw_data_file g) = vf_limit (rw_data_file f) \<and> lower (index g) = lower (index f)"

lemma same_shape_refl [simp]: "same_shape f f"
  by (simp add: same_shape_def)

lemma same_shape_trans: "same_shape f g \<Longrightarrow> same_shape g h \<Longrightarrow> same_shape f h"
  by (simp add: same_shape_def)

lemma core_eq_shape: "core_eq f g \<Longrightarrow> same_shape h f \<longleftrightarrow> same_shape h g"
  by (simp add: core_eq_def same_shape_def)

lemma data_mapping:
  assumes "rw_tag f < 2 ^ 8" "n < 2 ^ 32" "0 < n" "B + n < 2 ^ 64" "P + n \<le> NO_PHYSICAL_OFFSET"
  defines "m \<equiv> SegmentMapping_new B (as_u32 n) P False (as_u8 (rw_tag f))"
  shows "mapping_ok m" "covers m b \<longleftrightarrow> B \<le> b \<and> b < B + n"
    "k < n \<Longrightarrow> cell_at m (B + k) = Cell False (Some (P + k)) (rw_tag f)"
  using assms(1-5) unfolding m_def
  by (auto simp: mapping_ok_def covers_def cell_at_def has_physical_range_def nowrap)

lemma insert_stored:
  assumes "combo_ok (index f)" "rw_tag f < 2 ^ 8" "n < 2 ^ 32" "0 < n" "B + n < 2 ^ 64" "P + n \<le> NO_PHYSICAL_OFFSET"
  defines "idx \<equiv> ComboIndex_insert (index f) (SegmentMapping_new B (as_u32 n) P False (as_u8 (rw_tag f)))"
  shows "combo_ok idx" "lower idx = lower (index f)"
    "k < n \<Longrightarrow> imap (upper idx) (B + k) = Some (Cell False (Some (P + k)) (rw_tag f))"
    "\<not> (B \<le> b \<and> b < B + n) \<Longrightarrow> imap (upper idx) b = upper_map f b"
proof -
  note m = data_mapping [OF assms(2-6)]
  have u: "index_ok (upper (index f))" using assms(1) by (simp add: combo_ok_def)
  note i = MutableIndex_insert_imap [OF m(1) u]
  show "combo_ok idx" unfolding idx_def by (rule ComboIndex_insert_ok(1) [OF assms(1) m(1)])
  show "lower idx = lower (index f)" by (simp add: idx_def ComboIndex_insert_def)
  show "imap (upper idx) (B + k) = Some (Cell False (Some (P + k)) (rw_tag f))" if "k < n"
    using that m(2,3) by (simp add: idx_def ComboIndex_insert_def i)
  show "imap (upper idx) b = upper_map f b" if "\<not> (B \<le> b \<and> b < B + n)"
    using that m(2) by (auto simp: idx_def ComboIndex_insert_def i upper_map_def)
qed

text \<open>An appended run of blocks is fresh.\<close>

lemma append_fresh:
  assumes "file_inv f" "file_type f \<noteq> SparseReadWrite" "rw_data_append_offset f \<le> P * 512"
  shows "fresh_phys (upper_map f) B n P"
  unfolding fresh_phys_def
proof (intro allI impI notI)
  fix b c p assume h: "upper_map f b = Some c" "cell_phys c = Some p" "P \<le> p \<and> p < P + n"
  then have "p * 512 + 512 \<le> rw_data_append_offset f"
    using assms(1,2) by (force simp: file_inv_def upper_cell_ok_def data_end_def)
  then show False using h(3) assms(3) by linarith
qed

lemma limit_phys:
  assumes "file_inv f" "(P + n) * 512 \<le> vf_limit (rw_data_file f)"
  shows "P + n \<le> NO_PHYSICAL_OFFSET"
proof -
  have "vf_ok (rw_data_file f)" using assms(1) by (simp add: file_inv_def layers_def)
  then have "vf_limit (rw_data_file f) < 2 ^ 63" by (simp add: vf_ok_def)
  then show ?thesis using assms(2) by (simp add: NO_PHYSICAL_OFFSET_def)
qed

end
