(* ===== verification/Lsmt_Write.thy ===== *)
theory Lsmt_Write
  imports Lsmt_File
begin

text \<open>
  Correctness of the write path of \<^verbatim>\<open>lsmt/file/readwrite.rs\<close>: a chunk written to a log-structured,
  sparse or hybrid layer overlays exactly its range of the device and keeps the invariant. The hybrid
  plan partitions the chunk into runs that are stored in place, reuse a retained range or are appended;
  its fragments are followed one by one on the file in which every pending mapping is already inserted.
\<close>

definition chunk_done :: "nat \<Rightarrow> byte list \<Rightarrow> LSMTFile \<Rightarrow> LSMTFile \<Rightarrow> bool" where
  "chunk_done off chunk f f' \<longleftrightarrow>
     file_inv f' \<and> same_shape f f' \<and> device f' = overlay off chunk (device f)"

lemma chunk_done_core: "core_eq f' g \<Longrightarrow> chunk_done off chunk f g \<Longrightarrow> chunk_done off chunk f f'"
  using core_eq_inv core_eq_device core_eq_shape by (auto simp: chunk_done_def)

lemma on_data_Inr:
  "on_data op f = (Inr v, f') \<longleftrightarrow> (\<exists>d. op (rw_data_file f) = (Inr v, d) \<and> f' = f\<lparr>rw_data_file := d\<rparr>)"
  by (auto simp: on_data_def split: prod.splits)

lemma advance_data_Inr:
  "advance_data_append_offset s n f = (Inr v, f') \<longleftrightarrow>
     s + n < 2 ^ 64 \<and> rw_data_append_offset f = s \<and> f' = f\<lparr>rw_data_append_offset := s + n\<rparr>"
  by (auto simp: advance_data_append_offset_def checked_add_u64_def)

lemma aligned_blocks:
  fixes off :: nat
  assumes "off mod 512 = 0" "length chunk mod 512 = 0" "chunk \<noteq> []"
  obtains B n where "off = B * 512" "length chunk = n * 512" "0 < n"
proof -
  have "off = off div 512 * 512" "length chunk = length chunk div 512 * 512" using assms by auto
  moreover have "0 < length chunk div 512" using assms by (cases "length chunk < 512") auto
  ultimately show ?thesis using that by blast
qed

lemma write_chunk_log_ok:
  assumes inv: "file_inv f" and ty: "file_type f = ReadWrite"
    and al: "off mod 512 = 0" "length chunk mod 512 = 0" "chunk \<noteq> []" "length chunk < 2 ^ 40" "off + length chunk < 2 ^ 64"
    and w: "write_chunk_log off chunk f = (Inr v, f')"
  shows "chunk_done off chunk f f'"
proof -
  obtain B n where Bn: "off = B * 512" "length chunk = n * 512" "0 < n" using aligned_blocks [OF al(1-3)] .
  have i: "combo_ok (index f)" "rw_tag f < 2 ^ 8" "rw_data_append_offset f mod 512 = 0" "4096 \<le> rw_data_append_offset f"
    using inv ty by (auto simp: file_inv_def)
  define P where "P = rw_data_append_offset f div 512"
  have P: "rw_data_append_offset f = P * 512" using i(3) unfolding P_def by auto
  define g where "g = f\<lparr>rw_data_file := pwrite (P * 512) chunk (rw_data_file f),
      rw_data_append_offset := P * 512 + length chunk,
      append_digest := absorb_or_drop (P * 512) chunk (append_digest f)\<rparr>"
  define m where "m = rw_mapping off (length chunk) (P * 512) g"
  have lim: "P * 512 + length chunk \<le> vf_limit (rw_data_file f)"
    and pub: "publish m (index_insert m g) = (Inr v, f')"
    using w vf_write_at_Inr [of "P * 512" chunk "rw_data_file f"] al(3)
    by (auto simp: write_chunk_log_def bindR_eq_Inr data_append_offset_def on_data_Inr advance_data_Inr P g_def m_def
        Let_def)
  have m: "m = SegmentMapping_new B (as_u32 n) P False (as_u8 (rw_tag f))"
    using Bn by (simp add: m_def rw_mapping_def ALIGNMENT_def g_def)
  have n32: "n < 2 ^ 32" "B + n < 2 ^ 64" using al(4,5) Bn by auto
  have lim': "(P + n) * 512 \<le> vf_limit (rw_data_file f)" using lim Bn by (simp add: algebra_simps)
  note ins = insert_stored [OF i(1,2) n32(1) Bn(3) n32(2) limit_phys [OF inv lim'], folded m]
  let ?idx = "ComboIndex_insert (index f) m"
  have fr: "fresh_phys (upper_map f) B n P" by (rule append_fresh) (use inv ty P in auto)
  have "file_inv (stored P chunk ?idx (P * 512 + length chunk) f)"
    "device (stored P chunk ?idx (P * 512 + length chunk) f) = overlay (B * 512) chunk (device f)"
    using i(4) P ty Bn lim'
    by (intro stored_ok [OF inv Bn(2,3) ins fr]; simp add: algebra_simps)+
  then have "chunk_done off chunk f (stored P chunk ?idx (P * 512 + length chunk) f)"
    using Bn(1) by (simp add: chunk_done_def same_shape_def)
  moreover have "core_eq f' (stored P chunk ?idx (P * 512 + length chunk) f)"
  proof -
    have "core_eq f' (index_insert m g)"
      using frame_core [OF publish_frame [of "index_insert m g" m]] pub by simp
    then show ?thesis by (simp add: core_eq_def stored_def index_insert_def g_def)
  qed
  ultimately show ?thesis by (rule chunk_done_core [rotated])
qed

lemma write_chunk_sparse_ok:
  assumes inv: "file_inv f" and ty: "file_type f = SparseReadWrite"
    and al: "off mod 512 = 0" "length chunk mod 512 = 0" "chunk \<noteq> []" "length chunk < 2 ^ 40" "off + length chunk < 2 ^ 63"
    and w: "write_chunk_sparse off chunk f = (Inr v, f')"
  shows "chunk_done off chunk f f'"
proof -
  obtain B n where Bn: "off = B * 512" "length chunk = n * 512" "0 < n" using aligned_blocks [OF al(1-3)] .
  have i: "combo_ok (index f)" "rw_tag f < 2 ^ 8" using inv by (auto simp: file_inv_def)
  have ph: "u64_add HEADER_SIZE off = (8 + B) * 512" using Bn al(5) by (simp add: HEADER_SIZE_def nowrap)
  define g where "g = f\<lparr>rw_data_file := pwrite ((8 + B) * 512) chunk (rw_data_file f)\<rparr>"
  define m where "m = rw_mapping off (length chunk) ((8 + B) * 512) g"
  have lim: "(8 + B) * 512 + length chunk \<le> vf_limit (rw_data_file f)" and f': "f' = index_insert m g"
    using w vf_write_at_Inr [of "(8 + B) * 512" chunk "rw_data_file f"] al(3)
    unfolding write_chunk_sparse_def Let_def ph by (auto simp: bindR_eq_Inr on_data_Inr g_def m_def)
  have m: "m = SegmentMapping_new B (as_u32 n) (8 + B) False (as_u8 (rw_tag f))"
    using Bn unfolding m_def rw_mapping_def ALIGNMENT_def by (simp add: g_def)
  have n32: "n < 2 ^ 32" "B + n < 2 ^ 64" using al(4,5) Bn by auto
  have lim': "(8 + B + n) * 512 \<le> vf_limit (rw_data_file f)" using lim Bn by (simp add: algebra_simps)
  note ins = insert_stored [OF i n32(1) Bn(3) n32(2) limit_phys [OF inv lim'], folded m]
  let ?idx = "ComboIndex_insert (index f) m"
  have fr: "fresh_phys (upper_map f) B n (8 + B)"
    using inv ty by (force simp: fresh_phys_def file_inv_def upper_cell_ok_def)
  have "file_inv (stored (8 + B) chunk ?idx (rw_data_append_offset f) f)"
    "device (stored (8 + B) chunk ?idx (rw_data_append_offset f) f) = overlay (B * 512) chunk (device f)"
    using ty lim' by (intro stored_ok [OF inv Bn(2,3) ins fr]; simp)+
  moreover have "f' = stored (8 + B) chunk ?idx (rw_data_append_offset f) f"
    by (simp add: f' g_def index_insert_def stored_def)
  ultimately show ?thesis using Bn(1) by (simp add: chunk_done_def same_shape_def)
qed

subsection \<open>Hybrid chunks\<close>

text \<open>
  A plan for blocks \<open>s + d\<close> to \<open>s + e\<close> of the device: the fragments follow each other in the data, an
  in-place fragment covers blocks that are stored at its physical run, a reuse fragment covers zeroed
  blocks whose physical run is retained.
\<close>

fun plan_ok :: "(nat \<Rightarrow> cell option) \<Rightarrow> nat \<Rightarrow> nat \<Rightarrow> nat \<Rightarrow> nat \<Rightarrow> WriteFragment list \<Rightarrow> bool" where
  "plan_ok U t s d e [] \<longleftrightarrow> d = e"
| "plan_ok U t s d e (InPlace off len ph # fs) \<longleftrightarrow>
     (\<exists>n p. 0 < n \<and> off = d * 512 \<and> len = n * 512 \<and> ph = p * 512
        \<and> (\<forall>k<n. U (s + d + k) = Some (Cell False (Some (p + k)) t)) \<and> plan_ok U t s (d + n) e fs)"
| "plan_ok U t s d e (ReuseZero lo off len ph # fs) \<longleftrightarrow>
     (\<exists>n p. 0 < n \<and> lo = (s + d) * 512 \<and> off = d * 512 \<and> len = n * 512 \<and> ph = p * 512
        \<and> (\<forall>k<n. U (s + d + k) = Some (Cell True (Some (p + k)) t)) \<and> plan_ok U t s (d + n) e fs)"
| "plan_ok U t s d e (Append lo off len # fs) \<longleftrightarrow>
     (\<exists>n. 0 < n \<and> lo = (s + d) * 512 \<and> off = d * 512 \<and> len = n * 512 \<and> plan_ok U t s (d + n) e fs)"

lemma plan_ok_le: "plan_ok U t s d e fs \<Longrightarrow> d \<le> e"
proof (induction fs arbitrary: d)
  case (Cons x fs)
  then show ?case by (cases x) force+
qed simp

lemma plan_ok_append: "plan_ok U t s d d' fs \<Longrightarrow> plan_ok U t s d' e gs \<Longrightarrow> plan_ok U t s d e (fs @ gs)"
proof (induction fs arbitrary: d)
  case (Cons x fs)
  then show ?case by (cases x) fastforce+
qed simp

lemma plan_loop_ok:
  assumes "index_ok ms" "\<forall>m\<in>set ms. s + d \<le> m_offset m \<and> m_offset m + m_length m \<le> s + e"
    and "\<forall>m\<in>set ms. tag m = t \<and> (\<forall>b. covers m b \<longrightarrow> U b = Some (cell_at m b))"
    and "d \<le> e" "(s + e) * 512 < 2 ^ 64"
  shows "\<exists>d' fs. plan_loop s (s + e) ms (s + d) acc = Inr (s + d', acc @ fs) \<and> d \<le> d' \<and> d' \<le> e
    \<and> plan_ok U t s d d' fs"
  using assms
proof (induction ms arbitrary: d acc)
  case Nil
  then show ?case by (intro exI [of _ d] exI [of _ "[]"]) simp
next
  case (Cons m ms)
  have m: "mapping_ok m" "0 < m_length m" "index_ok ms" "\<forall>n\<in>set ms. disjoint_before m n"
    "s + d \<le> m_offset m" "m_offset m + m_length m \<le> s + e" "tag m = t"
    "\<And>b. covers m b \<Longrightarrow> U b = Some (cell_at m b)"
    using Cons.prems by (auto simp: index_ok_Cons)
  obtain y where y: "m_offset m = s + (d + y)" using m(5) by (metis add.assoc le_Suc_ex)
  define l where "l = m_length m"
  have le: "d + y + l \<le> e" "0 < l" using m(2,6) y by (auto simp: l_def)
  have en: "m_end m = s + (d + y + l)" using m(1) y by (simp add: nowrap l_def)
  have big: "(s + d) * 512 < 2 ^ 64" "(s + (d + y)) * 512 < 2 ^ 64" "d * 512 < 2 ^ 64" "(d + y) * 512 < 2 ^ 64"
    "y * 512 < 2 ^ 64" "l * 512 < 2 ^ 64"
    using Cons.prems(5) le unfolding add_mult_distrib by linarith+
  note u = u64_mul_nowrap [unfolded ALIGNMENT_def]
  have mo: "moffset m < 2 ^ 64" using m(1) by (simp add: mapping_ok_def NO_PHYSICAL_OFFSET_def)
  have mo5: "has_physical_range m \<Longrightarrow> moffset m * 512 < 2 ^ 64"
    using m(1) m(2) by (auto simp: mapping_ok_def NO_PHYSICAL_OFFSET_def)
  define gap where "gap = (if y = 0 then [] else [Append ((s + d) * 512) (d * 512) (y * 512)])"
  define fr where "fr = (if zeroed m \<and> \<not> has_physical_range m then Append ((s + (d + y)) * 512) ((d + y) * 512) (l * 512)
     else if zeroed m then ReuseZero ((s + (d + y)) * 512) ((d + y) * 512) (l * 512) (moffset m * 512)
     else InPlace ((d + y) * 512) (l * 512) (moffset m * 512))"
  have cov: "covers m (s + (d + y) + k)" if "k < l" for k using that y by (simp add: covers_def l_def)
  have cell: "U (s + (d + y) + k) = Some (Cell (zeroed m) (if has_physical_range m then Some (moffset m + k) else None) t)"
    if "k < l" for k
    using m(8) [OF cov [OF that]] y m(7) by (simp add: cell_at_def)
  have hp: "zeroed m \<or> has_physical_range m" using m(1) by (simp add: mapping_ok_def)
  have "plan_ok U t s (d + y) (d + y + l) [fr]"
    using le(2) cell hp by (auto simp: fr_def)
  then have pl: "plan_ok U t s d (d + y + l) (gap @ [fr])"
    by (rule plan_ok_append [rotated]) (simp add: gap_def)
  have step: "plan_loop s (s + e) (m # ms) (s + d) acc
      = plan_loop s (s + e) ms (s + (d + y + l)) ((acc @ gap) @ [fr])"
    using le y en big hp mo mo5
    by (auto simp: gap_def fr_def u64_mul_nowrap ALIGNMENT_def nowrap Let_def checked_add_u64_def min_def
        split: if_splits)
  have "\<exists>d' fs. plan_loop s (s + e) ms (s + (d + y + l)) ((acc @ gap) @ [fr]) = Inr (s + d', ((acc @ gap) @ [fr]) @ fs)
    \<and> d + y + l \<le> d' \<and> d' \<le> e \<and> plan_ok U t s (d + y + l) d' fs"
    using Cons.prems m(3,4) y le by (intro Cons.IH) (auto simp: disjoint_before_def l_def)
  then obtain d' fs where r: "plan_loop s (s + e) ms (s + (d + y + l)) ((acc @ gap) @ [fr]) = Inr (s + d', ((acc @ gap) @ [fr]) @ fs)"
    "d + y + l \<le> d'" "d' \<le> e" "plan_ok U t s (d + y + l) d' fs" by blast
  have "plan_ok U t s d d' ((gap @ [fr]) @ fs)" by (rule plan_ok_append [OF pl r(4)])
  then show ?case using step r(1-3) by (intro exI [of _ d'] exI [of _ "(gap @ [fr]) @ fs"]) simp
qed

lemma plan_hybrid_write_ok:
  assumes up: "index_ok up" "\<And>b c. imap up b = Some c \<Longrightarrow> cell_tag c = t"
    and al: "off = s * 512" "len = e * 512" "e < 2 ^ 32" "(s + e) * 512 < 2 ^ 64"
  shows "\<exists>fs. plan_hybrid_write up off len = Inr fs \<and> plan_ok (imap up) t s 0 e fs"
proof -
  let ?q = "Segment_new s e"
  have q: "segment_ok ?q" using al(3,4) by (simp add: segment_ok_def)
  note lk = rw_ix.lookup_ok [OF up(1) q] rw_ix.lookup_mem [OF up(1) q] rw_ix.lookup_bounds [OF up(1) q]
  have tags: "tag m = t \<and> (\<forall>b. covers m b \<longrightarrow> imap up b = Some (cell_at m b))" if "m \<in> set (MutableIndex_lookup up ?q)" for m
  proof -
    have "covers m (m_offset m)" using lk(1) that by (auto simp: covers_def index_ok_def)
    then have "imap up (m_offset m) = Some (cell_at m (m_offset m))" using lk(2) [OF that] by blast
    then have "cell_tag (cell_at m (m_offset m)) = t" by (rule up(2))
    then show ?thesis using lk(2) [OF that] by (simp add: cell_at_def)
  qed
  have "\<exists>d' fs. plan_loop s (s + e) (MutableIndex_lookup up ?q) (s + 0) [] = Inr (s + d', [] @ fs) \<and> 0 \<le> d' \<and> d' \<le> e
    \<and> plan_ok (imap up) t s 0 d' fs"
    by (rule plan_loop_ok) (use lk(1,3,4) tags al(4) in auto)
  then obtain d' fs where r: "plan_loop s (s + e) (MutableIndex_lookup up ?q) s [] = Inr (s + d', fs)" "d' \<le> e"
    "plan_ok (imap up) t s 0 d' fs" by auto
  let ?fs = "if d' < e then fs @ [Append ((s + d') * 512) (d' * 512) ((e - d') * 512)] else fs"
  have "plan_ok (imap up) t s d' e [Append ((s + d') * 512) (d' * 512) ((e - d') * 512)]" if "d' < e"
    using that by simp
  then have "plan_ok (imap up) t s 0 e ?fs" using r plan_ok_append [OF r(3)] by auto
  moreover have "plan_hybrid_write up off len = Inr ?fs"
  proof -
    have "(s + d') * 512 < 2 ^ 64" "d' * 512 < 2 ^ 64" "(e - d') * 512 < 2 ^ 64" "s + e < 2 ^ 64"
      using al(4) r(2) unfolding add_mult_distrib by linarith+
    then show ?thesis
      using r(1) r(2) al by (simp add: plan_hybrid_write_def Let_def ALIGNMENT_def nowrap u64_mul_nowrap)
  qed
  ultimately show ?thesis by blast
qed

lemma subslice_join: "subslice a m xs @ subslice (a + m) k xs = subslice a (m + k) xs"
  unfolding subslice_def take_add drop_drop by (simp add: add.commute)

lemma fold_index_insert:
  "fold index_insert ms f = f\<lparr>index := fold (\<lambda>m i. ComboIndex_insert i m) ms (index f)\<rparr>"
  by (induction ms arbitrary: f) (simp_all add: index_insert_def)

lemma checked_slice_Inr:
  "checked_slice a n xs f = (Inr d, f') \<longleftrightarrow> a + n \<le> length xs \<and> d = subslice a n xs \<and> f' = f"
  by (auto simp: checked_slice_def)

lemma retained_fresh:
  assumes "phys_inj u" "\<And>k. k < n \<Longrightarrow> \<exists>z. u (B + k) = Some (Cell z (Some (p + k)) t)"
  shows "fresh_phys u B n p"
  unfolding fresh_phys_def
proof (intro allI impI notI)
  fix b c q
  assume h: "\<not> (B \<le> b \<and> b < B + n)" "u b = Some c" "cell_phys c = Some q" "p \<le> q \<and> q < p + n"
  have k: "q - p < n" "p + (q - p) = q" using h(4) by auto
  obtain z where "u (B + (q - p)) = Some (Cell z (Some q) t)" using assms(2) [OF k(1)] k(2) by auto
  then have "B + (q - p) = b" using assms(1) h(2,3) unfolding phys_inj_def by fastforce
  then show False using h(1) k(1) by auto
qed

lemma retained_bounds:
  assumes inv: "file_inv g" "file_type g \<noteq> SparseReadWrite" and n: "0 < n"
    and cells: "\<And>k. k < n \<Longrightarrow> \<exists>z. upper_map g (B + k) = Some (Cell z (Some (p + k)) t)"
  shows "8 \<le> p" "(p + n) * 512 \<le> rw_data_append_offset g" "(p + n) * 512 \<le> vf_limit (rw_data_file g)" "t = rw_tag g"
proof -
  have c: "upper_cell_ok g b c" if "upper_map g b = Some c" for b c using inv(1) that by (simp add: file_inv_def)
  obtain z where z: "upper_map g B = Some (Cell z (Some p) t)" using cells [OF n] by auto
  then show "8 \<le> p" "t = rw_tag g" using c by (force simp: upper_cell_ok_def)+
  obtain k where k: "n = Suc k" using n by (cases n) auto
  obtain z where "upper_map g (B + k) = Some (Cell z (Some (p + k)) t)" using cells [of k] k by auto
  from c [OF this] inv(2) k show a: "(p + n) * 512 \<le> rw_data_append_offset g"
    by (simp add: upper_cell_ok_def data_end_def)
  have "rw_data_append_offset g \<le> vf_size (rw_data_file g)" "vf_ok (rw_data_file g)"
    using inv by (auto simp: file_inv_def layers_def)
  then show "(p + n) * 512 \<le> vf_limit (rw_data_file g)" using a by (simp add: vf_ok_def)
qed

text \<open>The effect of one fragment on the file in which all pending mappings are inserted.\<close>

lemma inplace_stored:
  assumes inv: "file_inv g" "file_type g = HybridReadWrite" and len: "length d = n * 512" "0 < n"
    and cells: "\<And>k. k < n \<Longrightarrow> upper_map g (B + k) = Some (Cell False (Some (p + k)) t)"
  shows "chunk_done (B * 512) d g (g\<lparr>rw_data_file := pwrite (p * 512) d (rw_data_file g)\<rparr>)"
proof -
  have ns: "file_type g \<noteq> SparseReadWrite" using inv(2) by simp
  have c: "\<exists>z. upper_map g (B + k) = Some (Cell z (Some (p + k)) t)" if "k < n" for k using cells [OF that] by blast
  note rb = retained_bounds [OF inv(1) ns len(2) c]
  have i: "combo_ok (index g)" "phys_inj (upper_map g)" "rw_data_append_offset g mod 512 = 0"
    using inv by (auto simp: file_inv_def)
  have eq: "g\<lparr>rw_data_file := pwrite (p * 512) d (rw_data_file g)\<rparr> = stored p d (index g) (rw_data_append_offset g) g"
    by (simp add: stored_def)
  have "imap (upper (index g)) (B + k) = Some (Cell False (Some (p + k)) (rw_tag g))" if "k < n" for k
    using cells [OF that] rb(4) by (simp add: upper_map_def)
  from stored_ok [OF inv(1) len i(1) refl this _ retained_fresh [OF i(2) c] rb(1,3), of "rw_data_append_offset g"] ns i(3) rb(2)
  show ?thesis unfolding eq chunk_done_def by (simp add: same_shape_def upper_map_def)
qed

lemma insert_stored_done:
  assumes inv: "file_inv g" "file_type g = HybridReadWrite" and len: "length d = n * 512" "0 < n"
    and sz: "n < 2 ^ 32" "B + n < 2 ^ 64" "8 \<le> P" "(P + n) * 512 \<le> vf_limit (rw_data_file g)"
    and fr: "fresh_phys (upper_map g) B n P"
    and A: "rw_data_append_offset g \<le> A \<and> (P + n) * 512 \<le> A \<and> A mod 512 = 0
      \<and> (A = rw_data_append_offset g \<or> A = (P + n) * 512)"
  defines "m \<equiv> SegmentMapping_new B (as_u32 n) P False (as_u8 (rw_tag g))"
  shows "chunk_done (B * 512) d g (index_insert m (g\<lparr>rw_data_file := pwrite (P * 512) d (rw_data_file g),
    rw_data_append_offset := A\<rparr>))"
proof -
  have i: "combo_ok (index g)" "rw_tag g < 2 ^ 8" using inv by (auto simp: file_inv_def)
  note ins = insert_stored [OF i sz(1) len(2) sz(2) limit_phys [OF inv(1) sz(4)], folded m_def]
  have eq: "index_insert m (g\<lparr>rw_data_file := pwrite (P * 512) d (rw_data_file g), rw_data_append_offset := A\<rparr>)
     = stored P d (ComboIndex_insert (index g) m) A g"
    by (simp add: stored_def index_insert_def)
  from stored_ok [OF inv(1) len ins fr sz(3,4), of A] inv(2) A show ?thesis
    unfolding eq chunk_done_def by (simp add: same_shape_def)
qed

lemma chunk_done_trans:
  assumes "chunk_done off a f g" "chunk_done (off + length a) b g h"
  shows "chunk_done off (a @ b) f h"
  using assms same_shape_trans overlay_append [of off a b "device f"] by (auto simp: chunk_done_def)

lemma chunk_done_Nil: "file_inv f \<Longrightarrow> chunk_done off [] f f"
  by (simp add: chunk_done_def)

lemma vf_write_at_InrD:
  "vf_write_at off buf f = (Inr n, f') \<Longrightarrow>
     f' = pwrite off buf f \<and> (0 < length buf \<longrightarrow> off + length buf \<le> vf_limit f)"
  using vf_write_at_Inr [of off buf f n f'] by (cases buf) auto

lemma pending_insert:
  assumes "index_frame (f\<lparr>rw_data_file := D, rw_data_append_offset := A\<rparr>) f2"
  shows "core_eq (fold index_insert (ins @ [m]) f2)
    (index_insert m ((fold index_insert ins f)\<lparr>rw_data_file := D, rw_data_append_offset := A\<rparr>))"
  using index_frame_simps [OF assms]
  by (simp add: fold_index_insert index_insert_def core_eq_def)

lemma pending_data:
  "fold index_insert ins (f\<lparr>rw_data_file := D\<rparr>) = (fold index_insert ins f)\<lparr>rw_data_file := D\<rparr>"
  by (simp add: fold_index_insert)

lemma pending_simps [simp]:
  "rw_data_file (fold index_insert ins f) = rw_data_file f" "rw_tag (fold index_insert ins f) = rw_tag f"
  "rw_data_append_offset (fold index_insert ins f) = rw_data_append_offset f"
  "file_type (fold index_insert ins f) = file_type f"
  by (simp_all add: fold_index_insert)

lemma core_eq_upper: "core_eq f g \<Longrightarrow> upper_map f = upper_map g"
  by (simp add: core_eq_def upper_map_def)

lemma upper_insert_outside:
  assumes "file_inv g" "n < 2 ^ 32" "0 < n" "B + n < 2 ^ 64" "(P + n) * 512 \<le> vf_limit (rw_data_file g)" "\<not> (B \<le> b \<and> b < B + n)"
  shows "upper_map (index_insert (SegmentMapping_new B (as_u32 n) P False (as_u8 (rw_tag g)))
    (g\<lparr>rw_data_file := D, rw_data_append_offset := A\<rparr>)) b = upper_map g b"
proof -
  have i: "combo_ok (index g)" "rw_tag g < 2 ^ 8" using assms(1) by (auto simp: file_inv_def)
  from insert_stored(4) [OF i assms(2-4) limit_phys [OF assms(1,5)] assms(6)]
  show ?thesis by (simp add: upper_map_def index_insert_def)
qed

lemma rw_mapping_blocks:
  "rw_mapping (B * 512) (n * 512) (P * 512) f = SegmentMapping_new B (as_u32 n) P False (as_u8 (rw_tag f))"
  "rw_mapping (s * 512 + d * 512) (n * 512) (P * 512) f = SegmentMapping_new (s + d) (as_u32 n) P False (as_u8 (rw_tag f))"
  by (simp_all add: rw_mapping_def ALIGNMENT_def)

lemma publish_pending:
  assumes g: "file_inv (fold index_insert ins f)" "file_type f = HybridReadWrite"
    and len: "length d = n * 512" "0 < n" "n < 2 ^ 32" "B + n < 2 ^ 64"
    and P: "8 \<le> P" "(P + n) * 512 \<le> vf_limit (rw_data_file f)"
    and fr: "fresh_phys (upper_map (fold index_insert ins f)) B n P"
    and A: "rw_data_append_offset f \<le> A \<and> (P + n) * 512 \<le> A \<and> A mod 512 = 0
      \<and> (A = rw_data_append_offset f \<or> A = (P + n) * 512)"
    and pub: "publish m (f\<lparr>rw_data_file := pwrite (P * 512) d (rw_data_file f), rw_data_append_offset := A\<rparr>) = (Inr v, f2)"
    and m: "m = SegmentMapping_new B (as_u32 n) P False (as_u8 (rw_tag f))"
  shows "chunk_done (B * 512) d (fold index_insert ins f) (fold index_insert (ins @ [m]) f2)"
    "\<not> (B \<le> b \<and> b < B + n) \<Longrightarrow>
       upper_map (fold index_insert (ins @ [m]) f2) b = upper_map (fold index_insert ins f) b"
    "rw_data_append_offset f2 = A" "file_type f2 = HybridReadWrite" "rw_tag f2 = rw_tag f"
proof -
  have fr2: "index_frame (f\<lparr>rw_data_file := pwrite (P * 512) d (rw_data_file f), rw_data_append_offset := A\<rparr>) f2"
    using publish_frame [of "f\<lparr>rw_data_file := pwrite (P * 512) d (rw_data_file f), rw_data_append_offset := A\<rparr>" m] pub
    by simp
  note ce = pending_insert [OF fr2, of ins m]
  have "chunk_done (B * 512) d (fold index_insert ins f)
    (index_insert m ((fold index_insert ins f)\<lparr>rw_data_file := pwrite (P * 512) d (rw_data_file f), rw_data_append_offset := A\<rparr>))"
    using insert_stored_done [of "fold index_insert ins f" d n B P A] g len P fr A by (simp add: m)
  then show "chunk_done (B * 512) d (fold index_insert ins f) (fold index_insert (ins @ [m]) f2)"
    by (rule chunk_done_core [OF ce])
  show "upper_map (fold index_insert (ins @ [m]) f2) b = upper_map (fold index_insert ins f) b"
    if "\<not> (B \<le> b \<and> b < B + n)"
    unfolding core_eq_upper [OF ce] using upper_insert_outside [OF g(1) len(3,2,4) _ that, of P] P(2) by (simp add: m)
  show "rw_data_append_offset f2 = A" "file_type f2 = HybridReadWrite" "rw_tag f2 = rw_tag f"
    using index_frame_simps [OF fr2] g(2) by auto
qed

text \<open>
  One fragment: the data it covers is on the device of the file in which the pending mappings are
  inserted, and either the bytes were stored in place or one mapping was published and is now pending.
\<close>

definition frag_stored :: "nat \<Rightarrow> nat \<Rightarrow> byte list \<Rightarrow> LSMTFile \<Rightarrow> SegmentMapping list \<Rightarrow> LSMTFile
    \<Rightarrow> SegmentMapping list \<Rightarrow> bool" where
  "frag_stored B n d f ins f2 ins2 \<longleftrightarrow>
     (\<exists>P. 8 \<le> P \<and> (P + n) * 512 \<le> rw_data_append_offset f
        \<and> f2 = f\<lparr>rw_data_file := pwrite (P * 512) d (rw_data_file f)\<rparr> \<and> ins2 = ins)
   \<or> (\<exists>P A m. m = SegmentMapping_new B (as_u32 n) P False (as_u8 (rw_tag f)) \<and> ins2 = ins @ [m]
        \<and> (P + n) * 512 \<le> vf_limit (rw_data_file f)
        \<and> publish m (f\<lparr>rw_data_file := pwrite (P * 512) d (rw_data_file f), rw_data_append_offset := A\<rparr>) = (Inr (), f2)
        \<and> (8 \<le> P \<and> (P + n) * 512 \<le> rw_data_append_offset f \<and> A = rw_data_append_offset f
           \<or> P * 512 = rw_data_append_offset f \<and> A = rw_data_append_offset f + n * 512))"

definition frag_next :: "(nat \<Rightarrow> cell option) \<Rightarrow> nat \<Rightarrow> nat \<Rightarrow> nat \<Rightarrow> byte list \<Rightarrow> WriteFragment list \<Rightarrow> nat
    \<Rightarrow> LSMTFile \<Rightarrow> SegmentMapping list \<Rightarrow> nat option \<Rightarrow> LSMTFile \<Rightarrow> SegmentMapping list \<Rightarrow> bool" where
  "frag_next U s d n chunk fs e f ins nxt2 f2 ins2 \<longleftrightarrow>
     0 < n \<and> plan_ok U (rw_tag f) s (d + n) e fs \<and> d * 512 + n * 512 \<le> length chunk
     \<and> chunk_done ((s + d) * 512) (subslice (d * 512) (n * 512) chunk) (fold index_insert ins f) (fold index_insert ins2 f2)
     \<and> file_type f2 = HybridReadWrite \<and> rw_tag f2 = rw_tag f
     \<and> (\<forall>b\<ge>s + d + n. upper_map (fold index_insert ins2 f2) b = upper_map (fold index_insert ins f) b)
     \<and> (nxt2 = None \<or> nxt2 = Some (rw_data_append_offset f2))
     \<and> frag_stored (s + d) n (subslice (d * 512) (n * 512) chunk) f ins f2 ins2"

lemma length_chunk_slice: "d * 512 + n * 512 \<le> length chunk \<Longrightarrow> length (subslice (d * 512) (n * 512) chunk) = n * 512"
  by (simp add: subslice_def)

lemma fragment_inplace:
  assumes inv: "file_inv (fold index_insert ins f)" "file_type f = HybridReadWrite"
    and plan: "0 < n" "plan_ok U (rw_tag f) s (d + n) e fs"
      "\<And>k. k < n \<Longrightarrow> upper_map (fold index_insert ins f) (s + d + k) = Some (Cell False (Some (p + k)) (rw_tag f))"
    and nxt: "nxt = None \<or> nxt = Some (rw_data_append_offset f)"
    and w: "write_fragments chunk (InPlace (d * 512) (n * 512) (p * 512) # fs) nxt ins f = (Inr ins', f')"
  shows "\<exists>f2. frag_next U s d n chunk fs e f ins nxt f2 ins \<and> write_fragments chunk fs nxt ins f2 = (Inr ins', f')"
proof -
  let ?g = "fold index_insert ins f"
  let ?d = "subslice (d * 512) (n * 512) chunk"
  let ?f = "f\<lparr>rw_data_file := pwrite (p * 512) ?d (rw_data_file f)\<rparr>"
  have fit: "d * 512 + n * 512 \<le> length chunk" and rest: "write_fragments chunk fs nxt ins ?f = (Inr ins', f')"
    using w by (auto simp: bindR_eq_Inr checked_slice_Inr on_data_Inr dest: vf_write_at_Inr(1))
  have "chunk_done ((s + d) * 512) ?d ?g (fold index_insert ins ?f)"
    using inplace_stored [OF inv(1) _ length_chunk_slice [OF fit] plan(1), of "s + d" p "rw_tag f"] inv(2) plan(3)
    by (simp add: pending_data)
  moreover have c: "\<exists>z. upper_map ?g (s + d + k) = Some (Cell z (Some (p + k)) (rw_tag f))" if "k < n" for k
    using plan(3) [OF that] by blast
  have "file_type ?g \<noteq> SparseReadWrite" using inv(2) by simp
  from retained_bounds(1,2) [OF inv(1) this plan(1) c]
  have "frag_stored (s + d) n ?d f ins ?f ins" unfolding frag_stored_def by auto
  ultimately show ?thesis
    using rest fit plan(1,2) inv(2) nxt by (intro exI [of _ ?f]) (simp add: frag_next_def pending_data upper_map_def)
qed

lemma fragment_reuse:
  assumes inv: "file_inv (fold index_insert ins f)" "file_type f = HybridReadWrite"
    and plan: "0 < n" "plan_ok U (rw_tag f) s (d + n) e fs"
      "\<And>k. k < n \<Longrightarrow> upper_map (fold index_insert ins f) (s + d + k) = Some (Cell True (Some (p + k)) (rw_tag f))"
    and sz: "n < 2 ^ 32" "s + d + n < 2 ^ 64"
    and nxt: "nxt = None \<or> nxt = Some (rw_data_append_offset f)"
    and w: "write_fragments chunk (ReuseZero ((s + d) * 512) (d * 512) (n * 512) (p * 512) # fs) nxt ins f = (Inr ins', f')"
  shows "\<exists>f2 ins2. frag_next U s d n chunk fs e f ins nxt f2 ins2 \<and> write_fragments chunk fs nxt ins2 f2 = (Inr ins', f')"
proof -
  let ?g = "fold index_insert ins f"
  let ?d = "subslice (d * 512) (n * 512) chunk"
  let ?A = "rw_data_append_offset f"
  let ?f = "f\<lparr>rw_data_file := pwrite (p * 512) ?d (rw_data_file f), rw_data_append_offset := ?A\<rparr>"
  define m where "m = SegmentMapping_new (s + d) (as_u32 n) p False (as_u8 (rw_tag f))"
  obtain f2 where fit: "d * 512 + n * 512 \<le> length chunk" and pub: "publish m ?f = (Inr (), f2)"
    and rest: "write_fragments chunk fs nxt (ins @ [m]) f2 = (Inr ins', f')"
    using w by (auto simp: bindR_eq_Inr checked_slice_Inr on_data_Inr Let_def rw_mapping_blocks m_def
        dest!: vf_write_at_Inr(1))
  have an: "?A mod 512 = 0" "phys_inj (upper_map ?g)" using inv by (auto simp: file_inv_def)
  have c: "\<exists>z. upper_map ?g (s + d + k) = Some (Cell z (Some (p + k)) (rw_tag f))" if "k < n" for k
    using plan(3) [OF that] by blast
  have "file_type ?g \<noteq> SparseReadWrite" using inv(2) by simp
  note rb = retained_bounds [OF inv(1) this plan(1) c]
  note pp = publish_pending [OF inv length_chunk_slice [OF fit] plan(1) sz rb(1) _ retained_fresh [OF an(2) c] _ pub m_def]
  have "chunk_done ((s + d) * 512) ?d ?g (fold index_insert (ins @ [m]) f2)"
    by (rule pp(1)) (use rb an in auto)
  moreover have "upper_map (fold index_insert (ins @ [m]) f2) b = upper_map ?g b" if "s + d + n \<le> b" for b
    by (rule pp(2)) (use rb an that in auto)
  moreover have "rw_data_append_offset f2 = ?A" "file_type f2 = HybridReadWrite" "rw_tag f2 = rw_tag f"
    by (rule pp(3-5); use rb an in auto)+
  moreover have "frag_stored (s + d) n ?d f ins f2 (ins @ [m])"
    unfolding frag_stored_def using rb pub m_def
    by (intro disjI2 exI [of _ p] exI [of _ ?A] exI [of _ m]) simp
  ultimately show ?thesis
    using rest fit plan(1,2) nxt by (intro exI [of _ f2] exI [of _ "ins @ [m]"]) (simp add: frag_next_def)
qed

lemma fragment_append:
  assumes inv: "file_inv (fold index_insert ins f)" "file_type f = HybridReadWrite"
    and plan: "0 < n" "plan_ok U (rw_tag f) s (d + n) e fs"
    and sz: "n < 2 ^ 32" "s + d + n < 2 ^ 64"
    and nxt: "nxt = None \<or> nxt = Some (rw_data_append_offset f)"
    and w: "write_fragments chunk (Append ((s + d) * 512) (d * 512) (n * 512) # fs) nxt ins f = (Inr ins', f')"
  shows "\<exists>nxt2 f2 ins2. frag_next U s d n chunk fs e f ins nxt2 f2 ins2
    \<and> write_fragments chunk fs nxt2 ins2 f2 = (Inr ins', f')"
proof -
  let ?g = "fold index_insert ins f"
  let ?d = "subslice (d * 512) (n * 512) chunk"
  have an: "rw_data_append_offset f mod 512 = 0" "4096 \<le> rw_data_append_offset f" using inv by (auto simp: file_inv_def)
  define P where "P = rw_data_append_offset f div 512"
  have P: "rw_data_append_offset f = P * 512" using an(1) unfolding P_def by auto
  let ?A = "(P + n) * 512"
  let ?f = "f\<lparr>rw_data_file := pwrite (P * 512) ?d (rw_data_file f), rw_data_append_offset := ?A\<rparr>"
  define m where "m = SegmentMapping_new (s + d) (as_u32 n) P False (as_u8 (rw_tag f))"
  have ph: "(case nxt of None \<Rightarrow> data_append_offset f | Some off \<Rightarrow> (Inr off, f)) = (Inr (P * 512), f)"
    using nxt an(1) by (auto simp: data_append_offset_def ensureR_def P ALIGNMENT_def)
  obtain f2 where fit: "d * 512 + n * 512 \<le> length chunk" and pub: "publish m ?f = (Inr (), f2)"
    and lim: "P * 512 + n * 512 \<le> vf_limit (rw_data_file f)"
    and rest: "write_fragments chunk fs (Some ?A) (ins @ [m]) f2 = (Inr ins', f')"
    using w plan(1) length_chunk_slice [of d n chunk]
    by (auto simp: bindR_eq_Inr checked_slice_Inr on_data_Inr Let_def rw_mapping_blocks m_def ph advance_data_Inr
        checked_add_u64_def add_mult_distrib simp del: length_greater_0_conv
        dest!: vf_write_at_InrD split: if_splits)
  have fr: "fresh_phys (upper_map ?g) (s + d) n P" by (rule append_fresh) (use inv P in auto)
  note pp = publish_pending [OF inv length_chunk_slice [OF fit] plan(1) sz _ _ fr _ pub m_def]
  have "chunk_done ((s + d) * 512) ?d ?g (fold index_insert (ins @ [m]) f2)"
    by (rule pp(1)) (use an P lim in auto)
  moreover have "upper_map (fold index_insert (ins @ [m]) f2) b = upper_map ?g b" if "s + d + n \<le> b" for b
    by (rule pp(2)) (use an P lim that in auto)
  moreover have "rw_data_append_offset f2 = ?A" "file_type f2 = HybridReadWrite" "rw_tag f2 = rw_tag f"
    by (rule pp(3-5); use an P lim in auto)+
  moreover have "frag_stored (s + d) n ?d f ins f2 (ins @ [m])"
    unfolding frag_stored_def using pub m_def lim P
    by (intro disjI2 exI [of _ P] exI [of _ ?A] exI [of _ m]) (simp add: algebra_simps)
  ultimately show ?thesis
    using rest fit plan by (intro exI [of _ "Some ?A"] exI [of _ f2] exI [of _ "ins @ [m]"]) (simp add: frag_next_def)
qed

lemma fragment_step:
  assumes plan: "plan_ok U (rw_tag f) s d e (x # fs)"
    and inv: "file_inv (fold index_insert ins f)" "file_type f = HybridReadWrite"
    and up: "\<forall>b\<ge>s + d. upper_map (fold index_insert ins f) b = U b"
    and nxt: "nxt = None \<or> nxt = Some (rw_data_append_offset f)"
    and sz: "e < 2 ^ 32" "s + e < 2 ^ 64"
    and w: "write_fragments chunk (x # fs) nxt ins f = (Inr ins', f')"
  obtains n nxt2 f2 ins2 where "frag_next U s d n chunk fs e f ins nxt2 f2 ins2"
    "write_fragments chunk fs nxt2 ins2 f2 = (Inr ins', f')"
proof (cases x)
  case (InPlace off len ph)
  then obtain n p where p: "0 < n" "off = d * 512" "len = n * 512" "ph = p * 512"
    "\<forall>k<n. U (s + d + k) = Some (Cell False (Some (p + k)) (rw_tag f))" "plan_ok U (rw_tag f) s (d + n) e fs"
    using plan by auto
  show ?thesis using fragment_inplace [OF inv p(1,6) _ nxt, of p chunk ins' f'] up p w InPlace that by auto
next
  case (ReuseZero lo off len ph)
  then obtain n p where p: "0 < n" "lo = (s + d) * 512" "off = d * 512" "len = n * 512" "ph = p * 512"
    "\<forall>k<n. U (s + d + k) = Some (Cell True (Some (p + k)) (rw_tag f))" "plan_ok U (rw_tag f) s (d + n) e fs"
    using plan by auto
  have "n < 2 ^ 32" "s + d + n < 2 ^ 64" using plan_ok_le [OF p(7)] sz by auto
  then show ?thesis using fragment_reuse [OF inv p(1,7) _ _ _ nxt, of p chunk ins' f'] up p w ReuseZero that by auto
next
  case (Append lo off len)
  then obtain n where p: "0 < n" "lo = (s + d) * 512" "off = d * 512" "len = n * 512" "plan_ok U (rw_tag f) s (d + n) e fs"
    using plan by auto
  have "n < 2 ^ 32" "s + d + n < 2 ^ 64" using plan_ok_le [OF p(5)] sz by auto
  then show ?thesis using fragment_append [OF inv p(1,5) _ _ nxt, of chunk ins' f'] p w Append that by auto
qed

lemma write_fragments_ok:
  assumes "plan_ok U (rw_tag f) s d e fs" "file_inv (fold index_insert ins f)" "file_type f = HybridReadWrite"
    and "\<forall>b\<ge>s + d. upper_map (fold index_insert ins f) b = U b"
    and "nxt = None \<or> nxt = Some (rw_data_append_offset f)" "e < 2 ^ 32" "s + e < 2 ^ 64"
    and "write_fragments chunk fs nxt ins f = (Inr ins', f')"
  shows "chunk_done ((s + d) * 512) (subslice (d * 512) ((e - d) * 512) chunk)
    (fold index_insert ins f) (fold index_insert ins' f')"
  using assms
proof (induction fs arbitrary: d nxt ins f)
  case Nil
  then show ?case by (simp add: subslice_def chunk_done_Nil)
next
  case (Cons x fs)
  let ?g = "fold index_insert ins f"
  obtain n nxt2 f2 ins2 where
    nx: "frag_next U s d n chunk fs e f ins nxt2 f2 ins2" and w: "write_fragments chunk fs nxt2 ins2 f2 = (Inr ins', f')"
    using fragment_step [OF Cons.prems] by blast
  have c: "chunk_done ((s + d) * 512) (subslice (d * 512) (n * 512) chunk) ?g (fold index_insert ins2 f2)"
    and le: "d + n \<le> e" "d * 512 + n * 512 \<le> length chunk"
    using nx plan_ok_le by (auto simp: frag_next_def)
  have "chunk_done ((s + (d + n)) * 512) (subslice ((d + n) * 512) ((e - (d + n)) * 512) chunk)
      (fold index_insert ins2 f2) (fold index_insert ins' f')"
    using nx Cons.prems(4,6,7) w by (intro Cons.IH) (auto simp: frag_next_def chunk_done_def)
  moreover have "subslice (d * 512) (n * 512) chunk @ subslice ((d + n) * 512) ((e - (d + n)) * 512) chunk
      = subslice (d * 512) ((e - d) * 512) chunk"
    using subslice_join [of "d * 512" "n * 512" chunk "(e - (d + n)) * 512"] le(1) by (simp add: algebra_simps)
  ultimately show ?case
    using chunk_done_trans [OF c, of "subslice ((d + n) * 512) ((e - (d + n)) * 512) chunk" "fold index_insert ins' f'"]
      length_chunk_slice [OF le(2)] by (simp add: algebra_simps)
qed

lemma hybrid_plan:
  assumes "file_inv f" "off = B * 512" "len = n * 512" "n < 2 ^ 32" "(B + n) * 512 < 2 ^ 64"
  shows "\<exists>fs. plan_hybrid_write (upper (index f)) off len = Inr fs \<and> plan_ok (upper_map f) (rw_tag f) B 0 n fs"
  unfolding upper_map_def
proof (rule plan_hybrid_write_ok [OF _ _ assms(2-5)])
  show "cell_tag c = rw_tag f" if "imap (upper (index f)) b = Some c" for b c
    using assms(1) that by (auto simp: file_inv_def combo_ok_def upper_cell_ok_def upper_map_def)
  show "index_ok (upper (index f))" using assms(1) by (simp add: file_inv_def combo_ok_def)
qed

lemma write_chunk_hybrid_ok:
  assumes inv: "file_inv f" and ty: "file_type f = HybridReadWrite"
    and al: "off mod 512 = 0" "length chunk mod 512 = 0" "chunk \<noteq> []" "length chunk < 2 ^ 40" "off + length chunk < 2 ^ 64"
    and w: "write_chunk_hybrid off chunk f = (Inr v, f')"
  shows "chunk_done off chunk f f'"
proof -
  obtain B n where Bn: "off = B * 512" "length chunk = n * 512" "0 < n" using aligned_blocks [OF al(1-3)] .
  have sz: "n < 2 ^ 32" "(B + n) * 512 < 2 ^ 64" using al(4,5) Bn by auto
  from hybrid_plan [OF inv Bn(1,2) sz] obtain fs where
    fs: "plan_hybrid_write (upper (index f)) off (length chunk) = Inr fs"
    "plan_ok (upper_map f) (rw_tag f) B 0 n fs" by blast
  from w obtain ins' f1 where r: "write_fragments chunk fs None [] f = (Inr ins', f1)" "f' = fold index_insert ins' f1"
    by (auto simp: write_chunk_hybrid_def fs(1) bindR_eq_Inr)
  have "chunk_done ((B + 0) * 512) (subslice (0 * 512) ((n - 0) * 512) chunk) (fold index_insert [] f) (fold index_insert ins' f1)"
    by (rule write_fragments_ok [OF fs(2) _ ty _ _ sz(1) _ r(1)]) (use inv sz(2) in auto)
  then show ?thesis using Bn r(2) by (simp add: subslice_def)
qed

lemma write_chunk_ok:
  assumes "file_inv f" "off mod 512 = 0" "length chunk mod 512 = 0" "chunk \<noteq> []" "length chunk < 2 ^ 40"
    "off + length chunk < 2 ^ 63" "write_chunk off chunk f = (Inr v, f')"
  shows "chunk_done off chunk f f'"
proof (cases "file_type f")
  case ReadOnly
  then show ?thesis using assms(1) by (simp add: file_inv_def)
next
  case ReadWrite
  then show ?thesis using assms by (intro write_chunk_log_ok) (auto simp: write_chunk_def)
next
  case SparseReadWrite
  then show ?thesis using assms by (intro write_chunk_sparse_ok) (auto simp: write_chunk_def)
next
  case HybridReadWrite
  then show ?thesis using assms by (intro write_chunk_hybrid_ok) (auto simp: write_chunk_def)
qed

lemma write_chunks_ok:
  assumes "file_inv f" "0 < mio" "mio mod 512 = 0" "off mod 512 = 0" "length data mod 512 = 0" "length data < 2 ^ 40"
    "off + length data < 2 ^ 63" "write_chunks fuel mio off data tot f = (Inr n, f')"
  shows "n = tot + length data \<and> chunk_done off data f f'"
  using assms
proof (induction fuel arbitrary: off data tot f)
  case 0
  then show ?case by (auto simp: chunk_done_Nil split: if_splits)
next
  case (Suc fuel)
  show ?case
  proof (cases "data = []")
    case True
    then show ?thesis using Suc.prems by (auto simp: chunk_done_Nil)
  next
    case False
    define k where "k = min (length data) mio"
    have k: "0 < k" "k \<le> length data" "k mod 512 = 0" using False Suc.prems by (auto simp: k_def min_def)
    have u: "u64_add off k = off + k" using Suc.prems(7) k by (simp add: nowrap)
    from Suc.prems(8) False obtain v f1 where w: "write_chunk off (take k data) f = (Inr v, f1)"
      "write_chunks fuel mio (off + k) (drop k data) (tot + k) f1 = (Inr n, f')"
      by (auto simp: k_def [symmetric] Let_def bindR_eq_Inr u)
    have lt: "length (take k data) = k" using k(2) by simp
    have c: "chunk_done off (take k data) f f1"
      using write_chunk_ok [OF Suc.prems(1,4) _ _ _ _ w(1)] lt k Suc.prems(6,7) False by auto
    have "(off + k) mod 512 = 0" "length (drop k data) mod 512 = 0"
      using Suc.prems(4,5) k by (auto simp: mod_eq_0_iff_dvd dvd_diff_nat)
    then have "n = tot + k + length (drop k data) \<and> chunk_done (off + k) (drop k data) f1 f'"
      using c Suc.prems k by (intro Suc.IH [OF _ Suc.prems(2,3) _ _ _ _ w(2)]) (auto simp: chunk_done_def)
    moreover have "chunk_done off (take k data @ drop k data) f f'" if "chunk_done (off + k) (drop k data) f1 f'"
      using that lt chunk_done_trans [OF c, of "drop k data" f'] by simp
    ultimately show ?thesis using k(2) by auto
  qed
qed

lemma max_io_512: "file_inv f \<Longrightarrow> 0 < max_io_size f \<and> max_io_size f mod 512 = 0"
  using mod_mod_cancel [of 512 4096 "max_io_size f"] by (auto simp: file_inv_def)

lemma write_internal_done:
  assumes "file_inv f" "length data < 2 ^ 40" "off + length data < 2 ^ 63" "write_internal off data f = (Inr n, f')"
  shows "n = length data \<and> chunk_done off data f f'"
proof (cases "data = []")
  case True
  then show ?thesis using assms by (auto simp: write_internal_def bindR_eq_Inr chunk_done_Nil)
next
  case False
  then have al: "off mod 512 = 0" "length data mod 512 = 0" "write_chunks (length data) (max_io_size f) off data 0 f = (Inr n, f')"
    using assms(4) by (auto simp: write_internal_def bindR_eq_Inr check_alignment_def ALIGNMENT_def split: if_splits)
  then show ?thesis
    using write_chunks_ok [OF assms(1) _ _ al(1,2) assms(2,3) al(3)] max_io_512 [OF assms(1)] by simp
qed

subsection \<open>Writes do not panic and do not diverge\<close>

definition sane :: "(error + 'a) \<Rightarrow> bool" where
  "sane r \<longleftrightarrow> r \<noteq> Inl Panic \<and> r \<noteq> Inl Diverges"

lemma sane_Inr [simp]: "sane (Inr x)" "sane (Inl (Err m))" "sane (Inl NoSpace)"
  by (simp_all add: sane_def)

lemma sane_bindR:
  assumes "sane (fst r)" "\<And>v s. r = (Inr v, s) \<Longrightarrow> sane (fst (k v s))"
  shows "sane (fst (bindR r k))"
proof (cases r)
  case (Pair a s)
  then show ?thesis using assms by (cases a) (auto simp: sane_def)
qed

lemma sane_vf_write_at: "sane (fst (vf_write_at off buf f))"
  unfolding vf_write_at_def write_all_at_def Let_def
  by (auto simp: sane_def)

lemma sane_on_data: "sane (fst (op (rw_data_file f))) \<Longrightarrow> sane (fst (on_data op f))"
  by (auto simp: on_data_def split: prod.splits)

lemma sane_append_index_bytes: "sane (fst (append_index_bytes bs f))"
proof (cases "rw_index_file f")
  case (Some idx)
  have "sane (fst (on_index_file idx (vf_write_at off bs) g))" for off g
    using sane_vf_write_at [of off bs idx] by (auto simp: on_index_file_def split: prod.splits)
  then show ?thesis
    by (auto simp: append_index_bytes_def Some index_append_offset_def ensureR_def advance_index_append_offset_def
        intro!: sane_bindR split: option.splits)
qed (simp add: append_index_bytes_def)

lemma sane_publish: "sane (fst (publish m f))"
  by (auto simp: publish_def append_index_mapping_def Let_def sane_append_index_bytes intro!: sane_bindR)

lemma sane_advance: "sane (fst (advance_data_append_offset s n f))"
  by (auto simp: advance_data_append_offset_def split: option.splits)

lemma sane_data_append_offset: "sane (fst (data_append_offset f))"
  by (auto simp: data_append_offset_def ensureR_def)

lemmas sane_steps = sane_vf_write_at sane_on_data sane_publish sane_advance sane_data_append_offset

lemma sane_write_fragments:
  assumes "plan_ok U t s d e fs" "e * 512 \<le> length chunk"
  shows "sane (fst (write_fragments chunk fs nxt ins f))"
  using assms
proof (induction fs arbitrary: d nxt ins f)
  case (Cons x fs)
  have slice: "sane (fst (checked_slice (d * 512) (n * 512) chunk g))" if "plan_ok U t s (d + n) e fs" for n g
    using plan_ok_le [OF that] Cons.prems(2) by (simp add: checked_slice_def)
  show ?case
  proof (cases x)
    case (InPlace a b c)
    then show ?thesis using Cons.prems slice Cons.IH
      by (auto simp del: write_fragments.simps(1) intro!: sane_bindR sane_steps)
  next
    case (ReuseZero a b c d')
    then show ?thesis using Cons.prems slice Cons.IH
      by (auto simp: Let_def simp del: write_fragments.simps(1) intro!: sane_bindR sane_steps)
  next
    case (Append a b c)
    then show ?thesis using Cons.prems slice Cons.IH
      by (auto simp: Let_def simp del: write_fragments.simps(1) intro!: sane_bindR sane_steps split: option.splits)
  qed
qed simp

lemma sane_write_chunk:
  assumes inv: "file_inv f"
    and al: "off mod 512 = 0" "length chunk mod 512 = 0" "chunk \<noteq> []" "length chunk < 2 ^ 40" "off + length chunk < 2 ^ 63"
  shows "sane (fst (write_chunk off chunk f))"
proof -
  obtain B n where Bn: "off = B * 512" "length chunk = n * 512" "0 < n" using aligned_blocks [OF al(1-3)] .
  have sz: "n < 2 ^ 32" "(B + n) * 512 < 2 ^ 64" using al(4,5) Bn by auto
  from hybrid_plan [OF inv Bn(1,2) sz] obtain fs where
    fs: "plan_hybrid_write (upper (index f)) off (length chunk) = Inr fs"
    "plan_ok (upper_map f) (rw_tag f) B 0 n fs" by blast
  have "sane (fst (write_chunk_hybrid off chunk f))"
    unfolding write_chunk_hybrid_def fs(1) using sane_write_fragments [OF fs(2), of chunk] Bn(2)
    by (auto intro!: sane_bindR)
  then show ?thesis
    by (auto simp: write_chunk_def write_chunk_sparse_def write_chunk_log_def Let_def intro!: sane_bindR sane_steps)
qed

lemma sane_write_chunks:
  assumes "file_inv f" "0 < mio" "mio mod 512 = 0" "off mod 512 = 0" "length data mod 512 = 0" "length data < 2 ^ 40"
    "off + length data < 2 ^ 63" "length data \<le> fuel"
  shows "sane (fst (write_chunks fuel mio off data tot f))"
  using assms
proof (induction fuel arbitrary: off data tot f)
  case (Suc fuel)
  show ?case
  proof (cases "data = []")
    case False
    define k where "k = min (length data) mio"
    have k: "0 < k" "k \<le> length data" "k mod 512 = 0" using False Suc.prems by (auto simp: k_def min_def)
    have u: "u64_add off k = off + k" using Suc.prems(7) k by (simp add: nowrap)
    have lt: "length (take k data) = k" using k(2) by simp
    have al: "(off + k) mod 512 = 0" "length (drop k data) mod 512 = 0"
      using Suc.prems(4,5) k by (auto simp: mod_eq_0_iff_dvd dvd_diff_nat)
    have "sane (fst (write_chunk off (take k data) f))"
      using sane_write_chunk [OF Suc.prems(1,4), of "take k data"] lt k Suc.prems(6,7) False by auto
    moreover have "sane (fst (write_chunks fuel mio (off + k) (drop k data) (tot + k) f1))"
      if w: "write_chunk off (take k data) f = (Inr v, f1)" for v f1
    proof -
      have "chunk_done off (take k data) f f1"
        using write_chunk_ok [OF Suc.prems(1,4) _ _ _ _ w] lt k Suc.prems(6,7) False by auto
      then show ?thesis using al Suc.prems k by (intro Suc.IH) (auto simp: chunk_done_def)
    qed
    ultimately show ?thesis using False
      by (auto simp: k_def [symmetric] Let_def u intro!: sane_bindR)
  qed simp
qed simp

lemma sane_write_internal:
  assumes "file_inv f" "length data < 2 ^ 40" "off + length data < 2 ^ 63"
  shows "sane (fst (write_internal off data f))"
  unfolding write_internal_def
  using max_io_512 [OF assms(1)] assms
  by (auto simp: ensureR_def check_alignment_def ALIGNMENT_def intro!: sane_write_chunks)

subsection \<open>Discards\<close>

lemma rw_cell_upper:
  assumes "file_inv g" "combo_map (index g) b = Some c" "\<not> cell_zeroed c" "cell_tag c = rw_tag g"
  shows "upper_map g b = Some c"
proof -
  have "lower_map g b \<noteq> Some c"
  proof
    assume "lower_map g b = Some c"
    then have "readable (lower_files g) c" "length (lower_files g) = rw_tag g"
      using assms(1) by (auto simp: file_inv_def)
    then show False using assms(3,4) by (auto simp: readable_def split: option.splits)
  qed
  then show ?thesis using assms(2) by (auto simp: combo_map_split over_def split: option.splits)
qed

lemma cell_tag_le:
  assumes "file_inv g" "combo_map (index g) b = Some c" "\<not> cell_zeroed c"
  shows "cell_tag c \<le> rw_tag g"
proof -
  have "length (lower_files g) = rw_tag g" using assms(1) by (simp add: file_inv_def)
  then show ?thesis using device_readable [OF assms(1,2)] assms(3)
    by (auto simp: readable_def layers_def split: option.splits)
qed

text \<open>
  Blocks \<open>B\<close> to \<open>B + n\<close> become zero; a zeroed block keeps at most the physical block it had.
\<close>

lemma zeroed_ok:
  assumes inv: "file_inv g" and idx: "combo_ok idx" "lower idx = lower (index g)"
    and cells: "\<And>b. B \<le> b \<Longrightarrow> b < B + n \<Longrightarrow> \<exists>c. imap (upper idx) b = Some c \<and> cell_zeroed c \<and> cell_tag c = rw_tag g
      \<and> (\<forall>p. cell_phys c = Some p \<longrightarrow> (\<exists>c0. upper_map g b = Some c0 \<and> cell_phys c0 = Some p))"
    and same: "\<And>b. \<not> (B \<le> b \<and> b < B + n) \<Longrightarrow> imap (upper idx) b = upper_map g b"
    and D: "vf_ok D" "vf_size D = vf_size (rw_data_file g)" "vf_limit D = vf_limit (rw_data_file g)"
      "\<And>i. \<not> (file_type g = SparseReadWrite \<and> (8 + B) * 512 \<le> i \<and> i < (8 + B + n) * 512) \<Longrightarrow>
         vf_byte D i = vf_byte (rw_data_file g) i"
  shows "chunk_done (B * 512) (zeros (n * 512)) g (g\<lparr>rw_data_file := D, index := idx\<rparr>)"
proof -
  let ?g = "g\<lparr>rw_data_file := D, index := idx\<rparr>"
  have um: "upper_map ?g = imap (upper idx)" "lower_map ?g = lower_map g"
    using idx(2) by (auto simp: upper_map_def lower_map_def fun_eq_iff)
  have i: "length (lower_files g) = rw_tag g" "\<And>b c. upper_map g b = Some c \<Longrightarrow> upper_cell_ok g b c" "phys_inj (upper_map g)"
    using inv by (auto simp: file_inv_def)
  have phys: "\<exists>c0. upper_map g b = Some c0 \<and> cell_phys c0 = Some p"
    if "imap (upper idx) b = Some c" "cell_phys c = Some p" for b c p
    using cells [of b] same [of b] that by fastforce
  have de: "data_end ?g = data_end g" using D(2) by (simp add: data_end_def)
  have upok: "upper_cell_ok ?g b c" if "imap (upper idx) b = Some c" for b c
  proof (cases "B \<le> b \<and> b < B + n")
    case True
    with cells [of b] that have c: "cell_zeroed c" "cell_tag c = rw_tag g" by auto
    show ?thesis
    proof (cases "cell_phys c")
      case (Some p)
      from phys [OF that Some] obtain c0 where "upper_map g b = Some c0" "cell_phys c0 = Some p" by blast
      then show ?thesis using i(2) c Some de by (fastforce simp: upper_cell_ok_def)
    qed (use c in \<open>simp add: upper_cell_ok_def\<close>)
  next
    case False
    then have "upper_cell_ok g b c" using same that i(2) by simp
    then show ?thesis using de by (simp add: upper_cell_ok_def split: option.splits)
  qed
  have inj: "phys_inj (imap (upper idx))"
    unfolding phys_inj_def
  proof (intro allI impI)
    fix b b' c c' p
    assume "imap (upper idx) b = Some c" "imap (upper idx) b' = Some c'" "cell_phys c = Some p" "cell_phys c' = Some p"
    then show "b = b'" using phys i(3) unfolding phys_inj_def by blast
  qed
  have "file_inv ?g"
    using inv idx(1) D(1,2) upok inj um by (auto simp: file_inv_def layers_def)
  moreover have "device ?g i = overlay (B * 512) (zeros (n * 512)) (device g) i" for i
  proof (cases "B \<le> i div 512 \<and> i div 512 < B + n")
    case True
    then have "B * 512 \<le> i" "i < B * 512 + n * 512"
      by (auto simp: less_eq_div_iff_mult_less_eq div_less_iff_less_mult algebra_simps)
    moreover from True cells obtain c where "imap (upper idx) (i div 512) = Some c" "cell_zeroed c" by blast
    ultimately show ?thesis
      by (simp add: overlay_zeros device_def map_byte_def combo_map_def over_def cell_byte_def)
  next
    case False
    then have "\<not> (B * 512 \<le> i \<and> i < B * 512 + n * 512)"
      by (auto simp: less_eq_div_iff_mult_less_eq div_less_iff_less_mult algebra_simps)
    moreover have "combo_map idx (i div 512) = combo_map (index g) (i div 512)"
      using same [OF False] idx(2) by (simp add: combo_map_def upper_map_def)
    moreover have "cell_byte (lower_files g @ [D]) (combo_map (index g) (i div 512)) (i mod 512)
      = cell_byte (lower_files g @ [rw_data_file g]) (combo_map (index g) (i div 512)) (i mod 512)"
    proof (cases "combo_map (index g) (i div 512)")
      case (Some c)
      have "vf_byte D (p * 512 + i mod 512) = vf_byte (rw_data_file g) (p * 512 + i mod 512)"
        if p: "cell_phys c = Some p" "\<not> cell_zeroed c" "cell_tag c = rw_tag g" for p
      proof (rule D(4), rule notI)
        assume h: "file_type g = SparseReadWrite \<and> (8 + B) * 512 \<le> p * 512 + i mod 512 \<and> p * 512 + i mod 512 < (8 + B + n) * 512"
        have "upper_map g (i div 512) = Some c" using rw_cell_upper [OF inv Some p(2,3)] .
        then have "p = 8 + i div 512" using i(2) p h by (fastforce simp: upper_cell_ok_def)
        moreover have "(8 + B) * 512 < (p + 1) * 512" "p * 512 < (8 + B + n) * 512"
          using h mod_less_divisor [of 512 i] by (auto simp: algebra_simps)
        ultimately show False using False unfolding mult_less_cancel2 by auto
      qed
      moreover have "cell_tag c \<le> rw_tag g" if "\<not> cell_zeroed c"
        using cell_tag_le [OF inv Some that] .
      ultimately show ?thesis using Some i(1)
        by (auto simp: cell_byte_def nth_append split: option.splits)
    qed (simp add: cell_byte_def)
    ultimately show ?thesis
      by (auto simp: overlay_zeros device_def map_byte_def layers_def)
  qed
  ultimately show ?thesis using D(3) idx(2) by (auto simp: chunk_done_def same_shape_def fun_eq_iff)
qed

text \<open>The zero mappings of a discard.\<close>

definition zeroing :: "(nat \<Rightarrow> cell option) \<Rightarrow> nat \<Rightarrow> SegmentMapping \<Rightarrow> bool" where
  "zeroing U t z \<longleftrightarrow> mapping_ok z \<and> 0 < m_length z \<and> zeroed z \<and> tag z = t
     \<and> (\<forall>b p. covers z b \<longrightarrow> cell_phys (cell_at z b) = Some p \<longrightarrow> (\<exists>c. U b = Some c \<and> cell_phys c = Some p))"

lemma insert_zeroing:
  assumes inv: "file_inv g" and z: "zeroing (upper_map g) (rw_tag g) z"
    and D: "vf_ok D" "vf_size D = vf_size (rw_data_file g)" "vf_limit D = vf_limit (rw_data_file g)"
      "\<And>i. \<not> (file_type g = SparseReadWrite \<and> (8 + m_offset z) * 512 \<le> i \<and> i < (8 + m_offset z + m_length z) * 512) \<Longrightarrow>
         vf_byte D i = vf_byte (rw_data_file g) i"
  shows "chunk_done (m_offset z * 512) (zeros (m_length z * 512)) g (index_insert z (g\<lparr>rw_data_file := D\<rparr>))"
    "\<not> covers z b \<Longrightarrow> upper_map (index_insert z (g\<lparr>rw_data_file := D\<rparr>)) b = upper_map g b"
proof -
  have z': "mapping_ok z" "zeroed z" "tag z = rw_tag g" using z by (auto simp: zeroing_def)
  have c: "combo_ok (index g)" using inv by (simp add: file_inv_def)
  let ?idx = "ComboIndex_insert (index g) z"
  have u: "imap (upper ?idx) b = (if covers z b then Some (cell_at z b) else upper_map g b)" for b
    using MutableIndex_insert_imap [OF z'(1), of "upper (index g)" b] c
    by (simp add: ComboIndex_insert_def combo_ok_def upper_map_def)
  have "chunk_done (m_offset z * 512) (zeros (m_length z * 512)) g (g\<lparr>rw_data_file := D, index := ?idx\<rparr>)"
  proof (rule zeroed_ok [OF inv ComboIndex_insert_ok(1) [OF c z'(1)] _ _ _ D])
    show "lower ?idx = lower (index g)" by (simp add: ComboIndex_insert_def)
    fix b
    show "\<exists>c. imap (upper ?idx) b = Some c \<and> cell_zeroed c \<and> cell_tag c = rw_tag g
      \<and> (\<forall>p. cell_phys c = Some p \<longrightarrow> (\<exists>c0. upper_map g b = Some c0 \<and> cell_phys c0 = Some p))"
      if "m_offset z \<le> b" "b < m_offset z + m_length z"
    proof -
      have "covers z b" using that by (simp add: covers_def)
      then show ?thesis using u [of b] z z' by (auto simp: zeroing_def cell_at_def)
    qed
    show "imap (upper ?idx) b = upper_map g b" if "\<not> (m_offset z \<le> b \<and> b < m_offset z + m_length z)"
      using u [of b] that by (simp add: covers_def)
  qed
  then show "chunk_done (m_offset z * 512) (zeros (m_length z * 512)) g (index_insert z (g\<lparr>rw_data_file := D\<rparr>))"
    by (simp add: index_insert_def)
  show "\<not> covers z b \<Longrightarrow> upper_map (index_insert z (g\<lparr>rw_data_file := D\<rparr>)) b = upper_map g b"
    using u [of b] by (simp add: upper_map_def index_insert_def)
qed

fun zeros_ok :: "(nat \<Rightarrow> cell option) \<Rightarrow> nat \<Rightarrow> nat \<Rightarrow> nat \<Rightarrow> SegmentMapping list \<Rightarrow> bool" where
  "zeros_ok U t cur e [] \<longleftrightarrow> cur = e"
| "zeros_ok U t cur e (z # zs) \<longleftrightarrow> m_offset z = cur \<and> zeroing U t z \<and> zeros_ok U t (cur + m_length z) e zs"

lemma zeros_ok_le: "zeros_ok U t cur e zs \<Longrightarrow> cur \<le> e"
  by (induction zs arbitrary: cur) fastforce+

lemma zeros_ok_cong: "\<forall>b\<ge>cur. U b = V b \<Longrightarrow> zeros_ok U t cur e zs \<Longrightarrow> zeros_ok V t cur e zs"
proof (induction zs arbitrary: cur)
  case (Cons z zs)
  then show ?case by (auto simp: zeroing_def covers_def)
qed simp

lemma zeroing_marker:
  assumes "cur < e" "e < 2 ^ 64" "e - cur < 2 ^ 32" "rw_tag f < 2 ^ 8"
  shows "zeroing U (rw_tag f) (zero_mapping cur (as_u32 (u64_sub e cur)) f)"
    "m_length (zero_mapping cur (as_u32 (u64_sub e cur)) f) = e - cur"
    "m_offset (zero_mapping cur (as_u32 (u64_sub e cur)) f) = cur"
  using assms
  by (auto simp: zero_mapping_def zeroing_def mapping_ok_def has_physical_range_def cell_at_def nowrap)

lemma hybrid_zeros_ok:
  assumes "index_ok ms" "\<forall>m\<in>set ms. cur \<le> m_offset m \<and> m_offset m + m_length m \<le> e"
    and "\<forall>m\<in>set ms. tag m = rw_tag f \<and> (\<forall>b. covers m b \<longrightarrow> U b = Some (cell_at m b))"
    and "cur \<le> e" "e < 2 ^ 64" "e - cur < 2 ^ 32" "rw_tag f < 2 ^ 8"
  shows "zeros_ok U (rw_tag f) cur e (hybrid_zeros f cur e ms)"
  using assms
proof (induction ms arbitrary: cur)
  case Nil
  then show ?case using zeroing_marker(1) [of cur e f U] zeroing_marker(2,3) [of cur e f] by auto
next
  case (Cons m ms)
  have m: "mapping_ok m" "0 < m_length m" "index_ok ms" "\<forall>n\<in>set ms. disjoint_before m n" "cur \<le> m_offset m"
    "m_offset m + m_length m \<le> e" "tag m = rw_tag f" "\<And>b. covers m b \<Longrightarrow> U b = Some (cell_at m b)"
    using Cons.prems by (auto simp: index_ok_Cons)
  have e: "m_end m = m_offset m + m_length m" using m(1) by (simp add: nowrap)
  have z: "zeroing U (rw_tag f) (m\<lparr>zeroed := True\<rparr>)"
    using m by (auto simp: zeroing_def mapping_ok_def has_physical_range_def covers_def cell_at_def split: if_splits)
  have "zeros_ok U (rw_tag f) (m_offset m + m_length m) e (hybrid_zeros f (m_end m) e ms)"
    unfolding e using Cons.prems m by (intro Cons.IH) (auto simp: disjoint_before_def)
  then have "zeros_ok U (rw_tag f) (m_offset m) e (m\<lparr>zeroed := True\<rparr> # hybrid_zeros f (m_end m) e ms)"
    using z by simp
  then show ?case
    using zeroing_marker(1) [of cur "m_offset m" f U] zeroing_marker(2,3) [of cur "m_offset m" f] m(5,6) Cons.prems(5-7) by (cases "cur < m_offset m") auto
qed

lemma publish_all_ok:
  assumes "file_inv f" "file_type f = HybridReadWrite" "zeros_ok (upper_map f) (rw_tag f) cur e zs"
    "publish_all zs f = (Inr v, f')"
  shows "chunk_done (cur * 512) (zeros ((e - cur) * 512)) f f'"
  using assms
proof (induction zs arbitrary: cur f)
  case Nil
  then show ?case by (simp add: zeros_def chunk_done_Nil)
next
  case (Cons z zs)
  then obtain u f1 where p: "publish z f = (Inr u, f1)" "publish_all zs (index_insert z f1) = (Inr v, f')"
    by (auto simp: bindR_eq_Inr)
  have z: "m_offset z = cur" "zeroing (upper_map f) (rw_tag f) z" "zeros_ok (upper_map f) (rw_tag f) (cur + m_length z) e zs"
    using Cons.prems(3) by auto
  have fr: "index_frame f f1" using publish_frame [of f z] p(1) by simp
  have dk: "vf_ok (rw_data_file f)" using Cons.prems(1) by (simp add: file_inv_def layers_def)
  note iz = insert_zeroing [OF Cons.prems(1) z(2) dk refl refl refl]
  have ce: "core_eq (index_insert z f1) (index_insert z (f\<lparr>rw_data_file := rw_data_file f\<rparr>))"
    using index_frame_simps [OF fr] by (simp add: core_eq_def index_insert_def)
  have c1: "chunk_done (cur * 512) (zeros (m_length z * 512)) f (index_insert z f1)"
    using chunk_done_core [OF ce iz(1)] z(1) by simp
  have up: "\<forall>b\<ge>cur + m_length z. upper_map f b = upper_map (index_insert z f1) b"
    using iz(2) core_eq_upper [OF ce] z(1) by (auto simp: covers_def)
  have "chunk_done ((cur + m_length z) * 512) (zeros ((e - (cur + m_length z)) * 512)) (index_insert z f1) f'"
    using c1 Cons.prems(2) zeros_ok_cong [OF up z(3)] index_frame_simps [OF fr] p(2)
    by (intro Cons.IH) (auto simp: chunk_done_def)
  moreover have "m_length z * 512 + (e - (cur + m_length z)) * 512 = (e - cur) * 512"
    using zeros_ok_le [OF z(3)] by (simp add: algebra_simps)
  ultimately show ?case
    using chunk_done_trans [OF c1, of "zeros ((e - (cur + m_length z)) * 512)" f'] zeros_add
    by (simp add: algebra_simps)
qed

lemma hybrid_discard_plan:
  assumes inv: "file_inv f" and len: "0 < n" "n < 2 ^ 32" "(B + n) * 512 < 2 ^ 63"
  shows "\<exists>zs. discard_hybrid_range (B * 512) (n * 512) f = publish_all zs f \<and> zeros_ok (upper_map f) (rw_tag f) B (B + n) zs"
proof -
  let ?q = "Segment_new B n"
  have q: "segment_ok ?q" "Segment_end ?q = B + n" using len by (simp_all add: segment_ok_def nowrap)
  have up: "index_ok (upper (index f))" "rw_tag f < 2 ^ 8" using inv by (auto simp: file_inv_def combo_ok_def)
  note lk = rw_ix.lookup_ok [OF up(1) q(1)] rw_ix.lookup_mem [OF up(1) q(1)] rw_ix.lookup_bounds [OF up(1) q(1)]
  let ?ms = "MutableIndex_lookup (upper (index f)) ?q"
  have tags: "tag m = rw_tag f \<and> (\<forall>b. covers m b \<longrightarrow> upper_map f b = Some (cell_at m b))" if "m \<in> set ?ms" for m
  proof -
    have "covers m (m_offset m)" using lk(1) that by (auto simp: covers_def index_ok_def)
    then have "upper_cell_ok f (m_offset m) (cell_at m (m_offset m))"
      using lk(2) [OF that] inv by (auto simp: file_inv_def upper_map_def)
    then show ?thesis using lk(2) [OF that] by (simp add: cell_at_def upper_cell_ok_def upper_map_def)
  qed
  have z: "zeros_ok (upper_map f) (rw_tag f) B (B + n) (hybrid_zeros f B (B + n) ?ms)"
    using lk(1,3,4) tags len up(2) by (intro hybrid_zeros_ok) auto
  have "discard_hybrid_range (B * 512) (n * 512) f = publish_all (hybrid_zeros f B (B + n) ?ms) f"
    using len(2) q(2) by (simp add: discard_hybrid_range_def ALIGNMENT_def Let_def nowrap)
  then show ?thesis using z by blast
qed

lemma discard_step_ok:
  assumes inv: "file_inv f" and len: "0 < n" "n < 2 ^ 32" "(B + n) * 512 < 2 ^ 63"
    and w: "discard_step (B * 512) (n * 512) f = (Inr v, f')"
  shows "chunk_done (B * 512) (zeros (n * 512)) f f'"
proof (cases "file_type f = HybridReadWrite")
  case True
  then obtain zs where "publish_all zs f = (Inr v, f')" "zeros_ok (upper_map f) (rw_tag f) B (B + n) zs"
    using hybrid_discard_plan [OF inv len] w by (auto simp: discard_step_def)
  from publish_all_ok [OF inv True this(2,1)] show ?thesis by simp
next
  case False
  define z where "z = zero_mapping B (as_u32 n) f"
  have tg: "rw_tag f < 2 ^ 8" using inv by (simp add: file_inv_def)
  have z: "zeroing (upper_map f) (rw_tag f) z" "m_offset z = B" "m_length z = n"
    using zeroing_marker(1) [of B "B + n" f "upper_map f"] zeroing_marker(2,3) [of B "B + n" f] len tg
    by (simp_all add: z_def nowrap)
  have ph: "u64_add HEADER_SIZE (B * 512) = (8 + B) * 512" using len by (simp add: HEADER_SIZE_def nowrap)
  have dk: "vf_ok (rw_data_file f)" using inv by (simp add: file_inv_def layers_def)
  obtain D where D: "vf_ok D" "vf_size D = vf_size (rw_data_file f)" "vf_limit D = vf_limit (rw_data_file f)"
      "\<And>i. \<not> (file_type f = SparseReadWrite \<and> (8 + m_offset z) * 512 \<le> i \<and> i < (8 + m_offset z + m_length z) * 512) \<Longrightarrow>
         vf_byte D i = vf_byte (rw_data_file f) i"
    and f': "(if file_type f \<noteq> SparseReadWrite then publish z (index_insert z (f\<lparr>rw_data_file := D\<rparr>))
              else (Inr (), index_insert z (f\<lparr>rw_data_file := D\<rparr>))) = (Inr v, f')"
  proof (cases "file_type f = SparseReadWrite")
    case True
    then obtain D where "vf_discard ((8 + B) * 512) (n * 512) (rw_data_file f) = (Inr (), D)"
      "f' = index_insert z (f\<lparr>rw_data_file := D\<rparr>)"
      using w False unfolding discard_step_def ph
      by (auto simp: bindR_eq_Inr on_data_Inr Let_def ALIGNMENT_def zero_mapping_def z_def)
    then show ?thesis using vf_discard_Inr [OF _ dk] True z(2,3)
      by (intro that [of D]) (auto simp: algebra_simps)
  next
    case ns: False
    have "publish z (index_insert z f) = (Inr v, f')"
      using w False ns by (simp add: discard_step_def Let_def ALIGNMENT_def z_def)
    then show ?thesis using dk ns by (intro that [of "rw_data_file f"]) auto
  qed
  have "core_eq f' (index_insert z (f\<lparr>rw_data_file := D\<rparr>))"
  proof (cases "file_type f = SparseReadWrite")
    case True
    then show ?thesis using f' by (simp add: core_eq_def)
  next
    case False
    then show ?thesis
      using f' frame_core [OF publish_frame [of "index_insert z (f\<lparr>rw_data_file := D\<rparr>)" z]] by simp
  qed
  from chunk_done_core [OF this insert_zeroing(1) [OF inv z(1) D]] z(2,3) show ?thesis by simp
qed

lemma discard_loop_ok:
  assumes "file_inv f" "off mod 512 = 0" "rem mod 512 = 0" "off + rem < 2 ^ 63" "discard_loop fuel off rem f = (Inr v, f')"
  shows "chunk_done off (zeros rem) f f'"
  using assms
proof (induction fuel arbitrary: off rem f)
  case 0
  then show ?case by (auto simp: chunk_done_Nil zeros_def split: if_splits)
next
  case (Suc fuel)
  show ?case
  proof (cases "rem = 0")
    case True
    then show ?thesis using Suc.prems by (auto simp: chunk_done_Nil zeros_def)
  next
    case False
    define k where "k = min rem (MAX_LENGTH * ALIGNMENT)"
    have "MAX_LENGTH * ALIGNMENT = 16383 * 512" by (simp add: MAX_LENGTH_def ALIGNMENT_def)
    then have k: "0 < k" "k \<le> rem" "k mod 512 = 0" "k \<le> 16383 * 512"
      using False Suc.prems(3) by (auto simp: k_def min_def)
    define B n where "B = off div 512" and "n = k div 512"
    have Bn: "off = B * 512" "k = n * 512" using Suc.prems(2) k(3) unfolding B_def n_def by auto
    have u: "u64_add off k = off + k" using Suc.prems(4) k by (simp add: nowrap)
    from Suc.prems(5) False obtain w f1 where w: "discard_step (B * 512) (n * 512) f = (Inr w, f1)"
      "discard_loop fuel (off + k) (rem - k) f1 = (Inr v, f')"
      unfolding Bn [symmetric] by (auto simp: k_def [symmetric] Let_def bindR_eq_Inr u)
    have c: "chunk_done off (zeros k) f f1"
      using discard_step_ok [OF Suc.prems(1) _ _ _ w(1)] Bn k Suc.prems(4) by (auto simp: algebra_simps)
    have "(off + k) mod 512 = 0" "(rem - k) mod 512 = 0"
      using Suc.prems(2,3) k by (auto simp: mod_eq_0_iff_dvd dvd_diff_nat)
    then have "chunk_done (off + k) (zeros (rem - k)) f1 f'"
      using c Suc.prems k by (intro Suc.IH [OF _ _ _ _ w(2)]) (auto simp: chunk_done_def)
    with chunk_done_trans [OF c, of "zeros (rem - k)" f'] k(2) show ?thesis by (simp add: zeros_add)
  qed
qed

lemma discard_range_done:
  assumes "file_inv f" "off + len < 2 ^ 63" "discard_range off len f = (Inr v, f')"
  shows "chunk_done off (zeros len) f f'"
proof (cases "len = 0")
  case True
  then show ?thesis using assms by (auto simp: discard_range_def bindR_eq_Inr chunk_done_Nil zeros_def)
next
  case False
  then have "off mod 512 = 0" "len mod 512 = 0" "discard_loop len off len f = (Inr v, f')"
    using assms(3) by (auto simp: discard_range_def bindR_eq_Inr ALIGNMENT_def)
  then show ?thesis by (rule discard_loop_ok [OF assms(1) _ _ assms(2)])
qed

lemma sane_publish_all: "sane (fst (publish_all zs f))"
  by (induction zs arbitrary: f) (auto intro!: sane_bindR sane_publish)

lemma sane_discard_step: "sane (fst (discard_step off n f))"
proof -
  have "sane (fst (vf_discard a b d))" for a b d by (simp add: vf_discard_def release_space_hint_def)
  then show ?thesis
    by (auto simp: discard_step_def discard_hybrid_range_def Let_def sane_publish_all sane_publish
        intro!: sane_bindR sane_on_data)
qed

lemma sane_discard_loop: "rem \<le> fuel \<Longrightarrow> sane (fst (discard_loop fuel off rem f))"
proof (induction fuel arbitrary: off rem f)
  case (Suc fuel)
  have "rem - min rem (MAX_LENGTH * ALIGNMENT) \<le> fuel"
    using Suc.prems by (simp add: MAX_LENGTH_def ALIGNMENT_def)
  then show ?case by (auto simp: Let_def intro!: sane_bindR sane_discard_step Suc.IH)
qed simp

lemma sane_discard_range: "sane (fst (discard_range off len f))"
  by (auto simp: discard_range_def ensureR_def intro!: sane_bindR sane_discard_loop)

end
