(* ===== verification/Lsmt_Open.thy ===== *)
theory Lsmt_Open
  imports Lsmt_Write
begin

text \<open>
  Opening, creating, resizing and sealing a writable layer: \<^verbatim>\<open>verify_ht\<close>, \<^verbatim>\<open>load_index\<close>,
  \<^verbatim>\<open>create_mappings_from_sparse\<close> and the header blocks of \<^verbatim>\<open>lsmt/file/helper.rs\<close>, and \<^verbatim>\<open>open\<close>,
  \<^verbatim>\<open>create_with_metadata\<close>, \<^verbatim>\<open>update_vsize\<close> and \<^verbatim>\<open>close_seal\<close> of \<^verbatim>\<open>lsmt/file/readwrite.rs\<close>.
\<close>

section \<open>Opening\<close>

subsection \<open>Headers and trailers of a file\<close>

definition verify_ht :: "VFile \<Rightarrow> bool \<Rightarrow> nat \<Rightarrow> error + HeaderTrailer" where
  "verify_ht file trailer file_size =
     (if \<not> trailer then
        (case vf_read_at_into file 0 (replicate HEADER_SIZE 0) of
           (Inl e, _) \<Rightarrow> Inl e
         | (Inr read, bytes) \<Rightarrow>
             if \<not> HT_SIZE \<le> read then Inl (Err ''failed to read file header.'')
             else case ht_read_from_bytes (take HT_SIZE bytes) of
                    None \<Rightarrow> Inl (Err ''Invalid header'')
                  | Some ht \<Rightarrow>
                      if verify_magic ht \<and> is_header ht then Inr ht
                      else Inl (Err ''header magic/type don't match''))
      else if \<not> HEADER_SIZE \<le> file_size then Inl (Err ''File too small for trailer'')
      else
        (case vf_read_at_into file (file_size - HEADER_SIZE) (replicate HEADER_SIZE 0) of
           (Inl e, _) \<Rightarrow> Inl e
         | (Inr read, bytes) \<Rightarrow>
             if \<not> HT_SIZE \<le> read then Inl (Err ''failed to read file trailer.'')
             else case ht_read_from_bytes (take HT_SIZE bytes) of
                    None \<Rightarrow> Inl (Err ''Invalid trailer'')
                  | Some ht \<Rightarrow>
                      if verify_magic ht \<and> is_trailer ht \<and> is_data_file ht \<and> is_sealed ht then Inr ht
                      else Inl (Err ''trailer magic, trailer type, file type or sealedness doesn't match'')))"

definition rw_layout_from_header :: "HeaderTrailer \<Rightarrow> error + RwLayout" where
  "rw_layout_from_header h =
     (case (is_sparse_rw h, is_hybrid_rw h) of
        (False, False) \<Rightarrow> Inr LogStructured
      | (True, False) \<Rightarrow> Inr Sparse
      | (False, True) \<Rightarrow> Inr HybridLogStructured
      | (True, True) \<Rightarrow> Inl (Err ''invalid RW header: sparse and hybrid flags are both set''))"

definition write_header_block :: "HeaderTrailer \<Rightarrow> VFile \<Rightarrow> (unit, VFile) outcome" where
  "write_header_block header file =
     bindR (vf_write_at 0 (copy_header_block (replicate HEADER_SIZE 0) header) file) (\<lambda>_ file. (Inr (), file))"

definition update_header_vsize :: "nat \<Rightarrow> VFile \<Rightarrow> (unit, VFile) outcome" where
  "update_header_vsize vsize file =
     (case vf_read_at_into file 0 (replicate HEADER_SIZE 0) of
        (Inl e, _) \<Rightarrow> (Inl e, file)
      | (Inr read, raw) \<Rightarrow>
          if \<not> HT_SIZE \<le> read then (Inl (Err ''failed to read header when updating virtual size''), file)
          else case ht_read_from_bytes (take HT_SIZE raw) of
                 None \<Rightarrow> (Inl (Err ''invalid header bytes''), file)
               | Some ht \<Rightarrow>
                   let bytes = ht_bytes (ht\<lparr>ht_virtual_size := vsize\<rparr>)
                   in bindR (vf_write_at 0 (bytes @ drop (length bytes) raw) file) (\<lambda>_ file. (Inr (), file)))"

subsection \<open>Loading an index\<close>

definition index_chunks :: "nat \<Rightarrow> byte list \<Rightarrow> byte list list" where
  "index_chunks count raw = map (\<lambda>i. subslice (i * DISK_MAPPING_SIZE) DISK_MAPPING_SIZE raw) [0..<count]"

fun load_mappings :: "bool \<Rightarrow> byte list list \<Rightarrow> error + SegmentMapping list" where
  "load_mappings reset_tag [] = Inr []"
| "load_mappings reset_tag (c # cs) =
     (case disk_read_from_bytes c of
        None \<Rightarrow> Inl (Err ''Invalid DiskSegmentMapping'')
      | Some dm \<Rightarrow>
          let m = to_memory dm
          in if m_length m = 0 \<or> m_offset m = 2 ^ 64 - 1 then load_mappings reset_tag cs
             else if \<not> (zeroed m \<or> has_physical_range m) then Inl (Err ''data mapping has no physical offset'')
             else case load_mappings reset_tag cs of
                    Inl e \<Rightarrow> Inl e
                  | Inr ms \<Rightarrow> Inr ((if reset_tag then m\<lparr>tag := 0\<rparr> else m) # ms))"

definition load_index :: "VFile \<Rightarrow> nat \<Rightarrow> nat \<Rightarrow> bool \<Rightarrow> error + SegmentMapping list" where
  "load_index file off count reset_tag =
     (if count = 0 then Inr []
      else if \<not> count * DISK_MAPPING_SIZE < 2 ^ 64 then Inl (Err ''index size overflow'')
      else
        let size_bytes = count * DISK_MAPPING_SIZE
        in if \<not> (case checked_add_u64 off size_bytes of None \<Rightarrow> False | Some e \<Rightarrow> e \<le> vf_size file)
           then Inl (Err ''index range exceeds file size'')
           else case vf_read_at_into file off (replicate size_bytes 0) of
                  (Inl e, _) \<Rightarrow> Inl e
                | (Inr read, raw) \<Rightarrow>
                    if \<not> size_bytes \<le> read then Inl (Err ''Index file too short'')
                    else load_mappings reset_tag (index_chunks count raw))"

definition load_index_and_reset_tags :: "VFile \<Rightarrow> nat \<Rightarrow> nat \<Rightarrow> error + SegmentMapping list" where
  "load_index_and_reset_tags file off count = load_index file off count True"

subsection \<open>Recovering the index of a sparse layer\<close>

function sparse_split :: "nat \<Rightarrow> nat \<Rightarrow> nat \<Rightarrow> SegmentMapping list" where
  "sparse_split logical physical blocks =
     (if blocks = 0 then []
      else let step = min blocks MAX_LENGTH
           in SegmentMapping_new logical (as_u32 step) physical False 0
              # sparse_split (u64_add logical step) (u64_add physical step) (blocks - step))"
  by pat_completeness auto

termination sparse_split
  by (relation "measure (\<lambda>(_, _, b). b)") (auto simp: MAX_LENGTH_def)

declare sparse_split.simps [simp del]

text \<open>
  Each round of the scan moves the cursor past a reported extent; the file size bounds the rounds.
\<close>

fun sparse_scan :: "nat \<Rightarrow> VFile \<Rightarrow> nat \<Rightarrow> nat \<Rightarrow> SegmentMapping list \<Rightarrow> error + SegmentMapping list" where
  "sparse_scan 0 file start_offset cursor mappings = Inl Diverges"
| "sparse_scan (Suc fuel) file start_offset cursor mappings =
     (case vf_seek_data file cursor of
        Inl e \<Rightarrow> Inl e
      | Inr None \<Rightarrow> Inr mappings
      | Inr (Some begin_pos) \<Rightarrow>
          if begin_pos \<ge> vf_size file then Inr mappings
          else case vf_seek_hole file begin_pos of
                 Inl e \<Rightarrow> Inl e
               | Inr hole \<Rightarrow>
                   let end_pos = (case hole of Some v \<Rightarrow> min v (vf_size file) | None \<Rightarrow> vf_size file)
                   in if end_pos \<le> begin_pos then Inr mappings
                      else if begin_pos < start_offset
                      then sparse_scan fuel file start_offset (max end_pos start_offset) mappings
                      else if \<not> (begin_pos mod ALIGNMENT = 0 \<and> end_pos mod ALIGNMENT = 0)
                      then Inl (Err ''unaligned data extent reported'')
                      else sparse_scan fuel file start_offset end_pos
                             (mappings @ sparse_split ((begin_pos - start_offset) div ALIGNMENT)
                                (begin_pos div ALIGNMENT) ((end_pos - begin_pos) div ALIGNMENT)))"

definition create_mappings_from_sparse :: "VFile \<Rightarrow> nat \<Rightarrow> error + SegmentMapping list" where
  "create_mappings_from_sparse file start_offset =
     (if \<not> start_offset mod ALIGNMENT = 0 then Inl (Err ''start_offset must be aligned'')
      else if vf_size file \<le> start_offset then Inr []
      else sparse_scan (Suc (vf_size file)) file start_offset start_offset [])"

subsection \<open>Creating and opening a writable layer\<close>

definition initial_append_digest :: "VFile \<Rightarrow> LSMTFileType \<Rightarrow> nat \<Rightarrow> error + AppendDigestTracker option" where
  "initial_append_digest data ft data_file_size =
     (if ft \<noteq> ReadWrite then Inr None
      else if data_file_size \<noteq> HEADER_SIZE then Inr None
      else case AppendDigestTracker_from_header data of Inl e \<Rightarrow> Inl e | Inr t \<Rightarrow> Inr (Some t))"

definition insert_all_mappings :: "SegmentMapping list \<Rightarrow> MutableIndex" where
  "insert_all_mappings ms = fold (\<lambda>m mi. MutableIndex_insert mi m) ms []"

definition open_upper_index :: "VFile \<Rightarrow> VFile option \<Rightarrow> RwLayout \<Rightarrow> error + (MutableIndex \<times> nat)" where
  "open_upper_index data idx lay =
     (if lay = Sparse
      then (case create_mappings_from_sparse data HEADER_SIZE of
              Inl e \<Rightarrow> Inl e
            | Inr ms \<Rightarrow> Inr (insert_all_mappings ms, HEADER_SIZE))
      else case idx of
             None \<Rightarrow> Inl (Err ''missing index file for non-sparse LSMT open'')
           | Some idx_file \<Rightarrow>
               if vf_size idx_file > HEADER_SIZE
               then let area = vf_size idx_file - HEADER_SIZE
                    in if \<not> area mod DISK_MAPPING_SIZE = 0 then Inl (Err ''Index file corrupted'')
                       else (case load_index_and_reset_tags idx_file HEADER_SIZE (area div DISK_MAPPING_SIZE) of
                               Inl e \<Rightarrow> Inl e
                             | Inr ms \<Rightarrow> Inr (insert_all_mappings ms, vf_size idx_file))
               else Inr ([], vf_size idx_file))"

definition LSMTFile_open :: "uuid_crate \<Rightarrow> VFile \<Rightarrow> VFile option \<Rightarrow> ReadOnlyIndex option \<Rightarrow> VFile list
    \<Rightarrow> error + LSMTFile" where
  "LSMTFile_open U data idx lower_index lower_layers =
     (let data_file_size = vf_size data in
      case verify_ht data False data_file_size of
        Inl e \<Rightarrow> Inl e
      | Inr header \<Rightarrow>
          (case rw_layout_from_header header of
             Inl e \<Rightarrow> Inl e
           | Inr lay \<Rightarrow>
               if data_file_size \<ge> HEADER_SIZE + 4096
                  \<and> (case verify_ht data True data_file_size of Inl _ \<Rightarrow> False | Inr _ \<Rightarrow> True)
               then Inl (Err ''Cannot open a Sealed LSMT file in RW mode.'')
               else
                 let tg = length lower_layers;
                     rw_uuid = (case parse_uuid_field U (ht_uuid header) of None \<Rightarrow> uuid_nil | Some u \<Rightarrow> u)
                 in case open_upper_index data idx lay of
                      Inl e \<Rightarrow> Inl e
                    | Inr (mutable_index, index_append) \<Rightarrow>
                        let ft = RwLayout_file_type lay
                        in case initial_append_digest data ft data_file_size of
                             Inl e \<Rightarrow> Inl e
                           | Inr digest \<Rightarrow>
                               Inr \<lparr>index = ComboIndex_new mutable_index lower_index (as_u8 tg),
                                    lower_files = lower_layers, rw_data_file = data, rw_index_file = idx,
                                    virtual_size = ht_virtual_size header, rw_tag = tg, sealed = False,
                                    max_io_size = MAX_IO_SIZE,
                                    uuids = replicate tg uuid_nil @ [rw_uuid], file_type = ft,
                                    group_commit_size = 0, group_commit_buf = [],
                                    rw_data_append_offset = data_file_size,
                                    rw_index_append_offset = index_append, append_digest = digest\<rparr>))"

definition create_with_metadata :: "uuid_crate \<Rightarrow> nat \<Rightarrow> RwLayout \<Rightarrow> Uuid \<Rightarrow> Uuid option \<Rightarrow> byte list option
    \<Rightarrow> VFile \<times> VFile option \<Rightarrow> (LSMTFile, VFile \<times> VFile option) outcome" where
  "create_with_metadata U vsize lay uuid parent utag files =
     (let (data, idx) = files;
          header = rw_header U vsize lay uuid parent utag
      in case write_header_block header data of
           (Inl e, data) \<Rightarrow> (Inl e, (data, idx))
         | (Inr _, data) \<Rightarrow>
             (case (if lay = Sparse
                    then (case vf_truncate (u64_add vsize HEADER_SIZE) data of (r, data) \<Rightarrow> (r, (data, idx)))
                    else case idx of
                           None \<Rightarrow> (Inl (Err ''missing index file for non-sparse LSMT create''), (data, idx))
                         | Some idx_file \<Rightarrow>
                             (case write_header_block (set_unsealed_index_offset (set_index_file header)) idx_file of
                                (r, idx_file) \<Rightarrow> (r, (data, Some idx_file)))) of
                (Inl e, files) \<Rightarrow> (Inl e, files)
              | (Inr _, (data, idx)) \<Rightarrow>
                  let ft = RwLayout_file_type lay
                  in case initial_append_digest data ft HEADER_SIZE of
                       Inl e \<Rightarrow> (Inl e, (data, idx))
                     | Inr digest \<Rightarrow>
                         (Inr \<lparr>index = ComboIndex_new [] None 0, lower_files = [], rw_data_file = data,
                               rw_index_file = idx, virtual_size = vsize, rw_tag = 0, sealed = False,
                               max_io_size = MAX_IO_SIZE, uuids = [uuid], file_type = ft,
                               group_commit_size = 0, group_commit_buf = [],
                               rw_data_append_offset =
                                 (if lay = Sparse then u64_add vsize HEADER_SIZE else HEADER_SIZE),
                               rw_index_append_offset = HEADER_SIZE, append_digest = digest\<rparr>,
                          (data, idx))))"

subsection \<open>Resizing\<close>

fun rebuild_loop :: "nat \<Rightarrow> VFile \<Rightarrow> nat \<Rightarrow> nat \<Rightarrow> AppendDigestTracker \<Rightarrow> error + AppendDigestTracker" where
  "rebuild_loop 0 data data_file_size off t = (if off < data_file_size then Inl Diverges else Inr t)"
| "rebuild_loop (Suc fuel) data data_file_size off t =
     (if off < data_file_size then
        let want = min (128 * 1024) (data_file_size - off)
        in case vf_read_at_into data off (replicate want 0) of
             (Inl e, _) \<Rightarrow> Inl e
           | (Inr read, buffer) \<Rightarrow>
               if read \<noteq> want then Inl (Err ''short read while rebuilding append digest tracker'')
               else (case absorb t off (take read buffer) of
                       Inl e \<Rightarrow> Inl e
                     | Inr t \<Rightarrow> rebuild_loop fuel data data_file_size (u64_add off read) t)
      else Inr t)"

definition rebuild_append_digest_from_file :: "VFile \<Rightarrow> nat \<Rightarrow> error + AppendDigestTracker" where
  "rebuild_append_digest_from_file data data_file_size =
     (if \<not> HEADER_SIZE \<le> data_file_size
      then Inl (Err ''rw data file is smaller than header while rebuilding append digest'')
      else case AppendDigestTracker_from_header data of
             Inl e \<Rightarrow> Inl e
           | Inr t \<Rightarrow> rebuild_loop data_file_size data data_file_size HEADER_SIZE t)"

definition update_vsize :: "nat \<Rightarrow> LSMTFile \<Rightarrow> (unit, LSMTFile) outcome" where
  "update_vsize vsize f =
     (let size_before = rw_data_append_offset f;
          rebuild = (file_type f = ReadWrite \<and>
                     (case append_digest f of None \<Rightarrow> False
                      | Some t \<Rightarrow> ad_offset t = size_before \<and> HEADER_SIZE \<le> size_before));
          f = (if file_type f = ReadWrite then f\<lparr>append_digest := None\<rparr> else f);
          f = f\<lparr>virtual_size := vsize\<rparr>
      in bindR (on_data (update_header_vsize vsize) f) (\<lambda>_ f.
         bindR (if rebuild
                then (case rebuild_append_digest_from_file (rw_data_file f) size_before of
                        Inl e \<Rightarrow> (Inl e, f)
                      | Inr t \<Rightarrow>
                          (Inr (), if rw_data_append_offset f = ad_offset t then f\<lparr>append_digest := Some t\<rparr> else f))
                else (Inr (), f)) (\<lambda>_ f.
         bindR (if file_type f = SparseReadWrite
                then bindR (on_data (vf_truncate (u64_add vsize HEADER_SIZE)) f) (\<lambda>_ f.
                     (Inr (), f\<lparr>rw_data_append_offset := u64_add vsize HEADER_SIZE\<rparr>))
                else (Inr (), f)) (\<lambda>_ f.
         case rw_index_file f of
           None \<Rightarrow> (Inr (), f)
         | Some idx_file \<Rightarrow> on_index_file idx_file (update_header_vsize vsize) f))))"

definition LSMTFile_truncate :: "nat \<Rightarrow> LSMTFile \<Rightarrow> (unit, LSMTFile) outcome" where
  "LSMTFile_truncate sz f =
     bindR (ensureR (\<not> sealed f) (Err ''File is sealed.'') f) (\<lambda>_ f.
     bindR (flush_group_commit f) (\<lambda>_ f. update_vsize sz f))"

text \<open>Syncing has no effect on the contents of the model's files.\<close>

definition LSMTFile_sync :: "LSMTFile \<Rightarrow> (unit, LSMTFile) outcome" where
  "LSMTFile_sync f = flush_group_commit f"

subsection \<open>Sealing\<close>

definition pad_to :: "nat \<Rightarrow> nat \<Rightarrow> nat" where
  "pad_to a n = (if n mod a \<noteq> 0 then a - n mod a else 0)"

definition seal_mappings :: "LSMTFile \<Rightarrow> SegmentMapping list" where
  "seal_mappings f =
     map (\<lambda>m. if zeroed m then m\<lparr>tag := 0, moffset := NO_PHYSICAL_OFFSET\<rparr> else m\<lparr>tag := 0\<rparr>)
       (MutableIndex_lookup (upper (index f)) (Segment_new 0 (as_u32 (div_ceil (virtual_size f) ALIGNMENT))))"

definition seal_write :: "nat \<Rightarrow> byte list \<Rightarrow> LSMTFile \<Rightarrow> (unit, LSMTFile) outcome" where
  "seal_write off bytes f =
     bindR (on_data (vf_write_at off bytes) f) (\<lambda>_ f.
     (Inr (), f\<lparr>append_digest := absorb_or_drop off bytes (append_digest f)\<rparr>))"

definition seal_trailer :: "nat \<Rightarrow> nat \<Rightarrow> nat \<Rightarrow> HeaderTrailer \<Rightarrow> HeaderTrailer" where
  "seal_trailer vsize idx_off idx_count header =
     set_trailer (set_data_file (set_sealed
       (header\<lparr>ht_virtual_size := vsize, index_offset := idx_off, index_size := idx_count\<rparr>)))"

definition seal_index_bytes :: "SegmentMapping list \<Rightarrow> byte list" where
  "seal_index_bytes compact_index =
     (let raw = mapping_bytes (map from_memory compact_index)
      in raw @ replicate (pad_to ALIGNMENT (length raw)) 0xff)"

definition seal_finish :: "(byte list \<Rightarrow> byte list) \<Rightarrow> nat \<Rightarrow> nat \<Rightarrow> nat \<Rightarrow> nat \<Rightarrow> LSMTFile
    \<Rightarrow> (LayerDescriptor option, LSMTFile) outcome" where
  "seal_finish sha256 vsize idx_off idx_count trailer_offset f =
     (case vf_read_at (rw_data_file f) 0 HEADER_SIZE of
        Inl e \<Rightarrow> (Inl e, f)
      | Inr header_bytes \<Rightarrow>
          if \<not> HT_SIZE \<le> length header_bytes then (Inl (Err ''failed to read rw data header when sealing''), f)
          else (case ht_read_from_bytes (take HT_SIZE header_bytes) of
                  None \<Rightarrow> (Inl (Err ''invalid rw data header''), f)
                | Some header \<Rightarrow>
                    let trailer = seal_trailer vsize idx_off idx_count header;
                        trailer_buf = ht_bytes trailer @ drop (length (ht_bytes trailer)) (replicate 4096 0)
                    in bindR (seal_write trailer_offset trailer_buf f) (\<lambda>_ f.
                       (Inr (map_option (descriptor sha256) (append_digest f)), f))))"

definition close_seal :: "(byte list \<Rightarrow> byte list) \<Rightarrow> LSMTFile \<Rightarrow> (LayerDescriptor option, LSMTFile) outcome" where
  "close_seal sha256 f =
     bindR (if sealed f then (Inl (Err ''File has already been sealed.''), f) else (Inr (), f\<lparr>sealed := True\<rparr>)) (\<lambda>_ f.
     bindR (flush_group_commit f) (\<lambda>_ f.
     let vsize = virtual_size f;
         compact_index = seal_mappings f;
         idx_off = vf_size (rw_data_file f);
         index_bytes = seal_index_bytes compact_index
     in
     bindR (seal_write idx_off index_bytes f) (\<lambda>_ f.
     let end_off = u64_add idx_off (length index_bytes);
         pad_len = pad_to 4096 end_off
     in
     bindR (if pad_len \<noteq> 0 then seal_write end_off (replicate pad_len 0) f else (Inr (), f)) (\<lambda>_ f.
     seal_finish sha256 vsize idx_off (length compact_index) (u64_add end_off pad_len) f))))"

end
