(* ===== verification/Lsmt_Device.thy ===== *)
theory Lsmt_Device
  imports Lsmt_Write
begin

text \<open>
  The writable layer as a block device, \<^verbatim>\<open>lsmt/file/readwrite.rs\<close>: writes that have room succeed, the layer
  implements the contract of the trait \<^verbatim>\<open>VirtualFile\<close> with the device as its content, and the properties
  of its reads, writes and discards.
\<close>

subsection \<open>Writes with room succeed\<close>

text \<open>
  Room in the index file for \<open>k\<close> more mappings after the buffered ones, and room in the data file for a
  write of \<open>len\<close> bytes: a write stores at most one mapping per sector.
\<close>

definition index_room :: "LSMTFile \<Rightarrow> nat \<Rightarrow> bool" where
  "index_room f k \<longleftrightarrow>
     (case rw_index_file f of
        None \<Rightarrow> True
      | Some i \<Rightarrow> \<not> vf_direct i \<and> vf_limit i < 2 ^ 63 \<and> rw_index_append_offset f mod 16 = 0
          \<and> rw_index_append_offset f + 16 * (length (group_commit_buf f) + k) \<le> vf_limit i)"

definition write_room :: "LSMTFile \<Rightarrow> nat \<Rightarrow> nat \<Rightarrow> bool" where
  "write_room f off len \<longleftrightarrow>
     index_room f (len div 512)
     \<and> (if file_type f = SparseReadWrite then 4096 + off + len else rw_data_append_offset f + len)
         \<le> vf_limit (rw_data_file f)"

lemma length_mapping_bytes [simp]: "length (mapping_bytes ds) = 16 * length ds"
  by (induction ds) (simp_all add: mapping_bytes_def)

lemma append_index_bytes_room:
  assumes "rw_index_file f = Some i" "\<not> vf_direct i" "vf_limit i < 2 ^ 63" "rw_index_append_offset f mod 16 = 0"
    "rw_index_append_offset f + length bs \<le> vf_limit i" "bs \<noteq> []"
  shows "append_index_bytes bs f = (Inr (), f\<lparr>rw_index_file := Some (pwrite (rw_index_append_offset f) bs i),
    rw_index_append_offset := rw_index_append_offset f + length bs\<rparr>)"
proof -
  have w: "vf_write_at (rw_index_append_offset f) bs i = (Inr (length bs), pwrite (rw_index_append_offset f) bs i)"
    using assms by (intro vf_write_at_fits) auto
  have "rw_index_append_offset f + length bs < 2 ^ 64" using assms(3,5) by simp
  then show ?thesis using assms w
    by (simp add: append_index_bytes_def index_append_offset_def DISK_MAPPING_SIZE_def on_index_file_def
        advance_index_append_offset_def checked_add_u64_def)
qed

lemma publish_room:
  assumes "index_room f (Suc k)"
  shows "\<exists>f'. publish m f = (Inr (), f') \<and> index_room f' k"
proof (cases "rw_index_file f")
  case None
  then show ?thesis
    by (auto simp: publish_def append_index_mapping_def append_index_bytes_def Let_def index_room_def)
next
  case (Some i)
  note r = assms [unfolded index_room_def Some, simplified]
  let ?g = "f\<lparr>group_commit_buf := group_commit_buf f @ [from_memory (m\<lparr>tag := 0\<rparr>)]\<rparr>"
  have one: "disk_bytes (from_memory (m\<lparr>tag := 0\<rparr>)) \<noteq> []" using length_disk_bytes by (metis list.size(3) zero_neq_numeral)
  have all: "mapping_bytes (group_commit_buf ?g) \<noteq> []"
    using length_mapping_bytes [of "group_commit_buf ?g"] by (metis LSMTFile.select_convs(12) LSMTFile.surjective
      LSMTFile.update_convs(12) length_0_conv mult_is_0 snoc_eq_iff_butlast zero_neq_numeral)
  have a1: "append_index_bytes (disk_bytes (from_memory (m\<lparr>tag := 0\<rparr>))) f =
      (Inr (), f\<lparr>rw_index_file := Some (pwrite (rw_index_append_offset f) (disk_bytes (from_memory (m\<lparr>tag := 0\<rparr>))) i),
         rw_index_append_offset := rw_index_append_offset f + 16\<rparr>)"
    using append_index_bytes_room [OF Some _ _ _ _ one] r by simp
  have a2: "append_index_bytes (mapping_bytes (group_commit_buf ?g)) ?g =
      (Inr (), ?g\<lparr>rw_index_file := Some (pwrite (rw_index_append_offset f) (mapping_bytes (group_commit_buf ?g)) i),
         rw_index_append_offset := rw_index_append_offset f + 16 * Suc (length (group_commit_buf f))\<rparr>)"
    using append_index_bytes_room [of ?g i, OF _ _ _ _ _ all] Some r by simp
  show ?thesis
    using r Some a1 a2 by (auto simp: publish_def append_index_mapping_def Let_def index_room_def)
qed

lemma index_room_data [simp]:
  "index_room (f\<lparr>rw_data_file := d\<rparr>) k = index_room f k"
  "index_room (f\<lparr>rw_data_append_offset := a\<rparr>) k = index_room f k"
  "index_room (f\<lparr>append_digest := t\<rparr>) k = index_room f k"
  "index_room (index_insert m f) k = index_room f k"
  by (cases "rw_index_file f"; simp add: index_room_def index_insert_def)+

lemma index_room_le: "index_room f k \<Longrightarrow> j \<le> k \<Longrightarrow> index_room f j"
  by (auto simp: index_room_def split: option.splits)

lemma on_data_write:
  assumes "off + length d \<le> vf_limit (rw_data_file f)" "off mod 512 = 0" "length d mod 512 = 0"
  shows "on_data (vf_write_at off d) f = (Inr (length d), f\<lparr>rw_data_file := pwrite off d (rw_data_file f)\<rparr>)"
  using vf_write_at_fits [of off d "rw_data_file f"] assms by (simp add: on_data_def)

lemma publish_live:
  assumes "index_room f (Suc k)"
  obtains f' where "publish m f = (Inr (), f')" "index_room f' k" "rw_data_file f' = rw_data_file f"
    "rw_data_append_offset f' = rw_data_append_offset f" "file_type f' = file_type f" "rw_tag f' = rw_tag f"
proof -
  obtain f' where p: "publish m f = (Inr (), f')" "index_room f' k" using publish_room [OF assms] by blast
  have "index_frame f f'" using publish_frame [of f m] p(1) by simp
  from index_frame_simps [OF this] p that show ?thesis by auto
qed

lemma write_fragments_live:
  assumes "plan_ok U t s d e fs" "e * 512 \<le> length chunk"
    and "\<forall>b c p. U b = Some c \<longrightarrow> cell_phys c = Some p \<longrightarrow> p * 512 + 512 \<le> vf_limit (rw_data_file f)"
    and "rw_data_append_offset f mod 512 = 0" "nxt = None \<or> nxt = Some (rw_data_append_offset f)"
    and "rw_data_append_offset f + (e - d) * 512 \<le> vf_limit (rw_data_file f)" "vf_limit (rw_data_file f) < 2 ^ 63"
    and "index_room f (k + (e - d))"
  shows "\<exists>ins' f'. write_fragments chunk fs nxt ins f = (Inr ins', f') \<and> index_room f' k
    \<and> rw_data_append_offset f' \<le> rw_data_append_offset f + (e - d) * 512
    \<and> vf_limit (rw_data_file f') = vf_limit (rw_data_file f)"
  using assms
proof (induction fs arbitrary: d nxt ins f)
  case Nil
  then show ?case by auto
next
  case (Cons x fs)
  note prems = Cons.prems
  let ?L = "vf_limit (rw_data_file f)"
  have slice: "checked_slice (d * 512) (n * 512) chunk g = (Inr (subslice (d * 512) (n * 512) chunk), g)"
    "length (subslice (d * 512) (n * 512) chunk) = n * 512"
    if "plan_ok U t s (d + n) e fs" for n g
    using plan_ok_le [OF that] prems(2) by (auto simp: checked_slice_def subslice_def)
  have phys: "(p + n) * 512 \<le> ?L"
    if "0 < n" "\<And>j. j < n \<Longrightarrow> U (s + d + j) = Some (Cell z (Some (p + j)) t)" for n p z
  proof -
    note h = that
    obtain j where j: "n = Suc j" using h(1) by (cases n) auto
    have "(p + j) * 512 + 512 \<le> ?L" using prems(3) h(2) [of j] j by fastforce
    then show ?thesis using j by simp
  qed
  show ?case
  proof (cases x)
    case (InPlace off len ph)
    then obtain n p where p: "0 < n" "off = d * 512" "len = n * 512" "ph = p * 512"
      "\<And>j. j < n \<Longrightarrow> U (s + d + j) = Some (Cell False (Some (p + j)) t)" "plan_ok U t s (d + n) e fs"
      using prems(1) by auto
    have de: "d + n \<le> e" using plan_ok_le [OF p(6)] .
    let ?f = "f\<lparr>rw_data_file := pwrite (p * 512) (subslice (d * 512) (n * 512) chunk) (rw_data_file f)\<rparr>"
    have w: "on_data (vf_write_at (p * 512) (subslice (d * 512) (n * 512) chunk)) f = (Inr (n * 512), ?f)"
      using on_data_write [of "p * 512" "subslice (d * 512) (n * 512) chunk" f] phys [OF p(1,5)] slice(2) [OF p(6)]
      by (simp add: algebra_simps)
    have ir: "index_room f (k + (e - (d + n)))" by (rule index_room_le [OF prems(8)]) simp
    have "\<exists>ins' f'. write_fragments chunk fs nxt ins ?f = (Inr ins', f') \<and> index_room f' k
      \<and> rw_data_append_offset f' \<le> rw_data_append_offset ?f + (e - (d + n)) * 512 \<and> vf_limit (rw_data_file f') = vf_limit (rw_data_file ?f)"
      using prems ir de by (intro Cons.IH [OF p(6)]) (auto simp: diff_mult_distrib)
    then show ?thesis using InPlace p slice(1) [OF p(6)] w de by (auto simp: diff_mult_distrib)
  next
    case (ReuseZero lo off len ph)
    then obtain n p where p: "0 < n" "lo = (s + d) * 512" "off = d * 512" "len = n * 512" "ph = p * 512"
      "\<And>j. j < n \<Longrightarrow> U (s + d + j) = Some (Cell True (Some (p + j)) t)" "plan_ok U t s (d + n) e fs"
      using prems(1) by auto
    have de: "d + n \<le> e" using plan_ok_le [OF p(7)] .
    let ?f = "f\<lparr>rw_data_file := pwrite (p * 512) (subslice (d * 512) (n * 512) chunk) (rw_data_file f)\<rparr>"
    have w: "on_data (vf_write_at (p * 512) (subslice (d * 512) (n * 512) chunk)) f = (Inr (n * 512), ?f)"
      using on_data_write [of "p * 512" "subslice (d * 512) (n * 512) chunk" f] phys [OF p(1,6)] slice(2) [OF p(7)]
      by (simp add: algebra_simps)
    have ir: "index_room ?f (Suc (k + (e - (d + n))))"
      unfolding index_room_data by (rule index_room_le [OF prems(8)]) (use p(1) de in simp)
    let ?m = "rw_mapping ((s + d) * 512) (n * 512) (p * 512) ?f"
    obtain f2 where f2: "publish ?m ?f = (Inr (), f2)" "index_room f2 (k + (e - (d + n)))" "rw_data_file f2 = rw_data_file ?f"
      "rw_data_append_offset f2 = rw_data_append_offset ?f" using publish_live [OF ir] by metis
    have "\<exists>ins' f'. write_fragments chunk fs nxt (ins @ [?m]) f2 = (Inr ins', f') \<and> index_room f' k
      \<and> rw_data_append_offset f' \<le> rw_data_append_offset f2 + (e - (d + n)) * 512 \<and> vf_limit (rw_data_file f') = vf_limit (rw_data_file f2)"
      using prems f2 de by (intro Cons.IH [OF p(7)]) (auto simp: diff_mult_distrib)
    then show ?thesis using ReuseZero p slice(1) [OF p(7)] w f2 de by (auto simp: Let_def diff_mult_distrib)
  next
    case (Append lo off len)
    then obtain n where p: "0 < n" "lo = (s + d) * 512" "off = d * 512" "len = n * 512" "plan_ok U t s (d + n) e fs"
      using prems(1) by auto
    have de: "d + n \<le> e" using plan_ok_le [OF p(5)] .
    let ?A = "rw_data_append_offset f"
    have room: "?A + n * 512 \<le> ?L" using prems(6) de by (simp add: diff_mult_distrib)
    let ?f = "f\<lparr>rw_data_file := pwrite ?A (subslice (d * 512) (n * 512) chunk) (rw_data_file f), rw_data_append_offset := ?A + n * 512\<rparr>"
    have ph: "(case nxt of None \<Rightarrow> data_append_offset f | Some off \<Rightarrow> (Inr off, f)) = (Inr ?A, f)"
      using prems(4,5) by (auto simp: data_append_offset_def ensureR_def ALIGNMENT_def)
    have w: "on_data (vf_write_at ?A (subslice (d * 512) (n * 512) chunk)) f
        = (Inr (n * 512), f\<lparr>rw_data_file := pwrite ?A (subslice (d * 512) (n * 512) chunk) (rw_data_file f)\<rparr>)"
      using on_data_write [of ?A "subslice (d * 512) (n * 512) chunk" f] room prems(4) slice(2) [OF p(5)] by simp
    have sum: "checked_add_u64 ?A (n * 512) = Some (?A + n * 512)" using room prems(7) by (simp add: checked_add_u64_def)
    have ir: "index_room ?f (Suc (k + (e - (d + n))))"
      unfolding index_room_data by (rule index_room_le [OF prems(8)]) (use p(1) de in simp)
    let ?m = "rw_mapping ((s + d) * 512) (n * 512) ?A ?f"
    obtain f2 where f2: "publish ?m ?f = (Inr (), f2)" "index_room f2 (k + (e - (d + n)))" "rw_data_file f2 = rw_data_file ?f"
      "rw_data_append_offset f2 = rw_data_append_offset ?f" using publish_live [OF ir] by metis
    have "\<exists>ins' f'. write_fragments chunk fs (Some (?A + n * 512)) (ins @ [?m]) f2 = (Inr ins', f') \<and> index_room f' k
      \<and> rw_data_append_offset f' \<le> rw_data_append_offset f2 + (e - (d + n)) * 512 \<and> vf_limit (rw_data_file f') = vf_limit (rw_data_file f2)"
      using prems f2 de by (intro Cons.IH [OF p(5)]) (auto simp: diff_mult_distrib)
    then show ?thesis using Append p slice(1) [OF p(5)] w f2 de sum ph
      by (auto simp: Let_def advance_data_append_offset_def diff_mult_distrib)
  qed
qed

lemma upper_phys_limit:
  assumes "file_inv f" "upper_map f b = Some c" "cell_phys c = Some p"
  shows "p * 512 + 512 \<le> vf_limit (rw_data_file f)"
proof -
  have "p * 512 + 512 \<le> data_end f" using assms by (force simp: file_inv_def upper_cell_ok_def)
  moreover have "data_end f \<le> vf_size (rw_data_file f)" "vf_size (rw_data_file f) \<le> vf_limit (rw_data_file f)"
    using assms(1) by (auto simp: file_inv_def data_end_def layers_def vf_ok_def)
  ultimately show ?thesis by linarith
qed

lemma write_chunk_live:
  assumes inv: "file_inv f" and n: "off mod 512 = 0" "length chunk = n * 512" "0 < n" "length chunk < 2 ^ 40"
    "off + length chunk < 2 ^ 63"
    and room: "write_room f off (length chunk + r * 512)"
  shows "\<exists>f'. write_chunk off chunk f = (Inr (), f') \<and> write_room f' (off + length chunk) (r * 512)"
proof -
  have ne: "chunk \<noteq> []" "length chunk mod 512 = 0" using n by auto
  define B where "B = off div 512"
  have B: "off = B * 512" using n(1) by (auto simp: B_def)
  have ir: "index_room f (r + n)" using room n(2) by (simp add: write_room_def add.commute)
  have lim: "vf_limit (rw_data_file f) < 2 ^ 63" using inv by (auto simp: file_inv_def layers_def vf_ok_def)
  have shape: "write_room f' (off + length chunk) (r * 512)"
    if "write_chunk off chunk f = (Inr (), f')" "index_room f' r"
      "file_type f \<noteq> SparseReadWrite \<Longrightarrow> rw_data_append_offset f' \<le> rw_data_append_offset f + length chunk" for f'
  proof -
    have "same_shape f f'" using write_chunk_ok [OF inv n(1) ne(2,1) n(4,5) that(1)] by (simp add: chunk_done_def)
    then show ?thesis using that(2,3) room by (auto simp: write_room_def same_shape_def split: if_splits)
  qed
  consider "file_type f = SparseReadWrite" | "file_type f = ReadWrite" | "file_type f = HybridReadWrite"
    using inv by (cases "file_type f") (auto simp: file_inv_def)
  then show ?thesis
  proof cases
    case 1
    have u: "u64_add HEADER_SIZE off = 4096 + off" using n(5) by (simp add: HEADER_SIZE_def nowrap)
    have "(4096 + off) mod 512 = 0" using B by simp
    then have w: "write_chunk off chunk f = (Inr (), index_insert (rw_mapping off (length chunk) (4096 + off)
        (f\<lparr>rw_data_file := pwrite (4096 + off) chunk (rw_data_file f)\<rparr>)) (f\<lparr>rw_data_file := pwrite (4096 + off) chunk (rw_data_file f)\<rparr>))"
      using on_data_write [of "4096 + off" chunk f] room 1 ne(2)
      by (simp add: write_chunk_def write_chunk_sparse_def write_room_def u Let_def)
    show ?thesis using shape [OF w] w 1 index_room_le [OF ir, of r] by simp
  next
    case 2
    have A: "rw_data_append_offset f mod 512 = 0" using inv 2 by (auto simp: file_inv_def)
    have fit: "rw_data_append_offset f + length chunk \<le> vf_limit (rw_data_file f)" using room 2 by (simp add: write_room_def)
    let ?A = "rw_data_append_offset f"
    let ?g = "f\<lparr>rw_data_file := pwrite ?A chunk (rw_data_file f), rw_data_append_offset := ?A + length chunk,
      append_digest := absorb_or_drop ?A chunk (append_digest f)\<rparr>"
    let ?m = "rw_mapping off (length chunk) ?A ?g"
    have "index_room (index_insert ?m ?g) (Suc r)" using index_room_le [OF ir, of "Suc r"] n(3) by simp
    then obtain f' where f': "publish ?m (index_insert ?m ?g) = (Inr (), f')" "index_room f' r"
      "rw_data_append_offset f' = rw_data_append_offset (index_insert ?m ?g)" using publish_live by metis
    have w: "write_chunk off chunk f = (Inr (), f')"
      using f'(1) on_data_write [of ?A chunk f] A fit ne 2 lim
      by (simp add: write_chunk_def write_chunk_log_def data_append_offset_def ensureR_def ALIGNMENT_def
          advance_data_append_offset_def checked_add_u64_def Let_def)
    show ?thesis using shape [OF w] w f'(2,3) by simp
  next
    case 3
    have sz: "n < 2 ^ 32" "(B + n) * 512 < 2 ^ 64" using n(2,4,5) B by auto
    from hybrid_plan [OF inv B n(2) sz] obtain fs where
      fs: "plan_hybrid_write (upper (index f)) off (length chunk) = Inr fs"
      "plan_ok (upper_map f) (rw_tag f) B 0 n fs" by blast
    have "\<exists>ins' f'. write_fragments chunk fs None [] f = (Inr ins', f') \<and> index_room f' r
      \<and> rw_data_append_offset f' \<le> rw_data_append_offset f + (n - 0) * 512 \<and> vf_limit (rw_data_file f') = vf_limit (rw_data_file f)"
    proof (rule write_fragments_live [OF fs(2)])
      show "n * 512 \<le> length chunk" using n(2) by simp
      show "\<forall>b c p. upper_map f b = Some c \<longrightarrow> cell_phys c = Some p \<longrightarrow> p * 512 + 512 \<le> vf_limit (rw_data_file f)"
        using upper_phys_limit [OF inv] by blast
      show "rw_data_append_offset f mod 512 = 0" using inv 3 by (auto simp: file_inv_def)
      show "rw_data_append_offset f + (n - 0) * 512 \<le> vf_limit (rw_data_file f)" using room 3 n(2) by (simp add: write_room_def)
      show "index_room f (r + (n - 0))" using ir by simp
    qed (use lim in simp_all)
    then obtain ins' f' where f': "write_fragments chunk fs None [] f = (Inr ins', f')" "index_room f' r"
      "rw_data_append_offset f' \<le> rw_data_append_offset f + length chunk" using n(2) by auto
    have "write_chunk off chunk f = (Inr (), fold index_insert ins' f')"
      using 3 by (simp add: write_chunk_def write_chunk_hybrid_def fs(1) f'(1))
    moreover have "index_room (fold index_insert ins' f') r"
      using f'(2) by (induction ins' arbitrary: f') simp_all
    ultimately show ?thesis using shape f'(3) by simp
  qed
qed

lemma write_chunks_live:
  assumes "file_inv f" "0 < mio" "mio mod 512 = 0" "off mod 512 = 0" "length data mod 512 = 0" "length data < 2 ^ 40"
    "off + length data < 2 ^ 63" "length data \<le> fuel" "write_room f off (length data)"
  shows "\<exists>f'. write_chunks fuel mio off data tot f = (Inr (tot + length data), f')"
  using assms
proof (induction fuel arbitrary: off data tot f)
  case (Suc fuel)
  show ?case
  proof (cases "data = []")
    case False
    define k where "k = min (length data) mio"
    have k: "0 < k" "k \<le> length data" "k mod 512 = 0" using False Suc.prems by (auto simp: k_def min_def)
    have u: "u64_add off k = off + k" using Suc.prems(7) k by (simp add: nowrap)
    have lt: "length (take k data) = k" using k(2) by simp
    have al: "(off + k) mod 512 = 0" "length (drop k data) mod 512 = 0"
      using Suc.prems(4,5) k by (auto simp: mod_eq_0_iff_dvd dvd_diff_nat)
    define n r where "n = k div 512" and "r = (length data - k) div 512"
    have nr: "k = n * 512" "length data - k = r * 512" "0 < n"
      using k al by (auto simp: n_def r_def div_greater_zero_iff mod_eq_0_iff_dvd dvd_imp_le)
    have room: "write_room f off (length (take k data) + r * 512)" using Suc.prems(9) lt nr(2) k(2) by (simp flip: nr(2))
    obtain f1 where f1: "write_chunk off (take k data) f = (Inr (), f1)" "write_room f1 (off + k) (r * 512)"
      using write_chunk_live [OF Suc.prems(1,4) _ nr(3) _ _ room] lt nr(1) k(2) Suc.prems(6,7) by auto
    have "file_inv f1"
      using write_chunk_ok [OF Suc.prems(1,4) _ _ _ _ f1(1)] lt k Suc.prems(6,7) False by (auto simp: chunk_done_def)
    then have "\<exists>f'. write_chunks fuel mio (off + k) (drop k data) (tot + k) f1 = (Inr (tot + k + length (drop k data)), f')"
      using Suc.prems al k f1(2) nr(2) by (intro Suc.IH) auto
    then show ?thesis using False f1(1) k(2) by (auto simp: k_def [symmetric] Let_def u)
  qed simp
qed simp

lemma write_internal_live:
  assumes "file_inv f" "\<not> sealed f" "off mod 512 = 0" "length data mod 512 = 0" "length data < 2 ^ 40"
    "off + length data < 2 ^ 63" "write_room f off (length data)"
  shows "\<exists>f'. write_internal off data f = (Inr (length data), f')"
  using write_chunks_live [OF assms(1) _ _ assms(3-6) _ assms(7), of "max_io_size f" "length data" 0] max_io_512 [OF assms(1)] assms(2-4)
  by (auto simp: write_internal_def check_alignment_def ALIGNMENT_def)

subsection \<open>The writable layer as a file\<close>

definition lsmt_ok :: "LSMTFile \<Rightarrow> bool" where
  "lsmt_ok f \<longleftrightarrow> file_inv f \<and> virtual_size f < 2 ^ 63"

definition lsmt_io_ok :: "nat \<Rightarrow> nat \<Rightarrow> bool" where
  "lsmt_io_ok off n \<longleftrightarrow> off mod 512 = 0 \<and> n mod 512 = 0 \<and> n < 2 ^ 40 \<and> off + n < 2 ^ 63"

interpretation lsmt_file: virtual_file lsmt_ok virtual_size device lsmt_io_ok
  LSMTFile_read_at_into write_internal discard_range
proof
  fix f off and dst :: "byte list" assume "lsmt_ok f" "lsmt_io_ok off (length dst)"
  then show "LSMTFile_read_at_into f off dst =
      (Inr (min (length dst) (virtual_size f - off)),
       map (device f) [off..<off + min (length dst) (virtual_size f - off)] @ drop (min (length dst) (virtual_size f - off)) dst)"
    using read_at_into_device [of f off dst] by (simp add: lsmt_ok_def lsmt_io_ok_def)
next
  fix f off and data :: "byte list" and n f'
  assume "lsmt_ok f" "lsmt_io_ok off (length data)" "write_internal off data f = (Inr n, f')"
  then show "n = length data \<and> lsmt_ok f' \<and> virtual_size f \<le> virtual_size f' \<and> device f' = overlay off data (device f)"
    using write_internal_done [of f data off n f']
    by (auto simp: lsmt_ok_def lsmt_io_ok_def chunk_done_def same_shape_def)
next
  fix f off len v f' assume "lsmt_ok f" "lsmt_io_ok off len" "discard_range off len f = (Inr v, f')"
  then show "lsmt_ok f' \<and> virtual_size f' = virtual_size f \<and> device f' = overlay off (zeros len) (device f)"
    using discard_range_done [of f off len v f']
    by (auto simp: lsmt_ok_def lsmt_io_ok_def chunk_done_def same_shape_def)
qed

subsection \<open>Properties\<close>

text \<open>An empty layer of 1 MiB over a log file of one header block, for the witnesses.\<close>

definition sample_vfile :: "nat \<Rightarrow> VFile" where
  "sample_vfile n = \<lparr>vf_size = n, vf_byte = (\<lambda>_. 0), vf_alloc = (\<lambda>_. False), vf_granule = 4096,
     vf_limit = 2 ^ 40, vf_direct = False\<rparr>"

definition sample_file :: "RwLayout \<Rightarrow> LSMTFile" where
  "sample_file lay = \<lparr>index = \<lparr>upper = [], lower = None\<rparr>, lower_files = [], rw_data_file = sample_vfile 4096,
     rw_index_file = Some (sample_vfile 4096), virtual_size = 1048576, rw_tag = 0, sealed = False,
     max_io_size = MAX_IO_SIZE, uuids = [uuid_nil], file_type = RwLayout_file_type lay, group_commit_size = 0,
     group_commit_buf = [], rw_data_append_offset = 4096, rw_index_append_offset = 4096, append_digest = None\<rparr>"

lemma sample_vfile_ok: "n \<le> 2 ^ 40 \<Longrightarrow> vf_ok (sample_vfile n)"
  by (simp add: vf_ok_def sample_vfile_def)

lemma sample_file_inv: "file_inv (sample_file lay)"
  using sample_vfile_ok [of 4096]
  by (cases lay) (simp_all add: file_inv_def sample_file_def combo_ok_def index_ok_def layers_def upper_map_def
    lower_map_def phys_inj_def MAX_IO_SIZE_def sample_vfile_def)

lemma sample_file_ok: "lsmt_ok (sample_file lay)"
  by (simp add: lsmt_ok_def sample_file_inv) (simp add: sample_file_def)

text \<open>
  C9. Reading a writable layer through its index and its stack of files returns exactly the device: the
  bytes of the newest layer that maps each block, zeros for discarded and unmapped blocks, cut at the
  virtual size; the rest of the caller's buffer is untouched.
\<close>

theorem LSMTFile_read_device:
  assumes "file_inv f" "off mod 512 = 0" "length dst mod 512 = 0" "length dst < 2 ^ 40" "virtual_size f < 2 ^ 63"
  shows "LSMTFile_read_at_into f off dst =
    (let n = min (length dst) (virtual_size f - off)
     in (Inr n, map (map_byte (layers f) (combo_map (index f))) [off..<off + n] @ drop n dst))"
  using read_at_into_device [OF assms] by (simp add: device_def Let_def)

theorem LSMTFile_read_device_witness:
  "LSMTFile_read_at_into (sample_file Sparse) 512 (replicate 1024 7) =
    (let n = min (length (replicate 1024 (7 :: byte))) (virtual_size (sample_file Sparse) - 512)
     in (Inr n, map (map_byte (layers (sample_file Sparse)) (combo_map (index (sample_file Sparse)))) [512..<512 + n]
          @ drop n (replicate 1024 7)))"
proof -
  have h: "(512 :: nat) mod 512 = 0" "length (replicate 1024 (7 :: byte)) mod 512 = 0"
    "length (replicate 1024 (7 :: byte)) < 2 ^ 40" "virtual_size (sample_file Sparse) < 2 ^ 63"
    by (simp_all add: sample_file_def)
  show ?thesis by (rule LSMTFile_read_device [OF sample_file_inv h])
qed

text \<open>
  C1. A write to a writable layer, in the log-structured, sparse or hybrid layout, either stores the whole
  buffer and changes the device on exactly the written range, keeping the layer's invariant, size, layers
  and mode, or reports an error; it never panics on a slice bound and its loops end.
\<close>

theorem LSMTFile_write_overlays:
  assumes "file_inv f" "length data < 2 ^ 40" "off + length data < 2 ^ 63"
  shows "case write_internal off data f of
      (Inl e, f') \<Rightarrow> e \<noteq> Panic \<and> e \<noteq> Diverges
    | (Inr n, f') \<Rightarrow> n = length data \<and> file_inv f' \<and> same_shape f f' \<and> device f' = overlay off data (device f)"
  using write_internal_done [OF assms] sane_write_internal [OF assms]
  by (auto simp: chunk_done_def sane_def split: prod.splits sum.splits)

theorem LSMTFile_write_overlays_witness:
  "case write_internal 1024 (replicate 512 7) (sample_file HybridLogStructured) of
      (Inl e, f') \<Rightarrow> e \<noteq> Panic \<and> e \<noteq> Diverges
    | (Inr n, f') \<Rightarrow> n = length (replicate 512 (7 :: byte)) \<and> file_inv f' \<and> same_shape (sample_file HybridLogStructured) f'
        \<and> device f' = overlay 1024 (replicate 512 7) (device (sample_file HybridLogStructured))"
proof -
  have h: "length (replicate 512 (7 :: byte)) < 2 ^ 40" "1024 + length (replicate 512 (7 :: byte)) < 2 ^ 63" by simp_all
  show ?thesis by (rule LSMTFile_write_overlays [OF sample_file_inv h])
qed

text \<open>
  C11. A discard, in any layout, either makes its range read as zeros, hiding the lower layers there, and
  leaves every other byte of the device as it was, or reports an error.
\<close>

theorem LSMTFile_discard_zeroes:
  assumes "file_inv f" "off + len < 2 ^ 63"
  shows "case discard_range off len f of
      (Inl e, f') \<Rightarrow> e \<noteq> Panic \<and> e \<noteq> Diverges
    | (Inr _, f') \<Rightarrow> file_inv f' \<and> same_shape f f' \<and> device f' = (\<lambda>i. if off \<le> i \<and> i < off + len then 0 else device f i)"
proof -
  have "device f' = (\<lambda>i. if off \<le> i \<and> i < off + len then 0 else device f i)"
    if "device f' = overlay off (zeros len) (device f)" for f' :: LSMTFile
    using that by (auto simp: overlay_zeros fun_eq_iff)
  then show ?thesis
    using discard_range_done [OF assms] sane_discard_range [of off len f]
    by (auto simp: chunk_done_def sane_def split: prod.splits sum.splits)
qed

theorem LSMTFile_discard_zeroes_witness:
  "case discard_range 4096 8192 (sample_file LogStructured) of
      (Inl e, f') \<Rightarrow> e \<noteq> Panic \<and> e \<noteq> Diverges
    | (Inr _, f') \<Rightarrow> file_inv f' \<and> same_shape (sample_file LogStructured) f'
        \<and> device f' = (\<lambda>i. if 4096 \<le> i \<and> i < 4096 + 8192 then 0 else device (sample_file LogStructured) i)"
proof -
  have h: "(4096 :: nat) + 8192 < 2 ^ 63" by simp
  show ?thesis by (rule LSMTFile_discard_zeroes [OF sample_file_inv h])
qed

text \<open>
  C2. After any successful sequence of writes and discards, a read of the layer returns what the same
  sequence makes of a plain array of bytes: the layer is a linear block device whatever its layout.
\<close>

theorem LSMTFile_linear_history:
  assumes "lsmt_ok f" "\<forall>v\<in>set ops. case vop_range v of (o1, n) \<Rightarrow> lsmt_io_ok o1 n"
    "run_vops write_internal discard_range ops f = (Inr u, f')"
    "lsmt_io_ok off (length dst)" "off + length dst \<le> virtual_size f"
  shows "LSMTFile_read_at_into f' off dst =
    (Inr (length dst), map (fold vop_apply ops (device f)) [off..<off + length dst])"
  using assms by (rule lsmt_file.read_after_run)

lemma sample_write_room: "write_room (sample_file lay) 512 512"
  by (cases lay) (simp_all add: write_room_def index_room_def sample_file_def sample_vfile_def)

lemma sample_write:
  "write_internal 512 (replicate 512 7) (sample_file lay) = (Inr 512, snd (write_internal 512 (replicate 512 7) (sample_file lay)))"
  using write_internal_live [OF sample_file_inv, of lay 512 "replicate 512 7"] sample_write_room [of lay]
  by (auto simp: sample_file_def)

theorem LSMTFile_linear_history_witness:
  "LSMTFile_read_at_into (snd (write_internal 512 (replicate 512 7) (sample_file Sparse))) 0 (replicate 1024 1)
   = (Inr (length (replicate 1024 (1 :: byte))),
      map (fold vop_apply [VWrite 512 (replicate 512 7)] (device (sample_file Sparse)))
        [0..<0 + length (replicate 1024 (1 :: byte))])"
proof -
  obtain f' where f': "write_internal 512 (replicate 512 7) (sample_file Sparse) = (Inr 512, f')"
    using sample_write by blast
  have h: "\<forall>v\<in>set [VWrite 512 (replicate 512 7)]. case vop_range v of (o1, n) \<Rightarrow> lsmt_io_ok o1 n"
    "run_vops write_internal discard_range [VWrite 512 (replicate 512 7)] (sample_file Sparse)
       = (Inr (), snd (write_internal 512 (replicate 512 7) (sample_file Sparse)))"
    "lsmt_io_ok 0 (length (replicate 1024 (1 :: byte)))"
    "0 + length (replicate 1024 (1 :: byte)) \<le> virtual_size (sample_file Sparse)"
    by (simp add: lsmt_io_ok_def) (simp add: f', simp_all add: lsmt_io_ok_def sample_file_def)
  show ?thesis by (rule LSMTFile_linear_history [OF sample_file_ok h])
qed

text \<open>
  C10. An aligned write to an unsealed layer succeeds and is visible whenever the data file has room for the
  bytes and the index file has room for one mapping per written sector, in each of the three layouts.
\<close>

theorem LSMTFile_write_succeeds:
  assumes "file_inv f" "\<not> sealed f" "off mod 512 = 0" "length data mod 512 = 0" "length data < 2 ^ 40"
    "off + length data < 2 ^ 63" "write_room f off (length data)"
  shows "\<exists>f'. write_internal off data f = (Inr (length data), f') \<and> file_inv f' \<and> device f' = overlay off data (device f)"
  using write_internal_live [OF assms] write_internal_done [OF assms(1,5,6)] by (fastforce simp: chunk_done_def)

theorem LSMTFile_write_succeeds_witness:
  "\<exists>f'. write_internal 512 (replicate 512 7) (sample_file LogStructured) = (Inr (length (replicate 512 (7 :: byte))), f')
    \<and> file_inv f' \<and> device f' = overlay 512 (replicate 512 7) (device (sample_file LogStructured))"
proof -
  have h: "\<not> sealed (sample_file LogStructured)" "(512 :: nat) mod 512 = 0" "length (replicate 512 (7 :: byte)) mod 512 = 0"
    "length (replicate 512 (7 :: byte)) < 2 ^ 40" "512 + length (replicate 512 (7 :: byte)) < 2 ^ 63"
    "write_room (sample_file LogStructured) 512 (length (replicate 512 (7 :: byte)))"
    using sample_write_room [of LogStructured] by (simp_all add: sample_file_def)
  show ?thesis by (rule LSMTFile_write_succeeds [OF sample_file_inv h])
qed

end
