(* ===== verification/Lsmt_Log.thy ===== *)
theory Lsmt_Log
  imports Lsmt_Open Lsmt_Device
begin

text \<open>
  The index file as a log. A log-structured or hybrid layer publishes every mapping to its index file,
  directly or through the group-commit buffer; replaying the file gives the upper index back. The theory
  shows that each write and each discard keeps this correspondence, that a flush empties the buffer, and
  that opening the files of a flushed layer recovers its device.
\<close>

subsection \<open>Reading an index back\<close>

lemma mapping_bytes_simps [simp]:
  "mapping_bytes [] = []" "mapping_bytes (d # ds) = disk_bytes d @ mapping_bytes ds"
  "mapping_bytes (ds @ es) = mapping_bytes ds @ mapping_bytes es"
  by (simp_all add: mapping_bytes_def)

lemma subslice_mapping:
  "i < length ds \<Longrightarrow> subslice (i * 16) 16 (mapping_bytes ds @ rest) = disk_bytes (ds ! i)"
proof (induction ds arbitrary: i)
  case (Cons d ds)
  then show ?case by (cases i) (simp_all add: subslice_def)
qed simp

lemma index_chunks_mapping:
  "index_chunks (length ds) (mapping_bytes ds @ rest) = map disk_bytes ds"
  by (rule nth_equalityI) (simp_all add: index_chunks_def DISK_MAPPING_SIZE_def subslice_mapping)

definition loggable :: "SegmentMapping \<Rightarrow> bool" where
  "loggable m \<longleftrightarrow> disk_fits m \<and> 0 < m_length m \<and> (zeroed m \<or> has_physical_range m)"

lemma load_mappings_disk:
  "\<forall>m\<in>set ms. loggable m \<Longrightarrow>
     load_mappings True (map disk_bytes (map from_memory ms)) = Inr (map (\<lambda>m. m\<lparr>tag := 0\<rparr>) ms)"
proof (induction ms)
  case (Cons m ms)
  then have m: "to_memory (from_memory m) = m" "0 < m_length m" "m_offset m < 2 ^ 50" "zeroed m \<or> has_physical_range m"
    using to_memory_from_memory [of m] by (auto simp: loggable_def disk_fits_def)
  then show ?case using Cons by (simp add: disk_read_disk_bytes)
qed simp

lemma load_index_disk:
  assumes "vf_ok file" "\<forall>m\<in>set ms. loggable m" "off + 16 * length ms \<le> vf_size file"
    "vf_bytes file off (16 * length ms) = mapping_bytes (map from_memory ms)"
  shows "load_index file off (length ms) True = Inr (map (\<lambda>m. m\<lparr>tag := 0\<rparr>) ms)"
proof (cases "ms = []")
  case False
  let ?n = "16 * length ms"
  have lim: "off + ?n < 2 ^ 63" using assms(1,3) by (auto simp: vf_ok_def)
  have "min ?n (vf_size file - off) = ?n" using assms(3) by simp
  then have r: "vf_read_at_into file off (replicate ?n 0) = (Inr ?n, mapping_bytes (map from_memory ms))"
    using vf_read_at_into_eq [OF assms(1), of off "replicate ?n 0"] lim assms(4) by simp
  have "index_chunks (length ms) (mapping_bytes (map from_memory ms)) = map disk_bytes (map from_memory ms)"
    using index_chunks_mapping [of "map from_memory ms" "[]"] by simp
  then show ?thesis
    using False lim assms(3) r load_mappings_disk [OF assms(2)]
    by (simp add: load_index_def DISK_MAPPING_SIZE_def Let_def checked_add_u64_def mult.commute)
qed (simp add: load_index_def)

subsection \<open>The index log\<close>

text \<open>
  The index file of a log-structured or hybrid layer is a log: the mappings published so far, those in
  the group-commit buffer last. Replaying it gives the upper index with the layer's tag put back.
\<close>

definition short :: "SegmentMapping \<Rightarrow> bool" where
  "short m \<longleftrightarrow> m_length m < 2 ^ 14 \<and> m_offset m + m_length m \<le> 2 ^ 50"

definition log_entry :: "SegmentMapping \<Rightarrow> bool" where
  "log_entry m \<longleftrightarrow> short m \<and> 0 < m_length m \<and> mapping_ok m \<and> tag m = 0"

definition index_log :: "LSMTFile \<Rightarrow> SegmentMapping list \<Rightarrow> bool" where
  "index_log f L \<longleftrightarrow>
     (\<exists>i. rw_index_file f = Some i \<and> vf_ok i \<and> 4096 \<le> vf_size i \<and> rw_index_append_offset f = vf_size i
        \<and> vf_bytes i 4096 (vf_size i - 4096) @ mapping_bytes (group_commit_buf f) = mapping_bytes (map from_memory L))
     \<and> (group_commit_size f = 0 \<longrightarrow> group_commit_buf f = []) \<and> (\<forall>m\<in>set L. log_entry m)"

definition upper_log :: "LSMTFile \<Rightarrow> SegmentMapping list \<Rightarrow> bool" where
  "upper_log f L \<longleftrightarrow> (\<forall>b. upper_map f b = map_option (retag (rw_tag f)) (imap (insert_all_mappings L) b))
     \<and> (\<forall>m\<in>set (upper (index f)). short m)"

lemma short_fits: "short m \<Longrightarrow> mapping_ok m \<Longrightarrow> 0 < m_length m \<Longrightarrow> disk_fits m"
  by (auto simp: short_def disk_fits_def mapping_ok_def NO_PHYSICAL_OFFSET_def)

lemma insert_short:
  assumes m: "mapping_ok m" "short m" and S: "index_ok xs" "\<forall>x\<in>set xs. short x"
  shows "\<forall>x\<in>set (MutableIndex_insert xs m). short x"
proof (cases "m_length m = 0")
  case True
  then show ?thesis using S by (simp add: MutableIndex_insert_def)
next
  case False
  have "short p" if d: "d \<in> set xs" "meets (segment m) d" and p: "p \<in> pieces m d" for d p
  proof -
    have ok: "mapping_ok d" "short d" using S d by (auto simp: index_ok_def)
    show ?thesis
      using p ok d(2) backward_end_to_props [OF ok(1), of "m_offset m"] forward_offset_to_props [OF ok(1), of "m_offset m + m_length m"]
      by (auto simp: pieces_def short_def meets_def split: if_splits)
  qed
  then show ?thesis using MutableIndex_insert_set [OF m(1) _ S(1)] False m(2) S(2) by auto
qed

lemma pwrite_append_bytes:
  assumes "a \<le> vf_size i"
  shows "vf_bytes (pwrite (vf_size i) bs i) a (vf_size i + length bs - a) = vf_bytes i a (vf_size i - a) @ bs"
  using assms by (intro nth_equalityI) (auto simp: pwrite_byte nth_append add.commute)

lemma append_index_bytes_log:
  assumes i: "rw_index_file f = Some i" "vf_ok i" "4096 \<le> vf_size i" "rw_index_append_offset f = vf_size i"
    and w: "append_index_bytes bs f = (Inr v, f')"
  shows "\<exists>j. f' = f\<lparr>rw_index_file := Some j, rw_index_append_offset := vf_size j\<rparr> \<and> vf_ok j \<and> 4096 \<le> vf_size j
    \<and> vf_bytes j 4096 (vf_size j - 4096) = vf_bytes i 4096 (vf_size i - 4096) @ bs"
proof (cases "bs = []")
  case True
  then show ?thesis using i w by (intro exI [of _ i]) (auto simp: append_index_bytes_def)
next
  case False
  obtain n j where j: "vf_write_at (vf_size i) bs i = (Inr n, j)"
    and f': "f' = f\<lparr>rw_index_file := Some j, rw_index_append_offset := vf_size i + length bs\<rparr>"
    using w False i(1,4)
    by (auto simp: append_index_bytes_def bindR_eq_Inr index_append_offset_def on_index_file_def
        advance_index_append_offset_def checked_add_u64_def split: prod.splits if_splits)
  have jj: "j = pwrite (vf_size i) bs i" "vf_size i + length bs \<le> vf_limit i"
    using vf_write_at_Inr [OF j] False by auto
  have sz: "vf_size j = vf_size i + length bs" using False by (simp add: jj(1) pwrite_size)
  show ?thesis
    using f' sz pwrite_ok [OF i(2) jj(2)] i(3) pwrite_append_bytes [OF i(3), of bs] jj(1)
    by (intro exI [of _ j]) auto
qed

lemma publish_index_log:
  assumes L: "index_log f L" and m: "log_entry (m\<lparr>tag := 0\<rparr>)" and p: "publish m f = (Inr v, f')"
  shows "index_log f' (L @ [m\<lparr>tag := 0\<rparr>])"
proof -
  obtain i where i: "rw_index_file f = Some i" "vf_ok i" "4096 \<le> vf_size i" "rw_index_append_offset f = vf_size i"
    and log: "vf_bytes i 4096 (vf_size i - 4096) @ mapping_bytes (group_commit_buf f) = mapping_bytes (map from_memory L)"
    and gc: "group_commit_size f = 0 \<longrightarrow> group_commit_buf f = []"
    and all: "\<forall>m\<in>set L. log_entry m" using L by (auto simp: index_log_def)
  define d where "d = from_memory (m\<lparr>tag := 0\<rparr>)"
  define g where "g = f\<lparr>group_commit_buf := group_commit_buf f @ [d]\<rparr>"
  have g: "rw_index_file g = Some i" "rw_index_append_offset g = vf_size i" "group_commit_buf g = group_commit_buf f @ [d]"
    "group_commit_size g = group_commit_size f" using i by (simp_all add: g_def)
  have L': "mapping_bytes (map from_memory (L @ [m\<lparr>tag := 0\<rparr>])) = mapping_bytes (map from_memory L) @ disk_bytes d"
    by (simp add: d_def)
  have full: "vf_bytes i 4096 (vf_size i - 4096) @ mapping_bytes (group_commit_buf g)
      = mapping_bytes (map from_memory (L @ [m\<lparr>tag := 0\<rparr>]))"
    unfolding L' g(3) by (simp flip: log)
  have all': "\<forall>x\<in>set (L @ [m\<lparr>tag := 0\<rparr>]). log_entry x" using all m by simp
  have e: "append_index_mapping d f = (Inr v, f')" using p by (simp add: publish_def d_def)
  then consider "group_commit_size f = 0" "append_index_bytes (disk_bytes d) f = (Inr v, f')"
    | h where "append_index_bytes (mapping_bytes (group_commit_buf g)) g = (Inr (), h)" "f' = h\<lparr>group_commit_buf := []\<rparr>"
    | "f' = g" "group_commit_size f \<noteq> 0"
    unfolding append_index_mapping_def Let_def g_def [symmetric] by (auto simp: bindR_eq_Inr split: if_splits)
  then show ?thesis
  proof cases
    case 1
    from append_index_bytes_log [OF i 1(2)] obtain j where
      j: "f' = f\<lparr>rw_index_file := Some j, rw_index_append_offset := vf_size j\<rparr>" "vf_ok j" "4096 \<le> vf_size j"
      "vf_bytes j 4096 (vf_size j - 4096) = vf_bytes i 4096 (vf_size i - 4096) @ disk_bytes d" by blast
    have "vf_bytes i 4096 (vf_size i - 4096) = mapping_bytes (map from_memory L)" using log gc 1(1) by simp
    then show ?thesis unfolding index_log_def L' using j gc 1(1) all' by (intro conjI exI [of _ j]) simp_all
  next
    case 2
    from append_index_bytes_log [OF g(1) i(2,3) g(2) 2(1)] obtain j where
      j: "h = g\<lparr>rw_index_file := Some j, rw_index_append_offset := vf_size j\<rparr>" "vf_ok j" "4096 \<le> vf_size j"
      "vf_bytes j 4096 (vf_size j - 4096) = vf_bytes i 4096 (vf_size i - 4096) @ mapping_bytes (group_commit_buf g)" by blast
    show ?thesis unfolding index_log_def using j full all' 2(2) by (intro conjI exI [of _ j]) simp_all
  next
    case 3
    show ?thesis unfolding index_log_def 3(1) using i g full all' 3(2) by (intro conjI exI [of _ i]) simp_all
  qed
qed

lemma insert_all_append:
  "insert_all_mappings (L @ [m]) = MutableIndex_insert (insert_all_mappings L) m"
  by (simp add: insert_all_mappings_def)

lemma insert_all_ok: "\<forall>m\<in>set L. mapping_ok m \<Longrightarrow> index_ok (insert_all_mappings L)"
proof (induction L rule: rev_induct)
  case (snoc m L)
  then show ?case using MutableIndex_insert_ok by (simp add: insert_all_append)
qed (simp add: insert_all_mappings_def index_ok_def)

lemma insert_all_imap:
  assumes "\<forall>m\<in>set (L @ [m]). mapping_ok m"
  shows "imap (insert_all_mappings (L @ [m])) b = (if covers m b then Some (cell_at m b) else imap (insert_all_mappings L) b)"
  using MutableIndex_insert_imap [of m "insert_all_mappings L" b] insert_all_ok [of L] assms by (simp add: insert_all_append)

lemma upper_log_insert:
  assumes "combo_ok (index f)" "mapping_ok m" "tag m = rw_tag f" "\<forall>x\<in>set L. log_entry x" "upper_log f L"
    "log_entry (m\<lparr>tag := 0\<rparr>)"
  shows "upper_log (index_insert m f) (L @ [m\<lparr>tag := 0\<rparr>])"
proof -
  have ok: "\<forall>x\<in>set (L @ [m\<lparr>tag := 0\<rparr>]). mapping_ok x" using assms(4,6) by (auto simp: log_entry_def)
  have "upper_map (index_insert m f) b = (if covers m b then Some (cell_at m b) else upper_map f b)" for b
    using upper_insert(1) [OF assms(1,2)] .
  moreover have "retag (rw_tag f) (cell_at (m\<lparr>tag := 0\<rparr>) b) = cell_at m b" for b
    using assms(3) by (simp add: retag_def cell_at_def has_physical_range_def)
  moreover have "\<forall>x\<in>set (MutableIndex_insert (upper (index f)) m). short x"
    using assms(1,2,5,6) by (intro insert_short) (auto simp: log_entry_def short_def combo_ok_def upper_log_def)
  ultimately show ?thesis
    using assms(5) by (simp add: insert_all_imap [OF ok] retag_cell upper_log_def index_insert_def ComboIndex_insert_def)
qed

lemma insert_all_short: "\<forall>m\<in>set L. log_entry m \<Longrightarrow> \<forall>m\<in>set (insert_all_mappings L). short m"
proof (induction L rule: rev_induct)
  case (snoc m L)
  then have "index_ok (insert_all_mappings L)" by (intro insert_all_ok) (auto simp: log_entry_def)
  then show ?case using snoc insert_short [of m] by (auto simp: insert_all_append log_entry_def)
qed (simp add: insert_all_mappings_def)

text \<open>
  The data file of such a layer ends at the append cursor and starts with its header. The digest tracker of a
  log-structured layer has absorbed a prefix of it; the other layouts have none.
\<close>

definition contents :: "VFile \<Rightarrow> byte list" where
  "contents d = vf_bytes d 0 (vf_size d)"

lemma contents_slice: "off + n \<le> vf_size d \<Longrightarrow> vf_bytes d off n = take n (drop off (contents d))"
  by (intro nth_equalityI) (auto simp: contents_def)

lemma length_contents [simp]: "length (contents d) = vf_size d"
  by (simp add: contents_def)

lemma pwrite_end:
  assumes "vf_ok d" "bs = [] \<or> vf_size d + length bs \<le> vf_limit d"
  shows "vf_ok (pwrite (vf_size d) bs d)" "vf_size (pwrite (vf_size d) bs d) = vf_size d + length bs"
    "contents (pwrite (vf_size d) bs d) = contents d @ bs"
proof -
  show "vf_ok (pwrite (vf_size d) bs d)" using assms pwrite_ok [of d "vf_size d" bs] by (auto simp: pwrite_def)
  show s: "vf_size (pwrite (vf_size d) bs d) = vf_size d + length bs" by (simp add: pwrite_size)
  show "contents (pwrite (vf_size d) bs d) = contents d @ bs"
    unfolding contents_def s by (intro nth_equalityI) (auto simp: pwrite_byte nth_append)
qed

definition digest_ok :: "LSMTFile \<Rightarrow> bool" where
  "digest_ok f \<longleftrightarrow> (\<forall>t. append_digest f = Some t \<longrightarrow>
     ad_offset t \<le> vf_size (rw_data_file f) \<and> hasher t = take (ad_offset t) (contents (rw_data_file f)))"

lemma absorb_or_drop_end:
  assumes "absorb_or_drop (length c) bs td = Some t" "\<forall>t. td = Some t \<longrightarrow> ad_offset t \<le> length c \<and> hasher t = take (ad_offset t) c"
  shows "ad_offset t \<le> length (c @ bs) \<and> hasher t = take (ad_offset t) (c @ bs)"
    "bs \<noteq> [] \<Longrightarrow> ad_offset t = length (c @ bs)"
  using assms
  by (auto simp: absorb_or_drop_def absorb_def checked_add_u64_def split: option.splits if_splits sum.splits)

lemma digest_ok_cong:
  "rw_data_file g = rw_data_file f \<Longrightarrow> append_digest g = append_digest f \<Longrightarrow> digest_ok g = digest_ok f"
  by (simp add: digest_ok_def)

definition data_tidy :: "LSMTFile \<Rightarrow> HeaderTrailer \<Rightarrow> bool" where
  "data_tidy f h \<longleftrightarrow> vf_size (rw_data_file f) = rw_data_append_offset f \<and> 4096 \<le> rw_data_append_offset f
     \<and> vf_bytes (rw_data_file f) 0 HT_SIZE = ht_bytes h \<and> digest_ok f
     \<and> (file_type f = HybridReadWrite \<longrightarrow> append_digest f = None)"

definition durable :: "LSMTFile \<Rightarrow> HeaderTrailer \<Rightarrow> SegmentMapping list \<Rightarrow> bool" where
  "durable f h L \<longleftrightarrow> index_log f L \<and> upper_log f L \<and> data_tidy f h"

lemma pwrite_header:
  assumes "4096 \<le> off"
  shows "vf_bytes (pwrite off bs d) 0 HT_SIZE = vf_bytes d 0 HT_SIZE"
  using assms by (intro nth_equalityI) (auto simp: pwrite_byte HT_SIZE_def)

lemma tidy_append:
  assumes "data_tidy f h" "bs \<noteq> []" "vf_ok (rw_data_file f)" "rw_data_append_offset f + length bs \<le> vf_limit (rw_data_file f)"
  shows "data_tidy (f\<lparr>rw_data_file := pwrite (rw_data_append_offset f) bs (rw_data_file f),
    rw_data_append_offset := rw_data_append_offset f + length bs,
    append_digest := absorb_or_drop (rw_data_append_offset f) bs (append_digest f)\<rparr>) h"
proof -
  let ?d = "rw_data_file f"
  have s: "rw_data_append_offset f = vf_size ?d" "4096 \<le> vf_size ?d" "vf_bytes ?d 0 HT_SIZE = ht_bytes h"
    and dg: "\<forall>t. append_digest f = Some t \<longrightarrow> ad_offset t \<le> length (contents ?d) \<and> hasher t = take (ad_offset t) (contents ?d)"
    and hy: "file_type f = HybridReadWrite \<longrightarrow> append_digest f = None"
    using assms(1) unfolding data_tidy_def digest_ok_def length_contents by (elim conjE, simp)+
  have "bs = [] \<or> vf_size ?d + length bs \<le> vf_limit ?d" using assms(4) s(1) by simp
  note e = pwrite_end [OF assms(3) this]
  have "digest_ok (f\<lparr>rw_data_file := pwrite (vf_size ?d) bs ?d, rw_data_append_offset := vf_size ?d + length bs,
      append_digest := absorb_or_drop (vf_size ?d) bs (append_digest f)\<rparr>)"
    using absorb_or_drop_end(1) [of "contents ?d" bs "append_digest f", OF _ dg] e(2,3) by (auto simp: digest_ok_def)
  then show ?thesis
    unfolding data_tidy_def s(1) using s(2,3) hy e(2) pwrite_header [OF s(2), of bs ?d] by (simp add: absorb_or_drop_def)
qed

lemma tidy_append_hybrid:
  assumes "data_tidy f h" "bs \<noteq> []" "vf_ok (rw_data_file f)" "rw_data_append_offset f + length bs \<le> vf_limit (rw_data_file f)"
    "file_type f = HybridReadWrite"
  shows "data_tidy (f\<lparr>rw_data_file := pwrite (rw_data_append_offset f) bs (rw_data_file f),
    rw_data_append_offset := rw_data_append_offset f + length bs\<rparr>) h"
  using tidy_append [OF assms(1-4)] assms(1,5) by (simp add: data_tidy_def digest_ok_def)

lemma tidy_inplace:
  assumes "data_tidy f h" "4096 \<le> off" "off + length bs \<le> rw_data_append_offset f" "file_type f = HybridReadWrite"
  shows "data_tidy (f\<lparr>rw_data_file := pwrite off bs (rw_data_file f)\<rparr>) h"
  using assms pwrite_header [of off bs "rw_data_file f"] by (simp add: data_tidy_def digest_ok_def pwrite_size max_def)

lemma tidy_cong:
  "rw_data_file g = rw_data_file f \<Longrightarrow> rw_data_append_offset g = rw_data_append_offset f \<Longrightarrow>
   append_digest g = append_digest f \<Longrightarrow> file_type g = file_type f \<Longrightarrow> data_tidy g h = data_tidy f h"
  using digest_ok_cong [of g f] by (simp add: data_tidy_def)

lemma index_insert_digest [simp]: "append_digest (index_insert m f) = append_digest f"
  by (simp add: index_insert_def)

lemma index_log_cong:
  "rw_index_file g = rw_index_file f \<Longrightarrow> rw_index_append_offset g = rw_index_append_offset f \<Longrightarrow>
   group_commit_buf g = group_commit_buf f \<Longrightarrow> group_commit_size g = group_commit_size f \<Longrightarrow> index_log g L = index_log f L"
  by (simp add: index_log_def)

lemma upper_log_cong: "index g = index f \<Longrightarrow> rw_tag g = rw_tag f \<Longrightarrow> upper_log g L = upper_log f L"
  by (simp add: upper_log_def upper_map_def)

lemma data_entry:
  assumes "0 < n" "n < 2 ^ 14" "B + n < 2 ^ 50" "P + n \<le> NO_PHYSICAL_OFFSET" "rw_tag f < 2 ^ 8"
  defines "m \<equiv> SegmentMapping_new B (as_u32 n) P False (as_u8 (rw_tag f))"
  shows "log_entry (m\<lparr>tag := 0\<rparr>)" "mapping_ok m" "tag m = rw_tag f"
  using assms(1-5) unfolding m_def
  by (auto simp: log_entry_def short_def mapping_ok_def has_physical_range_def NO_PHYSICAL_OFFSET_def nowrap)

lemma index_log_entries: "index_log f L \<Longrightarrow> \<forall>x\<in>set L. log_entry x"
  by (simp add: index_log_def)

lemma write_chunk_log_durable:
  assumes inv: "file_inv f" and ty: "file_type f = ReadWrite" and D: "durable f h L"
    and al: "off = B * 512" "length chunk = n * 512" "0 < n" "n < 2 ^ 14" "B + n < 2 ^ 50"
    and w: "write_chunk_log off chunk f = (Inr v, f')"
  shows "\<exists>L'. durable f' h L'"
proof -
  have ne: "chunk \<noteq> []" using al(2,3) by auto
  have i: "combo_ok (index f)" "rw_tag f < 2 ^ 8" "rw_data_append_offset f mod 512 = 0" "4096 \<le> rw_data_append_offset f"
    using inv ty by (auto simp: file_inv_def)
  define P where "P = rw_data_append_offset f div 512"
  have P: "rw_data_append_offset f = P * 512" using i(3) unfolding P_def by auto
  define g where "g = f\<lparr>rw_data_file := pwrite (P * 512) chunk (rw_data_file f),
      rw_data_append_offset := P * 512 + length chunk,
      append_digest := absorb_or_drop (P * 512) chunk (append_digest f)\<rparr>"
  define m where "m = rw_mapping off (length chunk) (P * 512) g"
  have lim: "P * 512 + length chunk \<le> vf_limit (rw_data_file f)"
    and pub: "publish m (index_insert m g) = (Inr v, f')"
    using w vf_write_at_Inr [of "P * 512" chunk "rw_data_file f"] ne
    by (auto simp: write_chunk_log_def bindR_eq_Inr data_append_offset_def on_data_Inr advance_data_Inr P g_def m_def
        Let_def)
  have m: "m = SegmentMapping_new B (as_u32 n) P False (as_u8 (rw_tag f))"
    using al by (simp add: m_def rw_mapping_def ALIGNMENT_def g_def)
  have "(P + n) * 512 \<le> vf_limit (rw_data_file f)" using lim al(2) by (simp add: algebra_simps)
  note e = data_entry [OF al(3-5) limit_phys [OF inv this] i(2), folded m]
  have Lg: "index_log (index_insert m g) L" "upper_log g L" "\<forall>x\<in>set L. log_entry x"
    using D index_log_cong [of "index_insert m g" f L] upper_log_cong [of g f L]
    by (auto simp: durable_def g_def index_insert_def index_log_entries)
  have "index_log f' (L @ [m\<lparr>tag := 0\<rparr>])" by (rule publish_index_log [OF Lg(1) e(1) pub])
  moreover have fr: "index_frame (index_insert m g) f'" using publish_frame [of "index_insert m g" m] pub by simp
  moreover have "upper_log (index_insert m g) (L @ [m\<lparr>tag := 0\<rparr>])"
    using i(1) e Lg by (intro upper_log_insert) (auto simp: g_def)
  moreover have "data_tidy g h"
    using tidy_append [of f h chunk] D ne inv lim by (simp add: durable_def g_def P file_inv_def layers_def)
  ultimately show ?thesis
    using upper_log_cong [of f' "index_insert m g"] tidy_cong [of f' g h] index_frame_simps [OF fr]
    by (auto simp: durable_def)
qed

lemma frag_stored_durable:
  assumes inv: "file_inv (fold index_insert ins f)" "file_type f = HybridReadWrite"
    and D: "index_log f L" "upper_log (fold index_insert ins f) L" "data_tidy f h"
    and n: "length d = n * 512" "0 < n" "n < 2 ^ 14" "B + n < 2 ^ 50"
    and st: "frag_stored B n d f ins f2 ins2"
  shows "\<exists>L'. index_log f2 L' \<and> upper_log (fold index_insert ins2 f2) L' \<and> data_tidy f2 h"
proof -
  let ?g = "fold index_insert ins f"
  have an: "combo_ok (index ?g)" "rw_tag f < 2 ^ 8" "vf_ok (rw_data_file f)" using inv by (auto simp: file_inv_def layers_def)
  consider P where "8 \<le> P" "(P + n) * 512 \<le> rw_data_append_offset f"
      "f2 = f\<lparr>rw_data_file := pwrite (P * 512) d (rw_data_file f)\<rparr>" "ins2 = ins"
    | P A m where "m = SegmentMapping_new B (as_u32 n) P False (as_u8 (rw_tag f))" "ins2 = ins @ [m]"
      "(P + n) * 512 \<le> vf_limit (rw_data_file f)"
      "publish m (f\<lparr>rw_data_file := pwrite (P * 512) d (rw_data_file f), rw_data_append_offset := A\<rparr>) = (Inr (), f2)"
      "8 \<le> P \<and> (P + n) * 512 \<le> rw_data_append_offset f \<and> A = rw_data_append_offset f
       \<or> P * 512 = rw_data_append_offset f \<and> A = rw_data_append_offset f + n * 512"
    using st unfolding frag_stored_def by blast
  then show ?thesis
  proof cases
    case 1
    have "data_tidy f2 h" unfolding 1(3) using D(3) 1(1,2) n(1) inv(2) by (intro tidy_inplace) (auto simp: algebra_simps)
    moreover have "index_log f2 L" using D(1) index_log_cong [of f2 f] 1(3) by simp
    moreover have "upper_log (fold index_insert ins f2) L"
      using D(2) upper_log_cong [of "fold index_insert ins f2" ?g L] 1(3) by (simp add: pending_data)
    ultimately show ?thesis using 1(4) by blast
  next
    case 2
    let ?f = "f\<lparr>rw_data_file := pwrite (P * 512) d (rw_data_file f), rw_data_append_offset := A\<rparr>"
    have "P + n \<le> NO_PHYSICAL_OFFSET" using limit_phys [OF inv(1), of P n] 2(3) by simp
    note e = data_entry [OF n(2-4) this an(2), folded 2(1)]
    have fr: "index_frame ?f f2" using publish_frame [of ?f m] 2(4) by simp
    have "index_log ?f L" using D(1) index_log_cong [of ?f f] by simp
    then have "index_log f2 (L @ [m\<lparr>tag := 0\<rparr>])" by (rule publish_index_log [OF _ e(1) 2(4)])
    moreover have "upper_log (index_insert m ?g) (L @ [m\<lparr>tag := 0\<rparr>])"
      using an e D(2) index_log_entries [OF D(1)] by (intro upper_log_insert) auto
    then have "upper_log (fold index_insert (ins @ [m]) f2) (L @ [m\<lparr>tag := 0\<rparr>])"
      using upper_log_cong [of "fold index_insert (ins @ [m]) f2" "index_insert m ?g"] index_frame_simps [OF fr]
      by (simp add: fold_index_insert index_insert_def)
    moreover have "data_tidy ?f h"
      using 2(5)
    proof
      assume "8 \<le> P \<and> (P + n) * 512 \<le> rw_data_append_offset f \<and> A = rw_data_append_offset f"
      then show ?thesis using tidy_inplace [OF D(3), of "P * 512" d] n(1) inv(2) by (simp add: data_tidy_def digest_ok_def algebra_simps)
    next
      assume "P * 512 = rw_data_append_offset f \<and> A = rw_data_append_offset f + n * 512"
      moreover have "d \<noteq> []" using n(1,2) by auto
      ultimately show ?thesis using tidy_append_hybrid [OF D(3), of d] n(1) an(3) 2(3) inv(2) by (simp add: algebra_simps)
    qed
    ultimately show ?thesis using tidy_cong [of f2 ?f h] index_frame_simps [OF fr] 2(2) by auto
  qed
qed

lemma write_fragments_durable:
  assumes "plan_ok U (rw_tag f) s d e fs" "file_inv (fold index_insert ins f)" "file_type f = HybridReadWrite"
    and "\<forall>b\<ge>s + d. upper_map (fold index_insert ins f) b = U b"
    and "nxt = None \<or> nxt = Some (rw_data_append_offset f)" "e < 2 ^ 14" "s + e < 2 ^ 50"
    and "index_log f L" "upper_log (fold index_insert ins f) L" "data_tidy f h"
    and "write_fragments chunk fs nxt ins f = (Inr ins', f')"
  shows "\<exists>L'. durable (fold index_insert ins' f') h L'"
  using assms
proof (induction fs arbitrary: d nxt ins f L)
  case Nil
  then have "index_log (fold index_insert ins f) L" "data_tidy (fold index_insert ins f) h"
    using index_log_cong [of "fold index_insert ins f" f] tidy_cong [of "fold index_insert ins f" f]
    by (auto simp: fold_index_insert)
  then show ?case using Nil by (auto simp: durable_def)
next
  case (Cons x fs)
  have sz: "e < 2 ^ 32" "s + e < 2 ^ 64" using Cons.prems(6,7) by auto
  obtain n nxt2 f2 ins2 where
    nx: "frag_next U s d n chunk fs e f ins nxt2 f2 ins2" and w: "write_fragments chunk fs nxt2 ins2 f2 = (Inr ins', f')"
    using fragment_step [OF Cons.prems(1-5) sz Cons.prems(11)] by blast
  have n: "length (subslice (d * 512) (n * 512) chunk) = n * 512" "0 < n" "n < 2 ^ 14" "s + d + n < 2 ^ 50"
    using nx plan_ok_le [of U "rw_tag f" s "d + n" e fs] length_chunk_slice [of d n chunk] Cons.prems(6,7)
    by (auto simp: frag_next_def)
  have "frag_stored (s + d) n (subslice (d * 512) (n * 512) chunk) f ins f2 ins2" using nx by (simp add: frag_next_def)
  from frag_stored_durable [OF Cons.prems(2,3,8-10) n this]
  obtain L' where "index_log f2 L'" "upper_log (fold index_insert ins2 f2) L'" "data_tidy f2 h" by blast
  then show ?case
    using nx Cons.prems(4,6,7) w by (intro Cons.IH) (auto simp: frag_next_def chunk_done_def)
qed

lemma zeroing_entry:
  assumes "zeroing U t z" "t < 2 ^ 8" "m_length z < 2 ^ 14" "m_offset z + m_length z < 2 ^ 50"
  shows "log_entry (z\<lparr>tag := 0\<rparr>)" "mapping_ok z" "tag z = t"
  using assms by (auto simp: zeroing_def log_entry_def short_def mapping_ok_def NO_PHYSICAL_OFFSET_def
    has_physical_range_def)

lemma durable_publish:
  assumes D: "durable f h L" and inv: "combo_ok (index f)"
    and e: "log_entry (m\<lparr>tag := 0\<rparr>)" "mapping_ok m" "tag m = rw_tag f"
  shows "publish m f = (Inr v, f') \<Longrightarrow> durable (index_insert m f') h (L @ [m\<lparr>tag := 0\<rparr>])"
    and "publish m (index_insert m f) = (Inr v, f') \<Longrightarrow> durable f' h (L @ [m\<lparr>tag := 0\<rparr>])"
proof -
  have Lf: "index_log f L" "upper_log f L" "\<forall>x\<in>set L. log_entry x" "data_tidy f h"
    using D by (auto simp: durable_def index_log_entries)
  have up: "upper_log (index_insert m f) (L @ [m\<lparr>tag := 0\<rparr>])" by (rule upper_log_insert [OF inv e(2,3) Lf(3,2) e(1)])
  show "durable (index_insert m f') h (L @ [m\<lparr>tag := 0\<rparr>])" if p: "publish m f = (Inr v, f')"
  proof -
    have fr: "index_frame f f'" using publish_frame [of f m] p by simp
    have "index_log (index_insert m f') (L @ [m\<lparr>tag := 0\<rparr>])"
      using publish_index_log [OF Lf(1) e(1) p] index_log_cong [of "index_insert m f'" f'] by (simp add: index_insert_def)
    moreover have "upper_log (index_insert m f') (L @ [m\<lparr>tag := 0\<rparr>])"
      using up upper_log_cong [of "index_insert m f'" "index_insert m f"] index_frame_simps [OF fr] by (simp add: index_insert_def)
    ultimately show ?thesis using Lf(4) tidy_cong [of "index_insert m f'" f h] index_frame_simps [OF fr] by (simp add: durable_def)
  qed
  show "durable f' h (L @ [m\<lparr>tag := 0\<rparr>])" if p: "publish m (index_insert m f) = (Inr v, f')"
  proof -
    have fr: "index_frame (index_insert m f) f'" using publish_frame [of "index_insert m f" m] p by simp
    have "index_log (index_insert m f) L" using Lf(1) index_log_cong [of "index_insert m f" f] by (simp add: index_insert_def)
    then show ?thesis
      using publish_index_log [OF _ e(1) p] up upper_log_cong [of f' "index_insert m f"] Lf(4) tidy_cong [of f' f h]
        index_frame_simps [OF fr] by (auto simp: durable_def)
  qed
qed

lemma publish_all_durable:
  assumes "file_inv f" "file_type f = HybridReadWrite" "zeros_ok (upper_map f) (rw_tag f) cur e zs"
    "durable f h L" "e - cur < 2 ^ 14" "e < 2 ^ 50" "publish_all zs f = (Inr v, f')"
  shows "\<exists>L'. durable f' h L'"
  using assms
proof (induction zs arbitrary: cur f L)
  case (Cons z zs)
  then obtain u f1 where p: "publish z f = (Inr u, f1)" "publish_all zs (index_insert z f1) = (Inr v, f')"
    by (auto simp: bindR_eq_Inr)
  have z: "m_offset z = cur" "zeroing (upper_map f) (rw_tag f) z" "zeros_ok (upper_map f) (rw_tag f) (cur + m_length z) e zs"
    using Cons.prems(3) by auto
  have le: "cur + m_length z \<le> e" using zeros_ok_le [OF z(3)] .
  have inv: "combo_ok (index f)" "rw_tag f < 2 ^ 8" using Cons.prems(1) by (auto simp: file_inv_def)
  have ez: "log_entry (z\<lparr>tag := 0\<rparr>)" "mapping_ok z" "tag z = rw_tag f"
    using zeroing_entry [OF z(2) inv(2)] le z(1) Cons.prems(5,6) by auto
  have d1: "durable (index_insert z f1) h (L @ [z\<lparr>tag := 0\<rparr>])"
    by (rule durable_publish(1) [OF Cons.prems(4) inv(1) ez p(1)])
  have fr: "index_frame f f1" using publish_frame [of f z] p(1) by simp
  have "zeros_ok (upper_map f) (rw_tag f) cur (cur + m_length z) [z]" using z by simp
  moreover have "publish_all [z] f = (Inr (), index_insert z f1)" using p(1) by simp
  ultimately have "chunk_done (cur * 512) (zeros ((cur + m_length z - cur) * 512)) f (index_insert z f1)"
    by (rule publish_all_ok [OF Cons.prems(1,2)])
  then have "file_inv (index_insert z f1)" by (simp add: chunk_done_def)
  moreover have "\<forall>b\<ge>cur + m_length z. upper_map f b = upper_map (index_insert z f1) b"
    using upper_insert(1) [of f1 z] inv(1) ez(2) index_frame_simps [OF fr] z(1) by (auto simp: covers_def upper_map_def)
  from zeros_ok_cong [OF this z(3)] have "zeros_ok (upper_map (index_insert z f1)) (rw_tag (index_insert z f1)) (cur + m_length z) e zs"
    using index_frame_simps [OF fr] by simp
  ultimately show ?case
    using Cons.prems(2,5,6) d1 p(2) index_frame_simps [OF fr]
    by (intro Cons.IH [of "index_insert z f1" "cur + m_length z" "L @ [z\<lparr>tag := 0\<rparr>]"]) auto
qed auto

lemma discard_step_durable:
  assumes inv: "file_inv f" and ty: "file_type f \<noteq> SparseReadWrite" and D: "durable f h L"
    and len: "0 < n" "n < 2 ^ 14" "B + n < 2 ^ 50"
    and w: "discard_step (B * 512) (n * 512) f = (Inr v, f')"
  shows "\<exists>L'. durable f' h L'"
proof (cases "file_type f = HybridReadWrite")
  case True
  have "n < 2 ^ 32" "(B + n) * 512 < 2 ^ 63" using len by simp_all
  from hybrid_discard_plan [OF inv len(1) this]
  have "\<exists>zs. publish_all zs f = (Inr v, f') \<and> zeros_ok (upper_map f) (rw_tag f) B (B + n) zs"
    using w True by (auto simp: discard_step_def)
  then show ?thesis using publish_all_durable [OF inv True _ D, of B "B + n"] len by auto
next
  case False
  let ?m = "zero_mapping B (as_u32 n) f"
  have i: "combo_ok (index f)" "rw_tag f < 2 ^ 8" using inv by (auto simp: file_inv_def)
  have "publish ?m (index_insert ?m f) = (Inr v, f')"
    using w ty False by (simp add: discard_step_def ALIGNMENT_def Let_def)
  moreover have "log_entry (?m\<lparr>tag := 0\<rparr>)" "mapping_ok ?m" "tag ?m = rw_tag f"
    using len i by (auto simp: log_entry_def short_def mapping_ok_def zero_mapping_def NO_PHYSICAL_OFFSET_def
        has_physical_range_def nowrap)
  ultimately show ?thesis using durable_publish(2) [OF D i(1)] by blast
qed

lemma write_chunk_durable:
  assumes inv: "file_inv f" and ty: "file_type f \<noteq> SparseReadWrite" and D: "durable f h L"
    and al: "off = B * 512" "length chunk = n * 512" "0 < n" "n < 2 ^ 14" "B + n < 2 ^ 50"
    and w: "write_chunk off chunk f = (Inr v, f')"
  shows "\<exists>L'. durable f' h L'"
proof (cases "file_type f = HybridReadWrite")
  case False
  then have "file_type f = ReadWrite" using inv ty by (cases "file_type f") (auto simp: file_inv_def)
  then show ?thesis using write_chunk_log_durable [OF inv _ D al] w by (simp add: write_chunk_def)
next
  case True
  have sz: "n < 2 ^ 32" "(B + n) * 512 < 2 ^ 64" using al by auto
  from hybrid_plan [OF inv al(1,2) sz] obtain fs where
    fs: "plan_hybrid_write (upper (index f)) off (length chunk) = Inr fs"
    "plan_ok (upper_map f) (rw_tag f) B 0 n fs" by blast
  from w True obtain ins' f1 where r: "write_fragments chunk fs None [] f = (Inr ins', f1)" "f' = fold index_insert ins' f1"
    by (auto simp: write_chunk_def write_chunk_hybrid_def fs(1) bindR_eq_Inr)
  show ?thesis unfolding r(2)
    by (rule write_fragments_durable [OF fs(2) _ True _ _ al(4,5) _ _ _ r(1)]) (use inv D in \<open>auto simp: durable_def\<close>)
qed

lemma write_chunks_durable:
  assumes "file_inv f" "file_type f \<noteq> SparseReadWrite" "durable f h L" "0 < mio" "mio mod 512 = 0" "mio < 2 ^ 23"
    "off mod 512 = 0" "length data mod 512 = 0" "length data < 2 ^ 40" "off + length data < 2 ^ 59"
    "write_chunks fuel mio off data tot f = (Inr n, f')"
  shows "\<exists>L'. durable f' h L'"
  using assms
proof (induction fuel arbitrary: off data tot f L)
  case 0
  then show ?case by (auto split: if_splits)
next
  case (Suc fuel)
  show ?case
  proof (cases "data = []")
    case True
    then show ?thesis using Suc.prems by auto
  next
    case False
    define k where "k = min (length data) mio"
    have k: "0 < k" "k \<le> length data" "k mod 512 = 0" "k < 2 ^ 23" using False Suc.prems by (auto simp: k_def min_def)
    have u: "u64_add off k = off + k" using Suc.prems(10) k by (simp add: nowrap)
    from Suc.prems(11) False obtain v f1 where w: "write_chunk off (take k data) f = (Inr v, f1)"
      "write_chunks fuel mio (off + k) (drop k data) (tot + k) f1 = (Inr n, f')"
      by (auto simp: k_def [symmetric] Let_def bindR_eq_Inr u)
    have lt: "length (take k data) = k" using k(2) by simp
    have c: "file_inv f1" "file_type f1 = file_type f"
      using write_chunk_ok [OF Suc.prems(1,7) _ _ _ _ w(1)] lt k Suc.prems(9,10) False
      by (auto simp: chunk_done_def same_shape_def)
    have "off = off div 512 * 512" "k = k div 512 * 512" using Suc.prems(7) k(3) by auto
    moreover have "0 < k div 512" "k div 512 < 2 ^ 14" "off div 512 + k div 512 < 2 ^ 50"
      using calculation k Suc.prems(10) by auto
    ultimately obtain L1 where "durable f1 h L1"
      using write_chunk_durable [OF Suc.prems(1-3) _ _ _ _ _ w(1), of "off div 512" "k div 512"] lt by metis
    moreover have "(off + k) mod 512 = 0" "length (drop k data) mod 512 = 0"
      using Suc.prems(7,8) k by (auto simp: mod_eq_0_iff_dvd dvd_diff_nat)
    ultimately show ?thesis using c Suc.prems k by (intro Suc.IH [OF _ _ _ Suc.prems(4-6) _ _ _ _ w(2)]) auto
  qed
qed

lemma write_internal_durable:
  assumes "file_inv f" "file_type f \<noteq> SparseReadWrite" "durable f h L" "max_io_size f < 2 ^ 23"
    "length data < 2 ^ 40" "off + length data < 2 ^ 59" "write_internal off data f = (Inr n, f')"
  shows "\<exists>L'. durable f' h L'"
proof (cases "data = []")
  case True
  then show ?thesis using assms by (auto simp: write_internal_def bindR_eq_Inr)
next
  case False
  then have al: "off mod 512 = 0" "length data mod 512 = 0" "write_chunks (length data) (max_io_size f) off data 0 f = (Inr n, f')"
    using assms(7) by (auto simp: write_internal_def bindR_eq_Inr check_alignment_def ALIGNMENT_def split: if_splits)
  then show ?thesis
    using write_chunks_durable [OF assms(1-3) _ _ assms(4) al(1,2) assms(5,6) al(3)] max_io_512 [OF assms(1)] by simp
qed

lemma discard_loop_durable:
  assumes "file_inv f" "file_type f \<noteq> SparseReadWrite" "durable f h L" "off mod 512 = 0" "len mod 512 = 0"
    "off + len < 2 ^ 59" "discard_loop fuel off len f = (Inr v, f')"
  shows "\<exists>L'. durable f' h L'"
  using assms
proof (induction fuel arbitrary: off len f L)
  case 0
  then show ?case by (auto split: if_splits)
next
  case (Suc fuel)
  show ?case
  proof (cases "len = 0")
    case True
    then show ?thesis using Suc.prems by auto
  next
    case False
    define k where "k = min len (MAX_LENGTH * ALIGNMENT)"
    have k: "0 < k" "k \<le> len" "k mod 512 = 0" "k < 2 ^ 23" using False Suc.prems
      by (auto simp: k_def min_def MAX_LENGTH_def ALIGNMENT_def)
    have u: "u64_add off k = off + k" using Suc.prems(6) k by (simp add: nowrap)
    from Suc.prems(7) False obtain f1 where w: "discard_step off k f = (Inr (), f1)"
      "discard_loop fuel (off + k) (len - k) f1 = (Inr v, f')"
      by (auto simp: k_def [symmetric] Let_def bindR_eq_Inr u)
    have bl: "off = off div 512 * 512" "k = k div 512 * 512" using Suc.prems(4) k(3) by auto
    have sz: "0 < k div 512" "k div 512 < 2 ^ 14" "off div 512 + k div 512 < 2 ^ 50" using bl k Suc.prems(6) by auto
    have w': "discard_step (off div 512 * 512) (k div 512 * 512) f = (Inr (), f1)" using w(1) bl by simp
    have "file_inv f1" "file_type f1 = file_type f"
      using discard_step_ok [OF Suc.prems(1) sz(1) _ _ w'] sz by (auto simp: chunk_done_def same_shape_def)
    moreover obtain L1 where "durable f1 h L1" using discard_step_durable [OF Suc.prems(1-3) sz w'] by blast
    moreover have "(off + k) mod 512 = 0" "(len - k) mod 512 = 0"
      using Suc.prems(4,5) k by (auto simp: mod_eq_0_iff_dvd dvd_diff_nat)
    ultimately show ?thesis using Suc.prems k by (intro Suc.IH [OF _ _ _ _ _ _ w(2)]) auto
  qed
qed

lemma discard_range_durable:
  assumes "file_inv f" "file_type f \<noteq> SparseReadWrite" "durable f h L" "off + len < 2 ^ 59"
    "discard_range off len f = (Inr v, f')"
  shows "\<exists>L'. durable f' h L'"
proof (cases "len = 0")
  case True
  then show ?thesis using assms by (auto simp: discard_range_def bindR_eq_Inr)
next
  case False
  then have al: "off mod 512 = 0" "len mod 512 = 0" "discard_loop len off len f = (Inr v, f')"
    using assms(5) by (auto simp: discard_range_def bindR_eq_Inr ALIGNMENT_def)
  show ?thesis by (rule discard_loop_durable [OF assms(1-3) al(1,2) assms(4) al(3)])
qed

lemma flush_durable:
  assumes D: "durable f h L" and w: "flush_group_commit f = (Inr v, f')"
  shows "durable f' h L" "group_commit_buf f' = []"
proof -
  obtain i where i: "rw_index_file f = Some i" "vf_ok i" "4096 \<le> vf_size i" "rw_index_append_offset f = vf_size i"
    and log: "vf_bytes i 4096 (vf_size i - 4096) @ mapping_bytes (group_commit_buf f) = mapping_bytes (map from_memory L)"
    and all: "\<forall>m\<in>set L. log_entry m" using D by (auto simp: durable_def index_log_def)
  have "durable f' h L \<and> group_commit_buf f' = []"
  proof (cases "group_commit_buf f = []")
    case True
    then show ?thesis using D w by (auto simp: flush_group_commit_def)
  next
    case False
    from w False obtain g where g: "append_index_bytes (mapping_bytes (group_commit_buf f)) f = (Inr (), g)"
      "f' = g\<lparr>group_commit_buf := []\<rparr>" by (auto simp: flush_group_commit_def bindR_eq_Inr)
    from append_index_bytes_log [OF i g(1)] obtain j where
      j: "g = f\<lparr>rw_index_file := Some j, rw_index_append_offset := vf_size j\<rparr>" "vf_ok j" "4096 \<le> vf_size j"
      "vf_bytes j 4096 (vf_size j - 4096) = vf_bytes i 4096 (vf_size i - 4096) @ mapping_bytes (group_commit_buf f)" by blast
    have "index_log f' L" unfolding index_log_def using j log all g(2) by (intro conjI exI [of _ j]) simp_all
    then show ?thesis
      using D upper_log_cong [of f' f L] tidy_cong [of f' f h] g(2) j(1) by (auto simp: durable_def)
  qed
  then show "durable f' h L" "group_commit_buf f' = []" by auto
qed

subsection \<open>Opening what was written\<close>

lemma insert_all_tag:
  "\<forall>m\<in>set L. log_entry m \<Longrightarrow> imap (insert_all_mappings L) b = Some c \<Longrightarrow> cell_tag c = 0"
proof (induction L arbitrary: c rule: rev_induct)
  case (snoc m L)
  have ok: "\<forall>x\<in>set (L @ [m]). mapping_ok x" "tag m = 0" using snoc.prems(1) by (auto simp: log_entry_def)
  show ?case using snoc insert_all_imap [OF ok(1)] ok(2) by (auto simp: cell_at_def split: if_splits)
qed (simp add: insert_all_mappings_def)

lemma ComboIndex_new_log:
  assumes L: "\<forall>m\<in>set L. log_entry m" and t: "t < 2 ^ 8"
  shows "index_ok (upper (ComboIndex_new (insert_all_mappings L) low t))"
    "imap (upper (ComboIndex_new (insert_all_mappings L) low t)) b = map_option (retag t) (imap (insert_all_mappings L) b)"
proof -
  have ok: "index_ok (insert_all_mappings L)" using L by (intro insert_all_ok) (auto simp: log_entry_def)
  then show "index_ok (upper (ComboIndex_new (insert_all_mappings L) low t))"
    using index_ok_retag_map [of "insert_all_mappings L" "\<lambda>x. u8_add x t"]
    by (simp add: ComboIndex_new_upper u8_add_def)
  have "retag t c = c" if "t = 0" "cell_tag c = 0" for c using that by (cases c) (simp add: retag_def)
  moreover have "u8_add 0 t = t" using t by (simp add: u8_add_def)
  ultimately show "imap (upper (ComboIndex_new (insert_all_mappings L) low t)) b = map_option (retag t) (imap (insert_all_mappings L) b)"
    using insert_all_tag [OF L, of b]
    by (cases "imap (insert_all_mappings L) b") (auto simp: ComboIndex_new_upper [OF ok] imap_retag_map [of "\<lambda>x. u8_add x t"])
qed

lemma log_entry_loggable: "log_entry m \<Longrightarrow> loggable m \<and> m\<lparr>tag := 0\<rparr> = m"
  using short_fits [of m] by (auto simp: log_entry_def loggable_def mapping_ok_def)

lemma open_upper_index_log:
  assumes L: "index_log f L" and b: "group_commit_buf f = []" and s: "lay \<noteq> Sparse"
  shows "open_upper_index data (rw_index_file f) lay = Inr (insert_all_mappings L, rw_index_append_offset f)"
proof -
  obtain i where i: "rw_index_file f = Some i" "vf_ok i" "4096 \<le> vf_size i" "rw_index_append_offset f = vf_size i"
    and log: "vf_bytes i 4096 (vf_size i - 4096) = mapping_bytes (map from_memory L)"
    and all: "\<forall>m\<in>set L. log_entry m" using L b by (auto simp: index_log_def)
  have len: "vf_size i - 4096 = 16 * length L" using arg_cong [OF log, of length] by simp
  show ?thesis
  proof (cases "L = []")
    case True
    then show ?thesis using i len s by (simp add: open_upper_index_def HEADER_SIZE_def insert_all_mappings_def)
  next
    case False
    have "\<forall>m\<in>set L. loggable m" using all log_entry_loggable by blast
    moreover have "4096 + 16 * length L \<le> vf_size i" using len i(3) by simp
    ultimately have "load_index i 4096 (length L) True = Inr (map (\<lambda>m. m\<lparr>tag := 0\<rparr>) L)"
      using load_index_disk [OF i(2)] log len by simp
    moreover have "map (\<lambda>m. m\<lparr>tag := 0\<rparr>) L = L" using all log_entry_loggable by (intro map_idI) blast
    moreover have "4096 < vf_size i" using False len by (cases L) auto
    ultimately show ?thesis using i s len
      by (simp add: open_upper_index_def HEADER_SIZE_def load_index_and_reset_tags_def DISK_MAPPING_SIZE_def Let_def)
  qed
qed

text \<open>What a header must say for a writable layer of the file type and size of \<open>f\<close>.\<close>

definition header_for :: "HeaderTrailer \<Rightarrow> RwLayout \<Rightarrow> nat \<Rightarrow> bool" where
  "header_for h lay vs \<longleftrightarrow> header_ok h \<and> verify_magic h \<and> is_header h \<and> rw_layout_from_header h = Inr lay
     \<and> ht_virtual_size h = vs"

lemma verify_ht_header:
  assumes "vf_ok d" "4096 \<le> vf_size d" "vf_bytes d 0 HT_SIZE = ht_bytes h" "header_for h lay vs"
  shows "verify_ht d False n = Inr h"
proof -
  have "min 4096 (vf_size d) = 4096" using assms(2) by simp
  then have r: "vf_read_at_into d 0 (replicate HEADER_SIZE 0) = (Inr HEADER_SIZE, vf_bytes d 0 HEADER_SIZE)"
    using vf_read_at_into_eq [OF assms(1), of 0 "replicate HEADER_SIZE 0"] by (simp add: HEADER_SIZE_def)
  have "take HT_SIZE (vf_bytes d 0 HEADER_SIZE) = ht_bytes h"
    using assms(3) by (simp add: vf_bytes_def take_map HEADER_SIZE_def HT_SIZE_def)
  then show ?thesis
    using r assms(4) ht_roundtrip [of h] by (simp add: verify_ht_def header_for_def HEADER_SIZE_def HT_SIZE_def)
qed

lemma initial_append_digest_total:
  assumes "vf_ok d" "4096 \<le> vf_size d"
  shows "\<exists>t. initial_append_digest d ft (vf_size d) = Inr t \<and> (ft \<noteq> ReadWrite \<longrightarrow> t = None)
    \<and> (\<forall>x. t = Some x \<longrightarrow> ad_offset x \<le> vf_size d \<and> hasher x = take (ad_offset x) (contents d))"
proof (cases "ft = ReadWrite \<and> vf_size d = 4096")
  case True
  then have "vf_read_at_into d 0 (replicate 4096 0) = (Inr 4096, contents d)"
    using vf_read_at_into_eq [OF assms(1), of 0 "replicate 4096 0"] by (simp add: contents_def)
  then show ?thesis using True by (simp add: initial_append_digest_def AppendDigestTracker_from_header_def HEADER_SIZE_def)
next
  case False
  then show ?thesis by (auto simp: initial_append_digest_def HEADER_SIZE_def)
qed

definition looks_sealed :: "VFile \<Rightarrow> bool" where
  "looks_sealed d \<longleftrightarrow> vf_size d \<ge> HEADER_SIZE + 4096
     \<and> (case verify_ht d True (vf_size d) of Inl _ \<Rightarrow> False | Inr _ \<Rightarrow> True)"

lemma open_stacked:
  assumes inv: "file_inv f" and D: "durable f h L" and b: "group_commit_buf f = []"
    and hd: "header_for h lay vs" and ty: "file_type f = RwLayout_file_type lay" "lay \<noteq> Sparse"
    and ns: "\<not> looks_sealed (rw_data_file f)"
    and low: "length lows < 2 ^ 8" "\<forall>l\<in>set lows. vf_ok l" "case low of None \<Rightarrow> True | Some l \<Rightarrow> index_ok l"
      "\<forall>l b c. low = Some l \<longrightarrow> imap l b = Some c \<longrightarrow> readable lows c"
  shows "\<exists>g. LSMTFile_open U (rw_data_file f) (rw_index_file f) low lows = Inr g
    \<and> file_inv g \<and> durable g h L \<and> (\<forall>b. upper_map g b = map_option (retag (length lows)) (upper_map f b))
    \<and> lower (index g) = low \<and> lower_files g = lows \<and> rw_data_file g = rw_data_file f
    \<and> rw_tag g = length lows \<and> virtual_size g = vs \<and> file_type g = file_type f \<and> \<not> sealed g
    \<and> group_commit_buf g = []"
proof -
  let ?d = "rw_data_file f" and ?t = "length lows"
  have i: "vf_ok ?d" "combo_ok (index f)" using inv by (auto simp: file_inv_def layers_def)
  have t: "vf_size ?d = rw_data_append_offset f" "4096 \<le> vf_size ?d" "vf_bytes ?d 0 HT_SIZE = ht_bytes h"
    using D by (auto simp: durable_def data_tidy_def)
  have L: "index_log f L" "\<forall>m\<in>set L. log_entry m" and up: "upper_log f L"
    using D by (auto simp: durable_def index_log_def)
  obtain dg where dg: "initial_append_digest ?d (file_type f) (vf_size ?d) = Inr dg" "file_type f \<noteq> ReadWrite \<longrightarrow> dg = None"
    "\<forall>x. dg = Some x \<longrightarrow> ad_offset x \<le> vf_size ?d \<and> hasher x = take (ad_offset x) (contents ?d)"
    using initial_append_digest_total [OF i(1) t(2)] by blast
  define ci where "ci = ComboIndex_new (insert_all_mappings L) low ?t"
  define g where "g = \<lparr>index = ci, lower_files = lows, rw_data_file = ?d, rw_index_file = rw_index_file f,
    virtual_size = vs, rw_tag = ?t, sealed = False, max_io_size = MAX_IO_SIZE,
    uuids = replicate ?t uuid_nil @ [case parse_uuid_field U (ht_uuid h) of None \<Rightarrow> uuid_nil | Some u \<Rightarrow> u],
    file_type = file_type f, group_commit_size = 0, group_commit_buf = [], rw_data_append_offset = rw_data_append_offset f,
    rw_index_append_offset = rw_index_append_offset f, append_digest = dg\<rparr>"
  have tg: "as_u8 ?t = ?t" using low(1) by (simp add: as_u8_def)
  have hs: "rw_layout_from_header h = Inr lay" "ht_virtual_size h = vs" using hd by (simp_all add: header_for_def)
  have o: "LSMTFile_open U ?d (rw_index_file f) low lows = Inr g"
    unfolding LSMTFile_open_def Let_def verify_ht_header [OF i(1) t(2,3) hd] looks_sealed_def [symmetric] sum.case hs
      open_upper_index_log [OF L(1) b ty(2)] ty(1) [symmetric] tg dg(1) prod.case
    using ns by (simp add: g_def ci_def t(1))
  have fl: "index g = ci" "lower_files g = lows" "rw_data_file g = ?d" "rw_tag g = ?t" "virtual_size g = vs" "\<not> sealed g"
    "max_io_size g = MAX_IO_SIZE" "file_type g = file_type f" "rw_data_append_offset g = rw_data_append_offset f"
    "group_commit_buf g = []" "rw_index_file g = rw_index_file f" "rw_index_append_offset g = rw_index_append_offset f"
    "append_digest g = dg" by (simp_all add: g_def)
  have lo: "lower ci = low" by (simp add: ci_def ComboIndex_new_def)
  note cn = ComboIndex_new_log [OF L(2) low(1), of low, folded ci_def]
  have um: "upper_map g b = map_option (retag ?t) (imap (insert_all_mappings L) b)" for b
    using cn(2) by (simp add: upper_map_def fl)
  have um': "upper_map g b = map_option (retag ?t) (upper_map f b)" for b
    using up um [of b] by (cases "imap (insert_all_mappings L) b") (simp_all add: upper_log_def retag_def)
  have ok: "combo_ok ci" using cn(1) lo low(3) by (simp add: combo_ok_def)
  have sh: "\<forall>m\<in>set (upper ci). short m"
    using insert_all_short [OF L(2)] ComboIndex_new_upper [OF insert_all_ok, of L] L(2)
    by (auto simp: ci_def short_def log_entry_def)
  have "upper_cell_ok g b c" if c: "upper_map g b = Some c" for b c
  proof -
    obtain c0 where c0: "upper_map f b = Some c0" "c = retag ?t c0" using c um' [of b] by auto
    then have "upper_cell_ok f b c0" using inv by (simp add: file_inv_def)
    then show ?thesis using c0(2) by (auto simp: upper_cell_ok_def data_end_def retag_def fl split: option.splits if_splits)
  qed
  moreover have "phys_inj (upper_map g)"
  proof -
    have "phys_inj (upper_map f)" using inv by (simp add: file_inv_def)
    then show ?thesis unfolding phys_inj_def um' by (auto simp: retag_def)
  qed
  moreover have "\<forall>b c. lower_map g b = Some c \<longrightarrow> readable lows c"
    using low(4) by (auto simp: lower_map_def fl lo split: option.splits)
  ultimately have "file_inv g" using inv ok low(1,2) by (auto simp: file_inv_def fl layers_def MAX_IO_SIZE_def)
  moreover have "durable g h L"
    using D b um sh dg(2,3) unfolding durable_def
    by (auto simp: index_log_def upper_log_def data_tidy_def digest_ok_def fl)
  ultimately show ?thesis using o um' lo by (intro exI [of _ g]) (simp add: fl)
qed

lemma open_durable:
  assumes inv: "file_inv f" and D: "durable f h L" "group_commit_buf f = []"
    and hd: "header_for h lay (virtual_size f)" "file_type f = RwLayout_file_type lay" "lay \<noteq> Sparse"
    and ns: "\<not> looks_sealed (rw_data_file f)"
  shows "\<exists>g. LSMTFile_open U (rw_data_file f) (rw_index_file f) (lower (index f)) (lower_files f) = Inr g
    \<and> file_inv g \<and> durable g h L \<and> device g = device f \<and> virtual_size g = virtual_size f
    \<and> file_type g = file_type f \<and> \<not> sealed g"
proof -
  have low: "length (lower_files f) < 2 ^ 8" "\<forall>l\<in>set (lower_files f). vf_ok l"
    "case lower (index f) of None \<Rightarrow> True | Some l \<Rightarrow> index_ok l" "length (lower_files f) = rw_tag f"
    using inv by (auto simp: file_inv_def layers_def combo_ok_def)
  have rd: "\<forall>l b c. lower (index f) = Some l \<longrightarrow> imap l b = Some c \<longrightarrow> readable (lower_files f) c"
    using inv by (auto simp: file_inv_def lower_map_def)
  from open_stacked [OF inv D hd ns low(1-3) rd] obtain g where
    g: "LSMTFile_open U (rw_data_file f) (rw_index_file f) (lower (index f)) (lower_files f) = Inr g" "file_inv g" "durable g h L"
    "\<forall>b. upper_map g b = map_option (retag (length (lower_files f))) (upper_map f b)" "lower (index g) = lower (index f)"
    "lower_files g = lower_files f" "rw_data_file g = rw_data_file f" "virtual_size g = virtual_size f" "file_type g = file_type f"
    "\<not> sealed g" by blast
  have "map_option (retag (length (lower_files f))) (upper_map f b) = upper_map f b" for b
  proof (cases "upper_map f b")
    case (Some c)
    then have "cell_tag c = rw_tag f" using inv by (auto simp: file_inv_def upper_cell_ok_def)
    then show ?thesis using Some low(4) by (cases c) (simp add: retag_def)
  qed simp
  then have "combo_map (index g) = combo_map (index f)"
    using g(4,5) combo_map_split [of f] combo_map_split [of g] by (auto simp: lower_map_def fun_eq_iff)
  then have "device g = device f" using g(6,7) by (simp add: device_def layers_def)
  then show ?thesis using g by blast
qed

lemma run_durable:
  assumes "file_inv f" "file_type f \<noteq> SparseReadWrite" "durable f h L" "max_io_size f < 2 ^ 23"
    "\<forall>v\<in>set ops. case vop_range v of (off, n) \<Rightarrow> n < 2 ^ 40 \<and> off + n < 2 ^ 59"
    "run_vops write_internal discard_range ops f = (Inr u, f')"
  shows "\<exists>L'. file_inv f' \<and> durable f' h L' \<and> same_shape f f' \<and> device f' = fold vop_apply ops (device f)"
  using assms
proof (induction ops arbitrary: f L)
  case (Cons v ops)
  have "\<exists>g L1. run_vops write_internal discard_range ops g = (Inr u, f') \<and> file_inv g \<and> durable g h L1
    \<and> same_shape f g \<and> device g = vop_apply v (device f)"
  proof (cases v)
    case (VWrite off data)
    obtain n g where g: "write_internal off data f = (Inr n, g)" "run_vops write_internal discard_range ops g = (Inr u, f')"
      using Cons.prems(6) VWrite by (auto simp: bindR_eq_Inr)
    have l: "length data < 2 ^ 40" "off + length data < 2 ^ 59" using Cons.prems(5) VWrite by auto
    then have "off + length data < 2 ^ 63" by simp
    from write_internal_done [OF Cons.prems(1) l(1) this g(1)] write_internal_durable [OF Cons.prems(1-4) l g(1)]
    show ?thesis using g(2) VWrite by (auto simp: chunk_done_def)
  next
    case (VDiscard off len)
    obtain n g where g: "discard_range off len f = (Inr n, g)" "run_vops write_internal discard_range ops g = (Inr u, f')"
      using Cons.prems(6) VDiscard by (auto simp: bindR_eq_Inr)
    have l: "off + len < 2 ^ 59" using Cons.prems(5) VDiscard by auto
    then have "off + len < 2 ^ 63" by simp
    from discard_range_done [OF Cons.prems(1) this g(1)] discard_range_durable [OF Cons.prems(1-3) l g(1)]
    show ?thesis using g(2) VDiscard by (auto simp: chunk_done_def)
  qed
  then obtain g L1 where g: "run_vops write_internal discard_range ops g = (Inr u, f')" "file_inv g" "durable g h L1"
    "same_shape f g" "device g = vop_apply v (device f)" by blast
  then have "\<exists>L'. file_inv f' \<and> durable f' h L' \<and> same_shape g f' \<and> device f' = fold vop_apply ops (device g)"
    using Cons.prems(2,4,5) by (intro Cons.IH) (auto simp: same_shape_def)
  then show ?case using g(4,5) by (auto simp: same_shape_def)
qed (auto simp: same_shape_def)

lemma write_header_block_Inr:
  assumes "write_header_block h d = (Inr v, d')" "header_ok h" "vf_ok d" "vf_size d \<le> 4096"
  shows "d' = pwrite 0 (copy_header_block (replicate HEADER_SIZE 0) h) d" "vf_ok d'" "vf_size d' = 4096"
    "vf_bytes d' 0 HT_SIZE = ht_bytes h"
proof -
  let ?b = "copy_header_block (replicate HEADER_SIZE 0) h"
  have l: "length (ht_bytes h) = HT_SIZE" "length ?b = 4096" "?b \<noteq> []"
    using length_ht_bytes [OF assms(2)] by (auto simp: copy_header_block_def HEADER_SIZE_def HT_SIZE_def)
  obtain n where w: "vf_write_at 0 ?b d = (Inr n, d')" using assms(1) by (auto simp: write_header_block_def bindR_eq_Inr)
  show d': "d' = pwrite 0 ?b d" using vf_write_at_Inr(1) [OF w] .
  show "vf_ok d'" using vf_write_at_Inr(3) [OF w l(3)] pwrite_ok [OF assms(3), of 0 ?b] d' by simp
  show "vf_size d' = 4096" using l assms(4) by (simp add: d' pwrite_size)
  show "vf_bytes d' 0 HT_SIZE = ht_bytes h"
    using l by (intro nth_equalityI) (auto simp: d' pwrite_byte copy_header_block_def nth_append HT_SIZE_def HEADER_SIZE_def)
qed

lemma create_durable:
  assumes U: "uuid_crate_ok U" "length u = 16" "vs < 2 ^ 64" "\<forall>p. parent = Some p \<longrightarrow> length p = 16"
    and lay: "lay \<noteq> Sparse" and fresh: "vf_ok data" "vf_size data = 0" "vf_ok idx" "vf_size idx = 0"
    and c: "create_with_metadata U vs lay u parent utag (data, Some idx) = (Inr f, fs)"
  defines "h \<equiv> rw_header U vs lay u parent utag"
  shows "file_inv f" "durable f h []" "group_commit_buf f = []" "file_type f = RwLayout_file_type lay"
    "virtual_size f = vs" "index f = \<lparr>upper = [], lower = None\<rparr>" "lower_files f = []" "max_io_size f = MAX_IO_SIZE"
    "header_for h lay vs" "\<not> sealed f"
proof -
  have ho: "header_ok h" unfolding h_def using U by (rule rw_header_ok)
  let ?ih = "set_unsealed_index_offset (set_index_file h)"
  have iho: "header_ok ?ih" using ho by (simp add: header_ok_def header_setters SPACE_def)
  obtain d i dg where w: "write_header_block h data = (Inr (), d)" "write_header_block ?ih idx = (Inr (), i)"
    and f: "f = \<lparr>index = ComboIndex_new [] None 0, lower_files = [], rw_data_file = d, rw_index_file = Some i, virtual_size = vs,
      rw_tag = 0, sealed = False, max_io_size = MAX_IO_SIZE, uuids = [u], file_type = RwLayout_file_type lay,
      group_commit_size = 0, group_commit_buf = [], rw_data_append_offset = HEADER_SIZE, rw_index_append_offset = HEADER_SIZE,
      append_digest = dg\<rparr>"
    using c lay unfolding create_with_metadata_def h_def [symmetric] Let_def
    by (auto split: prod.splits sum.splits)
  note d = write_header_block_Inr [OF w(1) ho fresh(1)] and i = write_header_block_Inr [OF w(2) iho fresh(3)]
  have ix: "index f = \<lparr>upper = [], lower = None\<rparr>" by (simp add: f ComboIndex_new_def)
  then show "index f = \<lparr>upper = [], lower = None\<rparr>" .
  have "initial_append_digest d (RwLayout_file_type lay) (vf_size d) = Inr dg"
    using c lay w d(3) fresh unfolding create_with_metadata_def h_def [symmetric] Let_def
    by (auto simp: f HEADER_SIZE_def split: prod.splits sum.splits)
  then have "digest_ok f \<and> (file_type f = HybridReadWrite \<longrightarrow> append_digest f = None)"
    using initial_append_digest_total [OF d(2), of "RwLayout_file_type lay"] d(3) fresh by (auto simp: digest_ok_def f)
  then show "durable f h []"
    using d(3,4) i(2,3) fresh ix
    by (simp add: durable_def index_log_def upper_log_def upper_map_def data_tidy_def insert_all_mappings_def)
      (simp add: f HEADER_SIZE_def vf_bytes_def)
  show "file_inv f"
    using d fresh ix lay
    by (cases lay) (simp_all add: file_inv_def combo_ok_def index_ok_def layers_def upper_map_def lower_map_def phys_inj_def
        MAX_IO_SIZE_def HEADER_SIZE_def, simp_all add: f HEADER_SIZE_def MAX_IO_SIZE_def)
  show "header_for h lay vs" using ho lay unfolding h_def
    by (cases lay) (simp_all add: header_for_def rw_header_magic rw_header_kind rw_header_virtual_size rw_layout_from_header_def)
qed (use assms in \<open>auto simp: create_with_metadata_def Let_def split: prod.splits sum.splits if_splits option.splits\<close>)

subsection \<open>Properties\<close>

lemma device_empty: "index f = \<lparr>upper = [], lower = None\<rparr> \<Longrightarrow> device f = (\<lambda>_. 0)"
  by (simp add: device_def combo_map_def map_byte_def fun_eq_iff over_def cell_byte_def)

lemma flush_core:
  assumes "flush_group_commit f = (Inr v, f')"
  shows "index_frame f f'"
  using flush_frame [of f] assms by simp

lemma file_inv_frame: "index_frame f f' \<Longrightarrow> file_inv f' = file_inv f \<and> device f' = device f"
  using core_eq_inv [OF frame_core] core_eq_device [OF frame_core] by blast

lemma group_commit_durable:
  assumes "uuid_crate_ok U" "length u = 16" "vs < 2 ^ 64" "\<forall>p. parent = Some p \<longrightarrow> length p = 16"
    and lay: "lay \<noteq> Sparse" and "vf_ok data" "vf_size data = 0" "vf_ok idx" "vf_size idx = 0"
    and "create_with_metadata U vs lay u parent utag (data, Some idx) = (Inr f, fs)"
    and gc: "set_index_group_commit gc f = (Inr (), f0)"
  shows "file_inv f0" "durable f0 (rw_header U vs lay u parent utag) []" "file_type f0 \<noteq> SparseReadWrite"
    "max_io_size f0 < 2 ^ 23" "device f0 = (\<lambda>_. 0)" "f0 = f\<lparr>group_commit_size := gc\<rparr>"
proof -
  note c = create_durable [OF assms(1-10)]
  show f0: "f0 = f\<lparr>group_commit_size := gc\<rparr>" using gc by (simp add: set_index_group_commit_def)
  have core: "core_eq f0 f" by (simp add: core_eq_def f0)
  show "file_inv f0" "device f0 = (\<lambda>_. 0)"
    using core_eq_inv [OF core] core_eq_device [OF core] c(1) device_empty [OF c(6)] by auto
  show "durable f0 (rw_header U vs lay u parent utag) []"
    using c(2,3) tidy_cong [of f0 f] upper_log_cong [of f0 f] by (simp add: durable_def index_log_def f0)
  show "file_type f0 \<noteq> SparseReadWrite" "max_io_size f0 < 2 ^ 23" using lay c(4,8) by (cases lay; simp add: f0 MAX_IO_SIZE_def)+
qed


lemma write_internal_one_chunk:
  assumes "\<not> sealed f" "data \<noteq> []" "off mod 512 = 0" "length data mod 512 = 0" "length data \<le> max_io_size f"
  shows "write_internal off data f = bindR (write_chunk off data f) (\<lambda>_ f. (Inr (length data), f))"
proof -
  obtain k where k: "length data = Suc k" using assms(2) by (cases data) auto
  have "write_chunks k mio o' [] t = Pair (Inr t)" for mio o' t by (rule ext, cases k) simp_all
  then show ?thesis
    using assms k by (simp add: write_internal_def check_alignment_def ALIGNMENT_def min_def)
qed

lemma flush_room:
  assumes "index_room f k"
  shows "\<exists>f'. flush_group_commit f = (Inr (), f')"
proof (cases "rw_index_file f")
  case None
  then show ?thesis by (auto simp: flush_group_commit_def append_index_bytes_def)
next
  case (Some i)
  have "mapping_bytes (group_commit_buf f) \<noteq> []" if "group_commit_buf f \<noteq> []"
    using that length_mapping_bytes [of "group_commit_buf f"] by fastforce
  then show ?thesis
    using assms Some append_index_bytes_room [of f i "mapping_bytes (group_commit_buf f)"]
    by (cases "group_commit_buf f = []") (auto simp: flush_group_commit_def index_room_def)
qed

text \<open>A fresh layer of 1 MiB on a data file that can grow to \<open>lim\<close> bytes, for the witnesses.\<close>

definition sample_small :: "nat \<Rightarrow> VFile" where
  "sample_small lim = (sample_vfile 0)\<lparr>vf_limit := lim\<rparr>"

definition sample_header :: "RwLayout \<Rightarrow> HeaderTrailer" where
  "sample_header lay = rw_header uuid_hex 1048576 lay (replicate 16 7) None None"

definition sample_created :: "RwLayout \<Rightarrow> nat \<Rightarrow> (LSMTFile, VFile \<times> VFile option) outcome" where
  "sample_created lay lim = create_with_metadata uuid_hex 1048576 lay (replicate 16 7) None None
     (sample_small lim, Some (sample_vfile 0))"

lemma write_header_block_fits:
  assumes "header_ok h" "4096 \<le> vf_limit d" "\<not> vf_direct d"
  shows "write_header_block h d = (Inr (), pwrite 0 (copy_header_block (replicate HEADER_SIZE 0) h) d)"
  using vf_write_at_fits [of 0 "copy_header_block (replicate HEADER_SIZE 0) h" d] assms length_ht_bytes [of h]
  by (simp add: write_header_block_def copy_header_block_def HEADER_SIZE_def HT_SIZE_def)

lemma sample_header_ok: "header_ok (sample_header lay)"
  unfolding sample_header_def by (rule rw_header_ok [OF uuid_hex_ok]) simp_all

lemma sample_small_ok: "lim < 2 ^ 63 \<Longrightarrow> vf_ok (sample_small lim)" "vf_size (sample_small lim) = 0"
  by (simp_all add: sample_vfile_def sample_small_def vf_ok_def)

lemma sample_created_file:
  assumes "lay \<noteq> Sparse" "4096 + len \<le> lim" "lim < 2 ^ 63" "len < 2 ^ 20"
  obtains f fs where "sample_created lay lim = (Inr f, fs)" "write_room (f\<lparr>group_commit_size := 64\<rparr>) off len"
    "vf_limit (rw_data_file f) = lim"
proof -
  let ?h = "sample_header lay" and ?d = "sample_small lim"
  let ?ih = "set_unsealed_index_offset (set_index_file ?h)" and ?b = "copy_header_block (replicate HEADER_SIZE 0) (sample_header lay)"
  have iho: "header_ok ?ih" using sample_header_ok [of lay] by (simp add: header_ok_def header_setters SPACE_def)
  have s: "4096 \<le> vf_limit (sample_vfile 0)" "\<not> vf_direct (sample_vfile 0)" "4096 \<le> vf_limit ?d" "\<not> vf_direct ?d"
    using assms(2) by (simp_all add: sample_vfile_def sample_small_def)
  note w = write_header_block_fits [OF sample_header_ok s(3,4), of lay] write_header_block_fits [OF iho s(1,2)]
  have sz: "vf_size (pwrite 0 ?b ?d) = 4096" "vf_ok (pwrite 0 ?b ?d)"
    using write_header_block_Inr(2,3) [OF w(1) sample_header_ok sample_small_ok(1)] sample_small_ok(2) [of lim] assms(3) by simp_all
  obtain dg where dg: "initial_append_digest (pwrite 0 ?b ?d) (RwLayout_file_type lay) 4096 = Inr dg"
    using initial_append_digest_total [OF sz(2), of "RwLayout_file_type lay"] sz(1) by auto
  have "len div 512 < 2 ^ 11" using assms(4) by simp
  then obtain f fs where c: "sample_created lay lim = (Inr f, fs)" "write_room (f\<lparr>group_commit_size := 64\<rparr>) off len"
      "vf_limit (rw_data_file f) = lim"
    unfolding sample_created_def create_with_metadata_def Let_def sample_header_def [symmetric]
    using w dg assms by (cases lay) (auto simp: write_room_def index_room_def HEADER_SIZE_def sample_vfile_def sample_small_def)
  show ?thesis by (rule that [OF c])
qed

lemma sample_small_files:
  "lim < 2 ^ 63 \<Longrightarrow> vf_ok (sample_small lim)" "vf_size (sample_small lim) = 0" "vf_ok (sample_vfile 0)" "vf_size (sample_vfile 0) = 0"
  by (simp_all add: sample_vfile_def sample_small_def vf_ok_def)

lemma sample_inputs:
  "length (replicate 16 (7 :: byte)) = 16" "(1048576 :: nat) < 2 ^ 64" "\<forall>p. (None :: Uuid option) = Some p \<longrightarrow> length p = 16"
  by simp_all

lemma sample_written:
  assumes "lay \<noteq> Sparse" "4608 + r * 512 \<le> lim" "lim < 2 ^ 63" "r < 1000"
  obtains f fs f1 where "sample_created lay lim = (Inr f, fs)" "set_index_group_commit 64 f = (Inr (), f\<lparr>group_commit_size := 64\<rparr>)"
    "run_vops write_internal discard_range [VWrite 512 (replicate 512 7)] (f\<lparr>group_commit_size := 64\<rparr>) = (Inr (), f1)"
    "write_room f1 1024 (r * 512)" "file_inv f1" "same_shape f f1" "vf_limit (rw_data_file f1) = lim"
proof -
  obtain f fs where f: "sample_created lay lim = (Inr f, fs)" "write_room (f\<lparr>group_commit_size := 64\<rparr>) 512 (512 + r * 512)"
    "vf_limit (rw_data_file f) = lim" by (rule sample_created_file [of lay "512 + r * 512" lim 512]) (use assms in simp_all)
  note c = create_durable [OF uuid_hex_ok sample_inputs assms(1) sample_small_files(1) [OF assms(3)] sample_small_files(2-4)
    f(1) [unfolded sample_created_def]]
  let ?f0 = "f\<lparr>group_commit_size := 64\<rparr>" and ?d = "replicate 512 (7 :: byte)"
  have "core_eq ?f0 f" by (simp add: core_eq_def)
  then have inv: "file_inv ?f0" using core_eq_inv c(1) by blast
  have "write_room ?f0 512 (length ?d + r * 512)" using f(2) by simp
  from write_chunk_live [OF inv _ _ _ _ _ this, of 1] obtain f1 where
    f1: "write_chunk 512 ?d ?f0 = (Inr (), f1)" "write_room f1 1024 (r * 512)" by auto
  have "\<not> sealed ?f0" "512 \<le> max_io_size ?f0" using c(8,10) by (simp_all add: MAX_IO_SIZE_def)
  then have w: "write_internal 512 ?d ?f0 = (Inr 512, f1)" using f1(1) by (simp add: write_internal_one_chunk)
  have "chunk_done 512 ?d ?f0 f1" using write_internal_done [OF inv _ _ w] by simp
  then have "file_inv f1" "same_shape f f1" by (simp_all add: chunk_done_def same_shape_def)
  moreover note f1(2)
  moreover have "run_vops write_internal discard_range [VWrite 512 ?d] ?f0 = (Inr (), f1)" using w by simp
  ultimately show ?thesis using that [OF f(1)] f(3) by (simp add: set_index_group_commit_def same_shape_def)
qed


text \<open>
  C32. Turning group commit off while mappings are buffered reorders the index log: the next mapping is
  appended to the file at once, the older ones follow it with the next flush. Replaying the file inserts them
  last, so that they win over the newer mapping wherever the two overlap.
\<close>

theorem group_commit_off_reorders:
  assumes "rw_index_file f = Some i" "index_room f 1"
    "set_index_group_commit 0 f = (Inr (), f0)" "publish m f0 = (Inr (), f1)" "flush_group_commit f1 = (Inr (), f2)"
  shows "\<exists>j. rw_index_file f2 = Some j \<and> vf_bytes j (rw_index_append_offset f) (16 + 16 * length (group_commit_buf f))
     = disk_bytes (from_memory (m\<lparr>tag := 0\<rparr>)) @ mapping_bytes (group_commit_buf f)"
proof -
  let ?d = "disk_bytes (from_memory (m\<lparr>tag := 0\<rparr>))" and ?A = "rw_index_append_offset f" and ?B = "group_commit_buf f"
  have room: "\<not> vf_direct i" "vf_limit i < 2 ^ 63" "?A mod 16 = 0" "?A + 16 * (length ?B + 1) \<le> vf_limit i"
    using assms(1,2) by (auto simp: index_room_def)
  have f0: "f0 = f\<lparr>group_commit_size := 0\<rparr>" using assms(3) by (simp add: set_index_group_commit_def)
  have ne: "?d \<noteq> []" using length_disk_bytes [of "from_memory (m\<lparr>tag := 0\<rparr>)"] by fastforce
  have "append_index_bytes ?d f0 = (Inr (), f0\<lparr>rw_index_file := Some (pwrite ?A ?d i), rw_index_append_offset := ?A + 16\<rparr>)"
    using append_index_bytes_room [of f0 i ?d] ne room assms(1) by (simp add: f0)
  then have f1: "f1 = f0\<lparr>rw_index_file := Some (pwrite ?A ?d i), rw_index_append_offset := ?A + 16\<rparr>"
    using assms(4) by (simp add: publish_def append_index_mapping_def f0)
  show ?thesis
  proof (cases "?B = []")
    case True
    then have "f2 = f1" using assms(5) f1 by (simp add: flush_group_commit_def f0)
    moreover have "vf_bytes (pwrite ?A ?d i) ?A 16 = ?d" by (intro nth_equalityI) (auto simp: pwrite_byte)
    ultimately show ?thesis using f1 True by simp
  next
    case False
    have "mapping_bytes ?B \<noteq> []" using False length_mapping_bytes [of ?B] by fastforce
    moreover have "(?A + 16) mod 16 = 0" using room(3) by simp
    ultimately have "append_index_bytes (mapping_bytes ?B) f1 = (Inr (),
        f1\<lparr>rw_index_file := Some (pwrite (?A + 16) (mapping_bytes ?B) (pwrite ?A ?d i)),
           rw_index_append_offset := ?A + 16 + 16 * length ?B\<rparr>)"
      using append_index_bytes_room [of f1 "pwrite ?A ?d i" "mapping_bytes ?B"] room(1,2,4) f1 by simp
    then have "rw_index_file f2 = Some (pwrite (?A + 16) (mapping_bytes ?B) (pwrite ?A ?d i))"
      using assms(5) False f1 by (auto simp: flush_group_commit_def f0)
    moreover have "vf_bytes (pwrite (?A + 16) (mapping_bytes ?B) (pwrite ?A ?d i)) ?A (16 + 16 * length ?B) = ?d @ mapping_bytes ?B"
      by (intro nth_equalityI) (auto simp: pwrite_byte nth_append)
    ultimately show ?thesis by blast
  qed
qed

theorem group_commit_off_reorders_witness:
  "\<exists>j. rw_index_file (snd (flush_group_commit (snd (publish (SegmentMapping_new 1 1 9 False 0)
      (snd (set_index_group_commit 0 ((sample_file LogStructured)\<lparr>group_commit_size := 64,
         group_commit_buf := [from_memory (SegmentMapping_new 1 1 8 False 0)]\<rparr>))))))) = Some j
    \<and> vf_bytes j 4096 32 = disk_bytes (from_memory (SegmentMapping_new 1 1 9 False 0))
        @ disk_bytes (from_memory (SegmentMapping_new 1 1 8 False 0))"
proof -
  let ?m = "SegmentMapping_new 1 1 9 False 0" and ?b = "from_memory (SegmentMapping_new 1 1 8 False 0)"
  let ?f = "(sample_file LogStructured)\<lparr>group_commit_size := 64, group_commit_buf := [?b]\<rparr>"
  have i: "rw_index_file ?f = Some (sample_vfile 4096)" "index_room ?f 2"
    by (simp_all add: sample_file_def index_room_def sample_vfile_def)
  have g: "set_index_group_commit 0 ?f = (Inr (), ?f\<lparr>group_commit_size := 0\<rparr>)" by (simp add: set_index_group_commit_def)
  have "index_room (?f\<lparr>group_commit_size := 0\<rparr>) (Suc 0)" by (simp add: sample_file_def index_room_def sample_vfile_def)
  then obtain f1 where f1: "publish ?m (?f\<lparr>group_commit_size := 0\<rparr>) = (Inr (), f1)" "index_room f1 0"
    using publish_room by blast
  then obtain f2 where f2: "flush_group_commit f1 = (Inr (), f2)" using flush_room by blast
  have r: "index_room ?f 1" using i(2) by (rule index_room_le) simp
  have t: "?m\<lparr>tag := 0\<rparr> = ?m" by (simp add: SegmentMapping_new_def)
  from group_commit_off_reorders [OF i(1) r g f1(1) f2] show ?thesis
    unfolding g snd_conv f1(1) f2 t by (simp add: sample_file_def)
qed

text \<open>
  C33. What a guest writes can make its layer unopenable. When the last 4096 bytes appended to a
  log-structured layer hold the bytes of a sealed trailer, as a copied layer file does, the layer is refused
  when it is opened again: the header alone does not tell an unsealed layer from a sealed one.
\<close>

theorem guest_trailer_blocks_reopen:
  assumes inv: "file_inv f" and D: "durable f h L" and hd: "header_for h LogStructured (virtual_size f)"
    and ty: "file_type f = ReadWrite" and us: "\<not> sealed f" "4096 \<le> max_io_size f"
    and t: "header_ok t" "verify_magic t" "is_trailer t" "is_data_file t" "is_sealed t"
    and w: "write_internal off (copy_header_block (replicate HEADER_SIZE 0) t) f = (Inr n, f')"
  shows "LSMTFile_open U (rw_data_file f') (rw_index_file f') low lows = Inl (Err ''Cannot open a Sealed LSMT file in RW mode.'')"
proof -
  let ?b = "copy_header_block (replicate HEADER_SIZE 0) t" and ?A = "rw_data_append_offset f" and ?d = "rw_data_file f"
  have l: "length ?b = 4096" "length (ht_bytes t) = HT_SIZE" "?b \<noteq> []" "take HT_SIZE ?b = ht_bytes t"
    using length_ht_bytes [OF t(1)] by (auto simp: copy_header_block_def HEADER_SIZE_def HT_SIZE_def)
  have al: "off mod 512 = 0"
    using w l(3) us by (auto simp: write_internal_def check_alignment_def ALIGNMENT_def split: if_splits)
  obtain u where "write_chunk off ?b f = (Inr u, f')"
    using w write_internal_one_chunk [OF us(1) l(3) al] l(1) us(2) by (auto simp: bindR_eq_Inr)
  then have wc: "write_chunk_log off ?b f = (Inr u, f')" using ty by (simp add: write_chunk_def)
  then obtain g m where g: "publish m (index_insert m g) = (Inr u, f')" "rw_data_file g = pwrite ?A ?b ?d" "?A + 4096 \<le> vf_limit ?d"
    using vf_write_at_Inr [of ?A ?b ?d] l(1,3)
    by (auto simp: write_chunk_log_def bindR_eq_Inr data_append_offset_def on_data_Inr advance_data_Inr Let_def)
  have d': "rw_data_file f' = pwrite ?A ?b ?d" "?A + 4096 \<le> vf_limit ?d"
    using index_frame_simps(3) [of "index_insert m g" f'] publish_frame [of "index_insert m g" m] g by simp_all
  have s: "vf_size ?d = ?A" "4096 \<le> ?A" "vf_bytes ?d 0 HT_SIZE = ht_bytes h" using D by (auto simp: durable_def data_tidy_def)
  have ok: "vf_ok ?d" "vf_ok (pwrite ?A ?b ?d)" using inv d'(2) l(1) pwrite_ok by (auto simp: file_inv_def layers_def)
  have sz: "vf_size (pwrite ?A ?b ?d) = ?A + 4096" using s l(1,3) by (simp add: pwrite_size)
  have lt: "?A < 2 ^ 63" using ok(2) d'(2) by (auto simp: vf_ok_def)
  have "vf_bytes (pwrite ?A ?b ?d) ?A 4096 = ?b" by (intro nth_equalityI) (auto simp: pwrite_byte l(1))
  then have "verify_ht (pwrite ?A ?b ?d) True (?A + 4096) = Inr t"
    using vf_read_at_into_eq [OF ok(2) lt, of "replicate HEADER_SIZE 0"] t ht_roundtrip [OF t(1)] s(2) l sz
    by (simp add: verify_ht_def HEADER_SIZE_def HT_SIZE_def)
  moreover have "verify_ht (pwrite ?A ?b ?d) False n' = Inr h" for n'
    using verify_ht_header [OF ok(2) _ _ hd] pwrite_header [OF s(2)] s sz by simp
  ultimately show ?thesis
    using hd s(2) sz by (simp add: LSMTFile_open_def Let_def d'(1) header_for_def HEADER_SIZE_def)
qed

theorem guest_trailer_blocks_reopen_witness:
  "\<exists>f' :: LSMTFile. LSMTFile_open uuid_hex (rw_data_file f') (rw_index_file f') None []
     = Inl (Err ''Cannot open a Sealed LSMT file in RW mode.'')"
proof -
  let ?t = "seal_trailer 1048576 4096 0 (sample_header LogStructured)"
  let ?b = "copy_header_block (replicate HEADER_SIZE 0) ?t"
  have t: "header_ok ?t" "verify_magic ?t" "is_trailer ?t" "is_data_file ?t" "is_sealed ?t"
    using sample_header_ok [of LogStructured] rw_header_magic [of uuid_hex 1048576 LogStructured]
    by (simp_all add: seal_trailer_def header_ok_def header_setters header_queries verify_magic_def sample_header_def
        rw_header_flags bit_numeral_rec)
  obtain f fs where f: "sample_created LogStructured 8192 = (Inr f, fs)" "write_room (f\<lparr>group_commit_size := 64\<rparr>) 0 4096"
    by (rule sample_created_file [of LogStructured 4096 8192]) simp_all
  have v: "vf_ok (sample_small 8192)" "vf_size (sample_small 8192) = 0" "vf_ok (sample_vfile 0)" "vf_size (sample_vfile 0) = 0"
    by (simp_all add: sample_vfile_def sample_small_def vf_ok_def)
  have h: "length (replicate 16 (7 :: byte)) = 16" "(1048576 :: nat) < 2 ^ 64" "\<forall>p. (None :: Uuid option) = Some p \<longrightarrow> length p = 16"
    "LogStructured \<noteq> Sparse" by simp_all
  note c = create_durable [OF uuid_hex_ok h v f(1) [unfolded sample_created_def]]
  have hd: "header_for (rw_header uuid_hex 1048576 LogStructured (replicate 16 7) None None) LogStructured (virtual_size f)"
    using c(5,9) by simp
  have ty: "file_type f = ReadWrite" "4096 \<le> max_io_size f" using c(4,8) by (simp_all add: MAX_IO_SIZE_def)
  have "length ?b = 4096" using length_ht_bytes [OF t(1)] by (simp add: copy_header_block_def HEADER_SIZE_def HT_SIZE_def)
  moreover have "write_room f 0 4096" using f(2) 
    by (cases "rw_index_file f") (auto simp: write_room_def index_room_def split: if_splits)
  ultimately obtain f' where "write_internal 0 ?b f = (Inr 4096, f')"
    using write_internal_live [OF c(1,10), of 0 ?b] by auto
  from guest_trailer_blocks_reopen [OF c(1,2) hd ty(1) c(10) ty(2) t this] show ?thesis by blast
qed

end
