(* ===== verification/Lsmt_Stack.thy ===== *)
theory Lsmt_Stack
  imports Lsmt_Log
begin

text \<open>
  Read-only layers and stacks of layers: \<^verbatim>\<open>lsmt/file/readonly.rs\<close>, \<^verbatim>\<open>lsmt/file/stack.rs\<close> and the
  metadata loading of \<^verbatim>\<open>lsmt/file/helper.rs\<close>. A sealed layer is a file and the index it carries; the theory
  shows what a stack of sealed layers shows, that sealing appends exactly the index, the padding and the
  trailer, that the sealed file reopens with the contents of the writable layer, and that sealing a layer on
  top of a stack does not change the device.
\<close>

section \<open>Read-only layers and stacks\<close>

subsection \<open>One sealed layer\<close>

record LSMTReadOnlyFile =
  ro_index :: ReadOnlyIndex
  ro_index_view :: "ReadOnlyIndex option"
  ro_layers :: "VFile list"
  ro_virtual_size :: nat
  ro_max_io_size :: nat
  ro_uuids :: "Uuid list"
  ro_file_type :: LSMTFileType

definition LSMTReadOnlyFile_open :: "uuid_crate \<Rightarrow> VFile \<Rightarrow> error + LSMTReadOnlyFile" where
  "LSMTReadOnlyFile_open U file =
     (let file_size = vf_size file in
      case verify_ht file False file_size of
        Inl e \<Rightarrow> Inl e
      | Inr _ \<Rightarrow>
          (case verify_ht file True file_size of
             Inl e \<Rightarrow> Inl e
           | Inr trailer \<Rightarrow>
               (case load_index_and_reset_tags file (index_offset trailer) (index_size trailer) of
                  Inl e \<Rightarrow> Inl e
                | Inr mappings \<Rightarrow>
                    let index = ReadOnlyIndex_new mappings;
                        uuid = (case parse_uuid_field U (ht_uuid trailer) of None \<Rightarrow> uuid_nil | Some u \<Rightarrow> u)
                    in Inr \<lparr>ro_index = index, ro_index_view = Some index, ro_layers = [file],
                            ro_virtual_size = ht_virtual_size trailer, ro_max_io_size = MAX_IO_SIZE,
                            ro_uuids = [uuid], ro_file_type = ReadOnly\<rparr>)))"

definition ro_set_max_io_size :: "nat \<Rightarrow> LSMTReadOnlyFile \<Rightarrow> (unit, LSMTReadOnlyFile) outcome" where
  "ro_set_max_io_size sz f =
     bindR (ensureR (sz \<noteq> 0 \<and> sz mod ALIGNMENT_4K = 0) (Err ''size must be non-zero and aligned to 4K'') f)
       (\<lambda>_ f. (Inr (), f\<lparr>ro_max_io_size := sz\<rparr>))"

definition ro_get_uuid :: "LSMTReadOnlyFile \<Rightarrow> nat \<Rightarrow> error + Uuid" where
  "ro_get_uuid f layer_idx =
     (if layer_idx < length (ro_uuids f) then Inr (ro_uuids f ! layer_idx) else Inl (Err ''layer_idx out of range''))"

definition ro_all :: "LSMTReadOnlyFile \<Rightarrow> SegmentMapping list" where
  "ro_all f = ReadOnlyIndex_lookup (ro_index f) (Segment_new 0 (as_u32 (div_ceil (ro_virtual_size f) ALIGNMENT)))"

definition ro_data_stat :: "LSMTReadOnlyFile \<Rightarrow> DataStat" where
  "ro_data_stat f =
     (let valid = u64_mul (valid_blocks (ro_all f)) ALIGNMENT
      in \<lparr>total_data_size = valid, valid_data_size = valid\<rparr>)"

definition ro_seek_data :: "LSMTReadOnlyFile \<Rightarrow> nat \<Rightarrow> nat \<Rightarrow> Segment list \<Rightarrow> nat \<times> Segment list" where
  "ro_seek_data f begin_off end_off segs =
     (if end_off \<le> begin_off then (0, segs)
      else
        let begin_blk = begin_off div ALIGNMENT; end_blk = div_ceil end_off ALIGNMENT
        in if end_blk \<le> begin_blk then (0, segs)
           else
             let mappings = ReadOnlyIndex_lookup (ro_index f) (Segment_new begin_blk (as_u32 (end_blk - begin_blk)));
                 segs = segs @ map (\<lambda>m. Segment_new (m_offset m) (m_length m)) (filter (\<lambda>m. \<not> zeroed m) mappings)
             in (length segs, segs))"

definition ro_read_at :: "LSMTReadOnlyFile \<Rightarrow> nat \<Rightarrow> nat \<Rightarrow> error + byte list" where
  "ro_read_at f off len =
     (if len = 0 \<or> off \<ge> ro_virtual_size f then Inr []
      else case read_internal_into (ReadOnlyIndex_lookup (ro_index f)) (ro_layers f) (ro_virtual_size f)
                  (ro_max_io_size f) off (replicate (min len (ro_virtual_size f - off)) 0) of
             (Inl e, _) \<Rightarrow> Inl e
           | (Inr n, buffer) \<Rightarrow> Inr (take n buffer))"

definition ro_read_at_into :: "LSMTReadOnlyFile \<Rightarrow> nat \<Rightarrow> byte list \<Rightarrow> (nat, byte list) outcome" where
  "ro_read_at_into f off dst =
     (if dst = [] then (Inr 0, dst)
      else read_internal_into (ReadOnlyIndex_lookup (ro_index f)) (ro_layers f) (ro_virtual_size f)
             (ro_max_io_size f) off dst)"

definition ro_write_at :: "nat \<Rightarrow> byte list \<Rightarrow> LSMTReadOnlyFile \<Rightarrow> (nat, LSMTReadOnlyFile) outcome" where
  "ro_write_at off data f = (Inl (Err ''File is read-only''), f)"

definition from_merged_layers :: "VFile list \<Rightarrow> ReadOnlyIndex \<Rightarrow> nat \<Rightarrow> Uuid list \<Rightarrow> LSMTFileType
    \<Rightarrow> LSMTReadOnlyFile" where
  "from_merged_layers lays merged vsize ids ft =
     \<lparr>ro_index = merged, ro_index_view = Some merged, ro_layers = lays, ro_virtual_size = vsize,
      ro_max_io_size = MAX_IO_SIZE, ro_uuids = ids, ro_file_type = ft\<rparr>"

subsection \<open>Stacks\<close>

definition MAX_STACK_LAYERS :: nat where "MAX_STACK_LAYERS = 255"

record ReadOnlyLayerMetadata =
  md_uuid :: Uuid
  md_file_size :: nat
  md_virtual_size :: nat
  md_index_offset :: nat
  md_index_size :: nat
  md_header_version :: nat
  md_header_sub_version :: nat
  md_trailer_version :: nat
  md_trailer_sub_version :: nat

definition load_readonly_layer_metadata :: "uuid_crate \<Rightarrow> VFile \<Rightarrow> error + ReadOnlyLayerMetadata" where
  "load_readonly_layer_metadata U file =
     (let file_size = vf_size file in
      case verify_ht file False file_size of
        Inl e \<Rightarrow> Inl e
      | Inr header \<Rightarrow>
          (case verify_ht file True file_size of
             Inl e \<Rightarrow> Inl e
           | Inr trailer \<Rightarrow>
               Inr \<lparr>md_uuid = (case parse_uuid_field U (ht_uuid trailer) of None \<Rightarrow> uuid_nil | Some u \<Rightarrow> u),
                    md_file_size = file_size, md_virtual_size = ht_virtual_size trailer,
                    md_index_offset = index_offset trailer, md_index_size = index_size trailer,
                    md_header_version = version header, md_header_sub_version = sub_version header,
                    md_trailer_version = version trailer, md_trailer_sub_version = sub_version trailer\<rparr>))"

text \<open>
  The files of a stack are read by concurrent tasks whose results are put back in layer order. When
  several fail, which of the errors is reported depends on the schedule; the model reports the first.
\<close>

fun traverse :: "('a \<Rightarrow> error + 'b) \<Rightarrow> 'a list \<Rightarrow> error + 'b list" where
  "traverse g [] = Inr []"
| "traverse g (x # xs) =
     (case g x of
        Inl e \<Rightarrow> Inl e
      | Inr y \<Rightarrow> (case traverse g xs of Inl e \<Rightarrow> Inl e | Inr ys \<Rightarrow> Inr (y # ys)))"

definition load_readonly_layers_metadata :: "uuid_crate \<Rightarrow> VFile list \<Rightarrow> error + ReadOnlyLayerMetadata list" where
  "load_readonly_layers_metadata U files = traverse (load_readonly_layer_metadata U) files"

definition validate_open_files_ro_inputs :: "VFile list \<Rightarrow> error + unit" where
  "validate_open_files_ro_inputs files =
     (if files = [] then Inl (Err ''empty file list'')
      else if \<not> length files \<le> MAX_STACK_LAYERS then Inl (Err ''too many layers'')
      else Inr ())"

definition load_layer_index :: "VFile \<times> ReadOnlyLayerMetadata \<Rightarrow> error + ReadOnlyIndex" where
  "load_layer_index fm =
     (case load_index_and_reset_tags (fst fm) (md_index_offset (snd fm)) (md_index_size (snd fm)) of
        Inl e \<Rightarrow> Inl e
      | Inr ms \<Rightarrow> Inr (ReadOnlyIndex_new ms))"

definition merge_readonly_indexes :: "VFile list \<Rightarrow> ReadOnlyLayerMetadata list \<Rightarrow> error + ReadOnlyIndex" where
  "merge_readonly_indexes files metadata =
     (if length files \<noteq> length metadata then Inl (Err ''readonly files/metadata length mismatch'')
      else case traverse load_layer_index (zip files metadata) of
             Inl e \<Rightarrow> Inl e
           | Inr ro_indexes \<Rightarrow> Inr (ReadOnlyIndex_merge (rev ro_indexes)))"

definition stack_virtual_size :: "ReadOnlyLayerMetadata list \<Rightarrow> nat" where
  "stack_virtual_size metadata =
     fold (\<lambda>layer vs. if md_virtual_size layer > 0 then md_virtual_size layer else vs) metadata 0"

definition build_readonly_stack_from_merged :: "VFile list \<Rightarrow> ReadOnlyLayerMetadata list \<Rightarrow> ReadOnlyIndex
    \<Rightarrow> error + LSMTReadOnlyFile" where
  "build_readonly_stack_from_merged files metadata merged =
     (if length files \<noteq> length metadata then Inl (Err ''readonly files/metadata length mismatch'')
      else Inr (from_merged_layers (rev files) merged (stack_virtual_size metadata)
                  (rev (map md_uuid metadata)) ReadOnly))"

definition open_files_ro :: "uuid_crate \<Rightarrow> VFile list \<Rightarrow> error + LSMTReadOnlyFile" where
  "open_files_ro U files =
     (case validate_open_files_ro_inputs files of
        Inl e \<Rightarrow> Inl e
      | Inr _ \<Rightarrow>
          (case load_readonly_layers_metadata U files of
             Inl e \<Rightarrow> Inl e
           | Inr metadata \<Rightarrow>
               (case merge_readonly_indexes files metadata of
                  Inl e \<Rightarrow> Inl e
                | Inr merged \<Rightarrow> build_readonly_stack_from_merged files metadata merged)))"

fun verify_layers_from :: "uuid_crate \<Rightarrow> Uuid option \<Rightarrow> (VFile \<times> Uuid) list \<Rightarrow> error + unit" where
  "verify_layers_from U parent_uuid [] = Inr ()"
| "verify_layers_from U parent_uuid ((layer, uuid) # rest) =
     (if (case parent_uuid of None \<Rightarrow> False | Some expected \<Rightarrow> uuid \<noteq> expected)
      then Inl (Err ''parent uuid mismatch'')
      else if rest = [] then Inr ()
      else case verify_ht layer False (vf_size layer) of
             Inl e \<Rightarrow> Inl e
           | Inr ht \<Rightarrow> verify_layers_from U (parse_uuid_field U (ht_parent_uuid ht)) rest)"

definition verify_layer_order :: "uuid_crate \<Rightarrow> VFile list \<Rightarrow> Uuid list \<Rightarrow> nat \<Rightarrow> error + unit" where
  "verify_layer_order U lays ids start_layer =
     (if length lays \<noteq> length ids then Inl (Err ''layers and uuids size mismatch'')
      else if start_layer \<ge> length lays then Inr ()
      else verify_layers_from U None (drop start_layer (zip lays ids)))"

definition stack_files :: "uuid_crate \<Rightarrow> LSMTFile \<Rightarrow> LSMTReadOnlyFile \<Rightarrow> bool
    \<Rightarrow> (LSMTFile, VFile \<times> VFile option) outcome" where
  "stack_files U upper_layer lower_layers check_order =
     (let files = (rw_data_file upper_layer, rw_index_file upper_layer) in
      case (if check_order then verify_layer_order U (ro_layers lower_layers) (ro_uuids lower_layers) 1 else Inr ()) of
        Inl e \<Rightarrow> (Inl e, files)
      | Inr _ \<Rightarrow>
          (case ro_index_view lower_layers of
             None \<Rightarrow> (Inl (Err ''missing lower readonly index''), files)
           | Some lower_index \<Rightarrow>
               (case LSMTFile_open U (rw_data_file upper_layer) (rw_index_file upper_layer) (Some lower_index)
                       (ro_layers lower_layers) of
                  Inl e \<Rightarrow> (Inl e, files)
                | Inr stacked \<Rightarrow>
                    (case (if virtual_size stacked = 0 then update_vsize (ro_virtual_size lower_layers) stacked
                           else (Inr (), stacked)) of
                       (Inl e, stacked) \<Rightarrow> (Inl e, (rw_data_file stacked, rw_index_file stacked))
                     | (Inr _, stacked) \<Rightarrow>
                         (Inr (stacked\<lparr>max_io_size := max_io_size upper_layer,
                                group_commit_size := group_commit_size upper_layer,
                                uuids := ro_uuids lower_layers
                                  @ [case uuids upper_layer of [] \<Rightarrow> uuid_nil | u # _ \<Rightarrow> u]\<rparr>),
                          (rw_data_file stacked, rw_index_file stacked))))))"

definition open_file_index :: "VFile \<Rightarrow> error + ReadOnlyIndex" where
  "open_file_index file =
     (case verify_ht file True (vf_size file) of
        Inl e \<Rightarrow> Inl e
      | Inr trailer \<Rightarrow>
          (case load_index_and_reset_tags file (index_offset trailer) (index_size trailer) of
             Inl e \<Rightarrow> Inl e
           | Inr mappings \<Rightarrow> Inr (ReadOnlyIndex_new mappings)))"

definition is_lsmt :: "VFile \<Rightarrow> int" where
  "is_lsmt file =
     (case verify_ht file False (vf_size file) of
        Inl _ \<Rightarrow> 0
      | Inr _ \<Rightarrow> (case verify_ht file True (vf_size file) of Inl _ \<Rightarrow> 0 | Inr _ \<Rightarrow> 1))"

definition create_file_rw :: "uuid_crate \<Rightarrow> nat \<Rightarrow> RwLayout \<Rightarrow> Uuid \<Rightarrow> Uuid option \<Rightarrow> byte list option
    \<Rightarrow> VFile \<times> VFile option \<Rightarrow> (LSMTFile, VFile \<times> VFile option) outcome" where
  "create_file_rw U vsize lay uuid parent utag files = create_with_metadata U vsize lay uuid parent utag files"

definition open_file_rw :: "uuid_crate \<Rightarrow> VFile \<Rightarrow> VFile option \<Rightarrow> error + LSMTFile" where
  "open_file_rw U fdata findex = LSMTFile_open U fdata findex None []"

text \<open>Sealing and opening the sealed file, \<^verbatim>\<open>close_seal_and_reopen\<close>.\<close>

definition close_seal_and_reopen :: "uuid_crate \<Rightarrow> (byte list \<Rightarrow> byte list) \<Rightarrow> LSMTFile
    \<Rightarrow> (LSMTReadOnlyFile \<times> LayerDescriptor option, LSMTFile) outcome" where
  "close_seal_and_reopen U sha256 f =
     bindR (close_seal sha256 f) (\<lambda>descr f.
     case LSMTReadOnlyFile_open U (rw_data_file f) of
       Inl e \<Rightarrow> (Inl e, f)
     | Inr reopened \<Rightarrow>
         (case ro_set_max_io_size (max_io_size f) reopened of
            (Inl e, _) \<Rightarrow> (Inl e, f)
          | (Inr _, reopened) \<Rightarrow> (Inr (reopened, descr), f)))"

subsection \<open>What a read-only file holds\<close>

definition ro_device :: "LSMTReadOnlyFile \<Rightarrow> nat \<Rightarrow> byte" where
  "ro_device r = map_byte (ro_layers r) (imap (ro_index r))"

definition ro_inv :: "LSMTReadOnlyFile \<Rightarrow> bool" where
  "ro_inv r \<longleftrightarrow> index_ok (ro_index r) \<and> (\<forall>l\<in>set (ro_layers r). vf_ok l)
     \<and> (\<forall>b c. imap (ro_index r) b = Some c \<longrightarrow> readable (ro_layers r) c)
     \<and> 0 < ro_max_io_size r \<and> ro_max_io_size r mod 4096 = 0"

lemma ro_read_at_into_device:
  assumes "ro_inv r" "off mod 512 = 0" "length dst mod 512 = 0" "length dst < 2 ^ 40" "ro_virtual_size r < 2 ^ 63"
  defines "n \<equiv> min (length dst) (ro_virtual_size r - off)"
  shows "ro_read_at_into r off dst = (Inr n, map (ro_device r) [off..<off + n] @ drop n dst)"
proof (cases "dst = []")
  case True
  then show ?thesis by (simp add: ro_read_at_into_def n_def)
next
  case False
  have "ro_max_io_size r mod 512 = 0" using assms(1) mod_mod_cancel [of 512 4096 "ro_max_io_size r"] by (auto simp: ro_inv_def)
  then show ?thesis
    using ro_ix.read_internal_into_ok [of "ro_index r" "ro_layers r" "ro_max_io_size r" off dst "ro_virtual_size r"] assms False
    by (simp add: ro_read_at_into_def ro_inv_def ro_device_def n_def)
qed

text \<open>
  The contents of one layer: a byte of a mapped block, or nothing, so that the layer below shows. A stack of
  layers, the newest first, shows the first that maps a block.
\<close>

definition layer_byte :: "VFile \<times> SegmentMapping list \<Rightarrow> nat \<Rightarrow> byte option" where
  "layer_byte l i = map_option (\<lambda>c. if cell_zeroed c then 0 else
     case cell_phys c of None \<Rightarrow> 0 | Some p \<Rightarrow> vf_byte (fst l) (p * 512 + i mod 512)) (imap (snd l) (i div 512))"

fun stack_byte :: "(VFile \<times> SegmentMapping list) list \<Rightarrow> nat \<Rightarrow> byte" where
  "stack_byte [] i = 0"
| "stack_byte (l # ls) i = (case layer_byte l i of Some x \<Rightarrow> x | None \<Rightarrow> stack_byte ls i)"

lemma layer_map_byte:
  assumes "j + length ls \<le> 256" "length pre = j"
  shows "cell_byte (pre @ map fst ls) (map_option norm_cell (layer_map j (map snd ls) (i div 512))) (i mod 512) = stack_byte ls i"
  using assms
proof (induction ls arbitrary: j pre)
  case Nil
  then show ?case by (simp add: cell_byte_def)
next
  case (Cons l ls)
  obtain v ms where l: "l = (v, ms)" by (cases l)
  have ih: "cell_byte ((pre @ [v]) @ map fst ls) (map_option norm_cell (layer_map (Suc j) (map snd ls) (i div 512))) (i mod 512)
    = stack_byte ls i" using Cons.prems by (intro Cons.IH) auto
  have "as_u8 j = j" using Cons.prems by (simp add: as_u8_def)
  then show ?case
    using ih Cons.prems(2)
    by (cases "imap ms (i div 512)")
      (simp_all add: l layer_byte_def, auto simp: cell_byte_def norm_cell_def retag_def nth_append split: option.splits)
qed

lemma layer_map_readable:
  assumes "j + length ls \<le> 256" "length pre = j"
    "\<forall>l\<in>set ls. \<forall>b c. imap (snd l) b = Some c \<longrightarrow> readable [fst l] (retag 0 c)" "layer_map j (map snd ls) b = Some c"
  shows "readable (pre @ map fst ls) (norm_cell c)"
  using assms
proof (induction ls arbitrary: j pre)
  case (Cons l ls)
  have j: "as_u8 j = j" using Cons.prems(1) by (simp add: as_u8_def)
  show ?case
  proof (cases "imap (snd l) b")
    case None
    then show ?thesis using Cons.IH [of "Suc j" "pre @ [fst l]"] Cons.prems by auto
  next
    case (Some c0)
    then have "readable [fst l] (retag 0 c0)" using Cons.prems(3) by auto
    then show ?thesis using Some Cons.prems(2,4) j
      by (auto simp: readable_def norm_cell_def retag_def nth_append split: option.splits)
  qed
qed simp

lemma traverse_map: "\<forall>x\<in>set xs. g x = Inr (k x) \<Longrightarrow> traverse g xs = Inr (map k xs)"
  by (induction xs) simp_all

definition sealed_layer :: "VFile \<times> SegmentMapping list \<Rightarrow> bool" where
  "sealed_layer l \<longleftrightarrow> vf_ok (fst l) \<and> index_ok (snd l) \<and> (\<forall>b c. imap (snd l) b = Some c \<longrightarrow> readable [fst l] c)
     \<and> (\<exists>h t. verify_ht (fst l) False (vf_size (fst l)) = Inr h \<and> verify_ht (fst l) True (vf_size (fst l)) = Inr t
          \<and> load_index_and_reset_tags (fst l) (index_offset t) (index_size t) = Inr (snd l))"

lemma layer_byte_new: "layer_byte (v, ReadOnlyIndex_new ms) i = layer_byte (v, ms) i"
  by (cases "imap ms (i div 512)") (auto simp: layer_byte_def ReadOnlyIndex_new_imap norm_cell_def split: option.split)

lemma stack_byte_new: "stack_byte (map (\<lambda>l. (fst l, ReadOnlyIndex_new (snd l))) ls) i = stack_byte ls i"
  by (induction ls) (simp_all add: layer_byte_new split: option.split)

lemma open_files_ro_parts:
  assumes "ls \<noteq> []" "length ls \<le> 255" "\<forall>l\<in>set ls. sealed_layer l"
  obtains md where "open_files_ro U (map fst ls) = Inr (from_merged_layers (rev (map fst ls))
      (ReadOnlyIndex_merge (rev (map (ReadOnlyIndex_new \<circ> snd) ls))) (stack_virtual_size (map md ls)) (rev (map (md_uuid \<circ> md) ls)) ReadOnly)"
    "\<forall>l\<in>set ls. load_readonly_layer_metadata U (fst l) = Inr (md l)"
proof -
  define md where "md l = projr (load_readonly_layer_metadata U (fst l))" for l :: "VFile \<times> SegmentMapping list"
  have md: "load_readonly_layer_metadata U (fst l) = Inr (md l) \<and> load_layer_index (fst l, md l) = Inr (ReadOnlyIndex_new (snd l))"
    if "l \<in> set ls" for l
    using assms(3) that by (force simp: sealed_layer_def load_readonly_layer_metadata_def load_layer_index_def md_def Let_def)
  have m: "load_readonly_layers_metadata U (map fst ls) = Inr (map md ls)"
  proof -
    have "\<forall>v\<in>set (map fst ls). load_readonly_layer_metadata U v = Inr (projr (load_readonly_layer_metadata U v))"
      using md by (auto simp: md_def)
    from traverse_map [OF this] show ?thesis by (simp add: load_readonly_layers_metadata_def md_def comp_def)
  qed
  have z: "zip (map fst ls) (map md ls) = map (\<lambda>l. (fst l, md l)) ls" by (induction ls) simp_all
  have "\<forall>p\<in>set (zip (map fst ls) (map md ls)). load_layer_index p = Inr (projr (load_layer_index p))"
    using md by (auto simp: z)
  from traverse_map [OF this]
  have "traverse load_layer_index (zip (map fst ls) (map md ls)) = Inr (map (ReadOnlyIndex_new \<circ> snd) ls)"
    using md by (simp add: z comp_def)
  then have "open_files_ro U (map fst ls) = Inr (from_merged_layers (rev (map fst ls))
      (ReadOnlyIndex_merge (rev (map (ReadOnlyIndex_new \<circ> snd) ls))) (stack_virtual_size (map md ls)) (rev (map (md_uuid \<circ> md) ls)) ReadOnly)"
    using assms m
    by (simp add: open_files_ro_def validate_open_files_ro_inputs_def MAX_STACK_LAYERS_def merge_readonly_indexes_def
        build_readonly_stack_from_merged_def)
  then show ?thesis using that md by blast
qed

lemma readable_norm: "readable [v] c \<Longrightarrow> readable [v] (retag 0 (norm_cell c))"
  by (auto simp: readable_def retag_def norm_cell_def split: option.splits)

lemma open_files_ro_view:
  assumes "ls \<noteq> []" "length ls \<le> 255" "\<forall>l\<in>set ls. sealed_layer l" "open_files_ro U (map fst ls) = Inr r"
  shows "ro_inv r" "ro_device r = stack_byte (rev ls)"
proof -
  let ?ls = "map (\<lambda>l. (fst l, ReadOnlyIndex_new (snd l))) (rev ls)"
  have r: "ro_layers r = map fst ?ls" "ro_index r = ReadOnlyIndex_merge (map snd ?ls)" "ro_max_io_size r = MAX_IO_SIZE"
  proof -
    obtain md where "open_files_ro U (map fst ls) = Inr (from_merged_layers (rev (map fst ls))
      (ReadOnlyIndex_merge (rev (map (ReadOnlyIndex_new \<circ> snd) ls))) (stack_virtual_size (map md ls)) (rev (map (md_uuid \<circ> md) ls)) ReadOnly)"
      using open_files_ro_parts [OF assms(1-3)] by metis
    then show "ro_layers r = map fst ?ls" "ro_index r = ReadOnlyIndex_merge (map snd ?ls)" "ro_max_io_size r = MAX_IO_SIZE"
      using assms(4) by (auto simp: from_merged_layers_def rev_map comp_def)
  qed
  have ok: "\<forall>x\<in>set (map snd ?ls). index_ok x" using assms(3) ReadOnlyIndex_new_ok by (auto simp: sealed_layer_def)
  note im = ReadOnlyIndex_merge_imap [OF ok] ReadOnlyIndex_merge_ok [OF ok]
  have lim: "0 + length ?ls \<le> 256" using assms(2) by simp
  show "ro_device r = stack_byte (rev ls)"
    using layer_map_byte [OF lim, of "[]"] im(1) by (auto simp: ro_device_def map_byte_def r stack_byte_new fun_eq_iff comp_def)
  have rd: "\<forall>l\<in>set ?ls. \<forall>b c. imap (snd l) b = Some c \<longrightarrow> readable [fst l] (retag 0 c)"
  proof (intro ballI allI impI)
    fix l b c assume l: "l \<in> set ?ls" "imap (snd l) b = Some c"
    then obtain l0 where l0: "l0 \<in> set ls" "l = (fst l0, ReadOnlyIndex_new (snd l0))" by auto
    then obtain c0 where "imap (snd l0) b = Some c0" "c = norm_cell c0" using l(2) by (auto simp: ReadOnlyIndex_new_imap)
    moreover have "sealed_layer l0" using assms(3) l0(1) by blast
    ultimately show "readable [fst l] (retag 0 c)" using readable_norm l0(2) by (simp add: sealed_layer_def)
  qed
  have "\<forall>b c. imap (ro_index r) b = Some c \<longrightarrow> readable (ro_layers r) c"
    using layer_map_readable [OF lim, of "[]", OF _ rd] im(1) by (auto simp: r comp_def)
  moreover have "\<forall>l\<in>set (ro_layers r). vf_ok l" using assms(3) r(1) by (auto simp: sealed_layer_def)
  ultimately show "ro_inv r" using im(2) by (simp add: ro_inv_def r MAX_IO_SIZE_def)
qed

subsection \<open>Sealing\<close>

lemma seal_write_Inr:
  assumes "seal_write off bs f = (Inr v, f')"
  shows "f' = f\<lparr>rw_data_file := pwrite off bs (rw_data_file f), append_digest := absorb_or_drop off bs (append_digest f)\<rparr>"
    "bs = [] \<or> off + length bs \<le> vf_limit (rw_data_file f)"
  using assms vf_write_at_Inr [of off bs "rw_data_file f"]
  by (auto simp: seal_write_def bindR_eq_Inr on_data_def split: prod.splits)

lemma seal_write_end:
  assumes w: "seal_write (vf_size (rw_data_file f)) bs f = (Inr v, f')" and ok: "vf_ok (rw_data_file f)" "digest_ok f"
  shows "vf_ok (rw_data_file f')" "vf_size (rw_data_file f') = vf_size (rw_data_file f) + length bs"
    "contents (rw_data_file f') = contents (rw_data_file f) @ bs" "digest_ok f'"
    "bs \<noteq> [] \<Longrightarrow> append_digest f' = Some t \<Longrightarrow> hasher t = contents (rw_data_file f') \<and> ad_offset t = vf_size (rw_data_file f')"
    "sealed f' = sealed f" "max_io_size f' = max_io_size f"
proof -
  note f' = seal_write_Inr [OF w]
  note e = pwrite_end [OF ok(1) f'(2)]
  have d: "rw_data_file f' = pwrite (vf_size (rw_data_file f)) bs (rw_data_file f)" using f'(1) by simp
  show "vf_ok (rw_data_file f')" "vf_size (rw_data_file f') = vf_size (rw_data_file f) + length bs"
    and c: "contents (rw_data_file f') = contents (rw_data_file f) @ bs" using e d by simp_all
  have a: "absorb_or_drop (length (contents (rw_data_file f))) bs (append_digest f) = append_digest f'" using f'(1) by simp
  have k: "\<forall>t. append_digest f = Some t \<longrightarrow> ad_offset t \<le> length (contents (rw_data_file f))
      \<and> hasher t = take (ad_offset t) (contents (rw_data_file f))" using ok(2) by (auto simp: digest_ok_def)
  note ad = absorb_or_drop_end [OF trans [OF a], OF _ k]
  show "digest_ok f'" using ad(1) c e(2) d by (auto simp: digest_ok_def)
  show "hasher t = contents (rw_data_file f') \<and> ad_offset t = vf_size (rw_data_file f')" if "bs \<noteq> []" "append_digest f' = Some t"
    using ad [OF that(2)] that c e(2) d by auto
  show "sealed f' = sealed f" "max_io_size f' = max_io_size f" using f'(1) by simp_all
qed

text \<open>The blocks that sealing appends.\<close>

definition seal_tail :: "LSMTFile \<Rightarrow> HeaderTrailer \<Rightarrow> byte list" where
  "seal_tail f h = (let a = vf_size (rw_data_file f); ib = seal_index_bytes (seal_mappings f); t = seal_trailer (virtual_size f) a (length (seal_mappings f)) h
     in ib @ replicate (pad_to 4096 (a + length ib)) 0
        @ ht_bytes t @ replicate (4096 - HT_SIZE) 0)"

lemma seal_flags:
  "(((w OR 4) OR 2) AND - 2) AND 1 = (0 :: 32 word)" "(((w OR 4) OR 2) AND - 2) AND 2 \<noteq> (0 :: 32 word)"
  "(((w OR 4) OR 2) AND - 2) AND 4 \<noteq> (0 :: 32 word)"
proof -
  let ?v = "((w OR 4) OR 2) AND - 2 :: 32 word"
  have "\<not> bit ?v 0" "bit ?v 1" "bit ?v 2" by (simp_all add: bit_simps)
  then show "?v AND 1 = 0" "?v AND 2 \<noteq> 0" "?v AND 4 \<noteq> 0"
    using and_exp_eq_0_iff_not_bit [of ?v 0] and_exp_eq_0_iff_not_bit [of ?v 1] and_exp_eq_0_iff_not_bit [of ?v 2] by simp_all
qed

lemma seal_trailer_ok:
  assumes "header_ok h" "verify_magic h" "vs < 2 ^ 64" "a < 2 ^ 64" "n < 2 ^ 64"
  shows "header_ok (seal_trailer vs a n h)" "verify_magic (seal_trailer vs a n h)" "is_trailer (seal_trailer vs a n h)"
    "is_data_file (seal_trailer vs a n h)" "is_sealed (seal_trailer vs a n h)"
  using assms
  by (simp_all add: seal_trailer_def header_ok_def header_setters header_queries verify_magic_def seal_flags)

lemma seal_write_nil: "seal_write off [] f = (Inr (), f)"
  by (cases "append_digest f") (simp_all add: seal_write_def on_data_def vf_write_at_def absorb_or_drop_def absorb_def)

lemma read_header_bytes:
  assumes "vf_ok d" "4096 \<le> vf_size d" "vf_bytes d 0 HT_SIZE = ht_bytes h" "header_ok h"
  shows "\<exists>b. vf_read_at d 0 HEADER_SIZE = Inr b \<and> HT_SIZE \<le> length b \<and> ht_read_from_bytes (take HT_SIZE b) = Some h"
proof -
  have "vf_read_at d 0 HEADER_SIZE = Inr (vf_bytes d 0 4096)"
    using vf_read_at_eq [OF assms(1), of 0 HEADER_SIZE] assms(2) by (simp add: HEADER_SIZE_def min_def)
  moreover have "take HT_SIZE (vf_bytes d 0 4096) = ht_bytes h"
    using assms(3) by (simp add: vf_bytes_def take_map HT_SIZE_def)
  ultimately show ?thesis using ht_roundtrip [OF assms(4)] by (simp add: HT_SIZE_def)
qed

lemma contents_prefix:
  assumes "contents d' = contents d @ bs" "n \<le> vf_size d"
  shows "vf_bytes d' 0 n = vf_bytes d 0 n"
proof -
  have "vf_size d' = vf_size d + length bs" using arg_cong [OF assms(1), of length] by simp
  then show ?thesis using contents_slice [of 0 n d'] contents_slice [of 0 n d] assms by simp
qed

lemma close_seal_appends:
  assumes w: "close_seal sha f = (Inr descr, f')" and ok: "vf_ok (rw_data_file f)" "digest_ok f"
    and h: "4096 \<le> vf_size (rw_data_file f)" "vf_bytes (rw_data_file f) 0 HT_SIZE = ht_bytes h" "header_ok h"
  shows "contents (rw_data_file f') = contents (rw_data_file f) @ seal_tail f h" "vf_ok (rw_data_file f')" "sealed f'"
    "max_io_size f' = max_io_size f"
    "descr = Some d \<Longrightarrow> ld_digest d = ''sha256:'' @ hex_lower (sha (contents (rw_data_file f'))) \<and> ld_size d = vf_size (rw_data_file f')"
proof -
  let ?d = "rw_data_file f" and ?ib = "seal_index_bytes (seal_mappings f)"
  have us: "\<not> sealed f" using w by (auto simp: close_seal_def)
  obtain g where fl: "flush_group_commit (f\<lparr>sealed := True\<rparr>) = (Inr (), g)"
    using w us by (auto simp: close_seal_def bindR_eq_Inr)
  note g = index_frame_simps [OF flush_core [OF fl], simplified]
  have sm: "seal_mappings g = seal_mappings f" using g by (simp add: seal_mappings_def)
  define e where "e = vf_size ?d + length ?ib"
  define p where "p = pad_to 4096 e"
  define tb where "tb = ht_bytes (seal_trailer (virtual_size f) (vf_size ?d) (length (seal_mappings f)) h) @ replicate (4096 - HT_SIZE) (0 :: byte)"
  have gd: "digest_ok g" using ok(2) g by (simp add: digest_ok_def)
  obtain g1 where w1: "seal_write (vf_size (rw_data_file g)) ?ib g = (Inr (), g1)"
    using w us fl g sm by (auto simp: close_seal_def bindR_eq_Inr Let_def)
  note s1 = seal_write_end [OF w1 _ gd, unfolded g, OF ok(1)]
  have e: "vf_size (rw_data_file g1) = e" "u64_add (vf_size ?d) (length ?ib) = e"
    using s1(1,2) by (auto simp: e_def vf_ok_def nowrap)
  have tl: "bindR (seal_write e (replicate p 0) g1) (\<lambda>_ f2.
      seal_finish sha (virtual_size f) (vf_size ?d) (length (seal_mappings f)) (u64_add e p) f2) = (Inr descr, f')"
    using w us fl g sm w1 by (cases "p = 0") (auto simp: close_seal_def Let_def p_def seal_write_nil e(2))
  then obtain g2 where w2: "seal_write (vf_size (rw_data_file g1)) (replicate p 0) g1 = (Inr (), g2)"
    using e(1) by (auto simp: bindR_eq_Inr)
  note s2 = seal_write_end [OF w2 s1(1,4)]
  have c2: "contents (rw_data_file g2) = contents ?d @ ?ib @ replicate p 0" using s1(3) s2(3) by simp
  have sz2: "vf_size (rw_data_file g2) = e + p" "u64_add e p = e + p"
    using s2(1,2) e(1) by (auto simp: vf_ok_def nowrap)
  have "4096 \<le> vf_size (rw_data_file g2)" "vf_bytes (rw_data_file g2) 0 HT_SIZE = ht_bytes h"
    using h contents_prefix [OF c2, of HT_SIZE] sz2(1) by (auto simp: e_def HT_SIZE_def)
  from read_header_bytes [OF s2(1) this h(3)] obtain b where
    b: "vf_read_at (rw_data_file g2) 0 HEADER_SIZE = Inr b" "HT_SIZE \<le> length b" "ht_read_from_bytes (take HT_SIZE b) = Some h" by blast
  have ht: "length (ht_bytes (seal_trailer (virtual_size f) (vf_size ?d) (length (seal_mappings f)) h)) = HT_SIZE"
    using h(3) by (simp add: ht_bytes_def seal_trailer_def header_ok_def header_setters HT_SIZE_def)
  obtain v where w3: "seal_write (vf_size (rw_data_file g2)) tb g2 = (Inr v, f')" "descr = map_option (descriptor sha) (append_digest f')"
    using tl w2 e(1) sz2 b ht by (auto simp: seal_finish_def bindR_eq_Inr Let_def tb_def)
  note s3 = seal_write_end [OF w3(1) s2(1,4)]
  show "vf_ok (rw_data_file f')" by (rule s3(1))
  show "contents (rw_data_file f') = contents (rw_data_file f) @ seal_tail f h"
    using s3(3) c2 by (simp add: seal_tail_def Let_def tb_def p_def e_def)
  show "sealed f'" "max_io_size f' = max_io_size f" using s3(6,7) s2(6,7) s1(6,7) g(6,8) by simp_all
  have "tb \<noteq> []" by (simp add: tb_def HT_SIZE_def)
  then show "ld_digest d = ''sha256:'' @ hex_lower (sha (contents (rw_data_file f'))) \<and> ld_size d = vf_size (rw_data_file f')"
    if "descr = Some d" using that s3(5) w3(2) by (auto simp: descriptor_def)
qed

text \<open>The mappings that sealing writes denote the upper index on the blocks of the device.\<close>

lemma imap_map_cell:
  assumes "\<And>m b. covers (g m) b = covers m b" "\<And>m b. cell_at (g m) b = k (cell_at m b)"
  shows "imap (map g ms) b = map_option k (imap ms b)"
  by (induction ms) (simp_all add: assms)

lemma seal_mappings_props:
  assumes ok: "index_ok (upper (index f))" and vs: "virtual_size f < 2 ^ 41 - 512"
  shows "index_ok (seal_mappings f)"
    "imap (seal_mappings f) b = (if b < div_ceil (virtual_size f) 512 then map_option (\<lambda>c. retag 0 (norm_cell c)) (upper_map f b) else None)"
    "\<forall>m\<in>set (upper (index f)). short m \<Longrightarrow> \<forall>m\<in>set (seal_mappings f). loggable m \<and> m\<lparr>tag := 0\<rparr> = m"
proof -
  define q where "q = Segment_new 0 (as_u32 (div_ceil (virtual_size f) ALIGNMENT))"
  define g where "g m = (if zeroed m then m\<lparr>tag := 0, moffset := NO_PHYSICAL_OFFSET\<rparr> else m\<lparr>tag := 0\<rparr>)" for m :: SegmentMapping
  have n: "div_ceil (virtual_size f) 512 < 2 ^ 32" 
    using div_le_mono [of "virtual_size f" "2 ^ 41 - 513" 512] vs by (simp add: div_ceil_def)
  then have q: "segment_ok q" "in_segment q b \<longleftrightarrow> b < div_ceil (virtual_size f) 512" for b
    by (auto simp: q_def segment_ok_def in_segment_def ALIGNMENT_def as_u32_def)
  define ms where "ms = MutableIndex_lookup (upper (index f)) q"
  have sm: "seal_mappings f = map g ms" by (simp add: seal_mappings_def ms_def q_def g_def [abs_def])
  have mo: "index_ok ms" unfolding ms_def by (rule rw_ix.lookup_ok [OF ok q(1)])
  have g: "covers (g m) b = covers m b" "cell_at (g m) b = retag 0 (norm_cell (cell_at m b))" "segment (g m) = segment m"
    "mapping_ok m \<Longrightarrow> mapping_ok (g m)" for m b
    by (auto simp: g_def covers_def cell_at_def retag_def norm_cell_def has_physical_range_def mapping_ok_def)
  show "index_ok (seal_mappings f)"
    using mo unfolding sm by (auto simp: index_ok_def g sorted_wrt_map disjoint_before_def [abs_def])
  show "imap (seal_mappings f) b = (if b < div_ceil (virtual_size f) 512
      then map_option (\<lambda>c. retag 0 (norm_cell c)) (upper_map f b) else None)"
    using rw_ix.lookup_map [OF ok q(1), of b] q(2) [of b] imap_map_cell [of g _ ms b, OF g(1,2)]
    by (simp add: sm ms_def upper_map_def)
  show "\<forall>m\<in>set (seal_mappings f). loggable m \<and> m\<lparr>tag := 0\<rparr> = m" if sh: "\<forall>m\<in>set (upper (index f)). short m"
  proof
    fix m' assume "m' \<in> set (seal_mappings f)"
    then obtain m where m: "m \<in> set ms" "m' = g m" by (auto simp: sm)
    then have "mapping_ok m" "0 < m_length m" using mo by (auto simp: index_ok_def)
    moreover have "short m"
    proof -
      have "m \<in> set (lookup_ref (upper (index f)) q)" using m(1) MutableIndex_lookup_ref [OF ok q(1)] by (simp add: ms_def)
      then obtain m0 where "m0 \<in> set (upper (index f))" "meets q m0" "m = clip q m0" "0 < seg_length q"
        by (auto simp: lookup_ref_def split: if_splits)
      then show ?thesis using clip_props(1,2) [of m0 q] q(1) ok sh by (fastforce simp: index_ok_def short_def)
    qed
    ultimately show "loggable m' \<and> m'\<lparr>tag := 0\<rparr> = m'"
      using short_fits [of "g m"] g(3,4) [of m] m(2) by (auto simp: loggable_def short_def g_def mapping_ok_def)
  qed
qed

lemma contents_byte:
  assumes "contents d' = contents d @ bs" "i < vf_size d"
  shows "vf_byte d' i = vf_byte d i"
proof -
  have "vf_size d \<le> vf_size d'" using arg_cong [OF assms(1), of length] by simp
  then have "vf_byte d' i = contents d' ! i" "vf_byte d i = contents d ! i" using assms(2) by (simp_all add: contents_def)
  then show ?thesis using assms by (simp add: nth_append)
qed

lemma verify_ht_trailer:
  assumes ok: "vf_ok d" and c: "contents d = pre @ ht_bytes t @ replicate (4096 - HT_SIZE) 0"
    and t: "header_ok t" "verify_magic t" "is_trailer t" "is_data_file t" "is_sealed t"
  shows "verify_ht d True (vf_size d) = Inr t"
proof -
  have l: "length (ht_bytes t) = HT_SIZE" by (rule length_ht_bytes [OF t(1)])
  have sz: "vf_size d = length pre + 4096" using arg_cong [OF c, of length] l by (simp add: HT_SIZE_def)
  have "vf_bytes d (length pre) 4096 = ht_bytes t @ replicate (4096 - HT_SIZE) 0"
    using contents_slice [of "length pre" 4096 d] c l sz by (simp add: HT_SIZE_def)
  moreover have "length pre < 2 ^ 63" using ok sz by (simp add: vf_ok_def)
  ultimately show ?thesis
    using vf_read_at_into_eq [OF ok, of "length pre" "replicate HEADER_SIZE 0"] sz l t ht_roundtrip [OF t(1)]
    by (simp add: verify_ht_def HEADER_SIZE_def HT_SIZE_def)
qed

definition round_up :: "nat \<Rightarrow> nat" where
  "round_up n = div_ceil n 512 * 512"

lemma round_up_le: "n \<le> round_up n"
  using div_mult_mod_eq [of n 512] mod_less_divisor [of 512 n]
  by (cases "n mod 512 = 0") (simp_all add: round_up_def div_ceil_def algebra_simps)

lemma seal_layer:
  assumes w: "close_seal sha f = (Inr descr, f')" and inv: "file_inv f" and sh: "\<forall>m\<in>set (upper (index f)). short m"
    and dg: "digest_ok f" and h: "4096 \<le> vf_size (rw_data_file f)" "vf_bytes (rw_data_file f) 0 HT_SIZE = ht_bytes h"
      "header_for h lay vs" and vs: "virtual_size f < 2 ^ 41 - 512"
  shows "sealed_layer (rw_data_file f', seal_mappings f)"
    "layer_byte (rw_data_file f', seal_mappings f) i
      = (if i < round_up (virtual_size f) then layer_byte (rw_data_file f, upper (index f)) i else None)"
    "verify_ht (rw_data_file f') True (vf_size (rw_data_file f')) = Inr (seal_trailer (virtual_size f)
      (vf_size (rw_data_file f)) (length (seal_mappings f)) h)"
proof -
  let ?d = "rw_data_file f" and ?d' = "rw_data_file f'" and ?ms = "seal_mappings f"
  let ?t = "seal_trailer (virtual_size f) (vf_size ?d) (length ?ms) h"
  have ok: "vf_ok ?d" "index_ok (upper (index f))" and ho: "header_ok h" "verify_magic h"
    using inv h(3) by (auto simp: file_inv_def layers_def combo_ok_def header_for_def)
  note ap = close_seal_appends [OF w ok(1) dg h(1,2) ho(1)]
  note sm = seal_mappings_props [OF ok(2) vs]
  let ?raw = "mapping_bytes (map from_memory ?ms)"
  obtain r1 r2 where tail: "seal_tail f h = ?raw @ r1" "seal_tail f h = r2 @ ht_bytes ?t @ replicate (4096 - HT_SIZE) 0"
    by (simp add: seal_tail_def seal_index_bytes_def Let_def)
  have szd: "vf_size ?d' = vf_size ?d + length (seal_tail f h)" using arg_cong [OF ap(1), of length] by simp
  have lim: "vf_size ?d' < 2 ^ 63" using ap(2) by (auto simp: vf_ok_def)
  have "length ?ms < 2 ^ 63" using lim szd tail(1) by simp
  then have nn: "length ?ms < 2 ^ 64" "vf_size ?d < 2 ^ 64" "virtual_size f < 2 ^ 64" using lim szd vs by simp_all
  note tr = seal_trailer_ok [OF ho nn(3,2,1)]
  show vt: "verify_ht ?d' True (vf_size ?d') = Inr ?t"
    using verify_ht_trailer [OF ap(2) _ tr, of "contents ?d @ r2"] ap(1) tail(2) by simp
  have vh: "verify_ht ?d' False (vf_size ?d') = Inr h"
    using verify_ht_header [OF ap(2) _ _ h(3)] contents_prefix [OF ap(1), of HT_SIZE] h szd by (simp add: HT_SIZE_def)
  have "vf_bytes ?d' (vf_size ?d) (16 * length ?ms) = ?raw"
    using contents_slice [of "vf_size ?d" "16 * length ?ms" ?d'] ap(1) tail(1) szd by simp
  moreover have lg: "\<forall>m\<in>set ?ms. loggable m \<and> m\<lparr>tag := 0\<rparr> = m" by (rule sm(3) [OF sh])
  moreover have "map (\<lambda>m. m\<lparr>tag := 0\<rparr>) ?ms = ?ms" using lg by (intro map_idI) blast
  ultimately have li: "load_index_and_reset_tags ?d' (index_offset ?t) (index_size ?t) = Inr ?ms"
    using load_index_disk [OF ap(2), of ?ms "vf_size ?d"] szd tail(1)
    by (simp add: load_index_and_reset_tags_def seal_trailer_def header_setters)
  have cell: "cell_tag c = 0 \<and> (\<exists>c0. upper_map f b = Some c0 \<and> c = retag 0 (norm_cell c0))" if "imap ?ms b = Some c" for b c
    using that sm(2) [of b] by (auto simp: retag_def split: if_splits)
  have phys: "p * 512 + 512 \<le> vf_size ?d" if "upper_map f b = Some c" "cell_phys c = Some p" for b c p
    using inv that by (fastforce simp: file_inv_def upper_cell_ok_def data_end_def split: if_splits)
  have "readable [?d'] c" if im: "imap ?ms b = Some c" for b c
  proof -
    obtain c0 where c0: "upper_map f b = Some c0" "c = retag 0 (norm_cell c0)" using cell [OF im] by blast
    then have "upper_cell_ok f b c0" using inv by (simp add: file_inv_def)
    then show ?thesis using c0 phys [OF c0(1)] szd
      by (auto simp: readable_def retag_def norm_cell_def upper_cell_ok_def split: option.splits)
  qed
  then show "sealed_layer (?d', ?ms)" using ap(2) sm(1) vh vt li by (auto simp: sealed_layer_def)
  show "layer_byte (?d', ?ms) i = (if i < round_up (virtual_size f) then layer_byte (?d, upper (index f)) i else None)"
  proof (cases "upper_map f (i div 512)")
    case None
    then show ?thesis using sm(2) [of "i div 512"] by (simp add: layer_byte_def upper_map_def)
  next
    case (Some c)
    have "vf_byte ?d' (p * 512 + i mod 512) = vf_byte ?d (p * 512 + i mod 512)" if "cell_phys c = Some p" for p
    proof (rule contents_byte [OF ap(1)])
      have "i mod 512 < 512" by simp
      then show "p * 512 + i mod 512 < vf_size ?d" using phys [OF Some that] by linarith
    qed
    moreover have "i < round_up (virtual_size f) \<longleftrightarrow> i div 512 < div_ceil (virtual_size f) 512"
      by (simp add: round_up_def div_less_iff_less_mult)
    ultimately show ?thesis using Some sm(2) [of "i div 512"]
      by (auto simp: layer_byte_def upper_map_def retag_def norm_cell_def split: option.split)
  qed
qed

lemma pad_to_mod: "0 < a \<Longrightarrow> (n + pad_to a n) mod a = 0"
proof (cases "n mod a = 0")
  case False
  assume "0 < a"
  then have "n + (a - n mod a) = (n div a) * a + a"
    using div_mult_mod_eq [of n a] mod_less_divisor [of a n] by linarith
  then show ?thesis using False by (simp add: pad_to_def)
qed (simp add: pad_to_def)

lemma seal_write_fits:
  assumes "off + length bs \<le> vf_limit (rw_data_file f)" "off mod 512 = 0" "length bs mod 512 = 0"
  shows "\<exists>g. seal_write off bs f = (Inr (), g)"
  using on_data_write [OF assms] by (auto simp: seal_write_def)

lemma seal_write_limit: "seal_write off bs f = (Inr v, g) \<Longrightarrow> vf_limit (rw_data_file g) = vf_limit (rw_data_file f)"
  using seal_write_Inr(1) [of off bs f v g] by simp

lemma length_seal_index: "length (seal_index_bytes ms) mod 512 = 0"
  using pad_to_mod [of 512 "16 * length ms"] by (simp add: seal_index_bytes_def Let_def ALIGNMENT_def)

text \<open>Sealing succeeds when the data file has room for the index, the padding and the trailer.\<close>

lemma close_seal_live:
  assumes inv: "file_inv f" and us: "\<not> sealed f" "flush_group_commit (f\<lparr>sealed := True\<rparr>) = (Inr (), g)" "digest_ok f"
    and h: "4096 \<le> vf_size (rw_data_file f)" "vf_size (rw_data_file f) mod 512 = 0" "vf_bytes (rw_data_file f) 0 HT_SIZE = ht_bytes h" "header_ok h"
    and room: "vf_size (rw_data_file f) + length (seal_tail f h) \<le> vf_limit (rw_data_file f)"
  shows "\<exists>descr f'. close_seal sha f = (Inr descr, f')"
proof -
  let ?d = "rw_data_file f" and ?ib = "seal_index_bytes (seal_mappings f)"
  define e where "e = vf_size ?d + length ?ib"
  define p where "p = pad_to 4096 e"
  have dk: "vf_ok ?d" using inv by (simp add: file_inv_def layers_def)
  note fl = us(2)
  note g = index_frame_simps [OF flush_core [OF fl], simplified]
  have sm: "seal_mappings g = seal_mappings f" using g by (simp add: seal_mappings_def)
  have ht: "length (ht_bytes (seal_trailer (virtual_size f) (vf_size ?d) (length (seal_mappings f)) h)) = HT_SIZE"
    using h(4) by (simp add: ht_bytes_def seal_trailer_def header_ok_def header_setters HT_SIZE_def)
  have tot: "e + p + 4096 \<le> vf_limit ?d"
    using room ht by (simp add: seal_tail_def Let_def e_def [symmetric] p_def [symmetric] HT_SIZE_def) (simp add: e_def)
  have al: "e mod 512 = 0" "(e + p) mod 512 = 0"
    using h(2) length_seal_index [of "seal_mappings f"] pad_to_mod [of 4096 e] mod_mod_cancel [of 512 4096 "e + p"]
    by (auto simp: e_def p_def)
  obtain g1 where w1: "seal_write (vf_size (rw_data_file g)) ?ib g = (Inr (), g1)"
    using seal_write_fits [of "vf_size ?d" ?ib g] g tot h(2) length_seal_index by (auto simp: e_def)
  have gd: "digest_ok g" using us(3) g by (simp add: digest_ok_def)
  note s1 = seal_write_end [OF w1 _ gd, unfolded g, OF dk]
  have e1: "vf_size (rw_data_file g1) = e" "u64_add (vf_size ?d) (length ?ib) = e" "vf_limit (rw_data_file g1) = vf_limit ?d"
    using s1(1,2) seal_write_limit [OF w1] g by (auto simp: e_def vf_ok_def nowrap)
  have "p mod 512 = 0" using al dvd_add_right_iff [of 512 e p] by (simp add: mod_eq_0_iff_dvd)
  then obtain g2 where w2: "seal_write (vf_size (rw_data_file g1)) (replicate p 0) g1 = (Inr (), g2)"
    using seal_write_fits [of e "replicate p 0" g1] e1 tot al by auto
  note s2 = seal_write_end [OF w2 s1(1,4)]
  have c2: "contents (rw_data_file g2) = contents ?d @ ?ib @ replicate p 0" using s1(3) s2(3) by simp
  have sz2: "vf_size (rw_data_file g2) = e + p" "u64_add e p = e + p" "vf_limit (rw_data_file g2) = vf_limit ?d"
    using s2(1,2) e1 seal_write_limit [OF w2] by (auto simp: vf_ok_def nowrap)
  have "4096 \<le> vf_size (rw_data_file g2)" "vf_bytes (rw_data_file g2) 0 HT_SIZE = ht_bytes h"
    using h contents_prefix [OF c2, of HT_SIZE] sz2(1) by (auto simp: e_def HT_SIZE_def)
  from read_header_bytes [OF s2(1) this h(4)] obtain b where
    b: "vf_read_at (rw_data_file g2) 0 HEADER_SIZE = Inr b" "HT_SIZE \<le> length b" "ht_read_from_bytes (take HT_SIZE b) = Some h" by blast
  let ?t = "seal_trailer (virtual_size f) (vf_size ?d) (length (seal_mappings f)) h"
  obtain g3 where w3: "seal_write (e + p) (ht_bytes ?t @ drop (length (ht_bytes ?t)) (replicate 4096 0)) g2 = (Inr (), g3)"
    using seal_write_fits [of "e + p" _ g2] sz2(3) tot al(2) ht by (force simp: HT_SIZE_def)
  have "seal_finish sha (virtual_size f) (vf_size ?d) (length (seal_mappings f)) (e + p) g2
      = (Inr (map_option (descriptor sha) (append_digest g3)), g3)"
    using b w3 by (simp add: seal_finish_def Let_def)
  then have "close_seal sha f = (Inr (map_option (descriptor sha) (append_digest g3)), g3)"
    using us(1) fl w1 w2 e1 sz2 g sm
    by (cases "p = 0") (simp_all add: close_seal_def Let_def p_def [symmetric] seal_write_nil)
  then show ?thesis by blast
qed

lemma sealed_open:
  assumes "sealed_layer (d, ms)" "verify_ht d True (vf_size d) = Inr t"
  shows "LSMTReadOnlyFile_open U d = Inr \<lparr>ro_index = ReadOnlyIndex_new ms, ro_index_view = Some (ReadOnlyIndex_new ms),
      ro_layers = [d], ro_virtual_size = ht_virtual_size t, ro_max_io_size = MAX_IO_SIZE,
      ro_uuids = [case parse_uuid_field U (ht_uuid t) of None \<Rightarrow> uuid_nil | Some u \<Rightarrow> u], ro_file_type = ReadOnly\<rparr>"
  using assms by (auto simp: LSMTReadOnlyFile_open_def sealed_layer_def Let_def)

lemma sealed_readable: "sealed_layer (d, ms) \<Longrightarrow> imap ms b = Some c \<Longrightarrow> readable [d] c"
  by (simp add: sealed_layer_def)

lemma ro_single:
  assumes l: "sealed_layer (d, ms)" and r: "ro_index r = ReadOnlyIndex_new ms" "ro_layers r = [d]"
    "0 < ro_max_io_size r" "ro_max_io_size r mod 4096 = 0"
  shows "ro_inv r" "ro_device r i = (case layer_byte (d, ms) i of None \<Rightarrow> 0 | Some x \<Rightarrow> x)"
proof -
  have "readable [d] (norm_cell c)" if "imap ms b = Some c" for b c
    using sealed_readable [OF l that] by (auto simp: readable_def norm_cell_def)
  then show "ro_inv r"
    using l r ReadOnlyIndex_new_ok [of ms] by (auto simp: ro_inv_def sealed_layer_def ReadOnlyIndex_new_imap)
  show "ro_device r i = (case layer_byte (d, ms) i of None \<Rightarrow> 0 | Some x \<Rightarrow> x)"
  proof (cases "imap ms (i div 512)")
    case (Some c)
    have "cell_tag c = 0 \<or> cell_zeroed c" using sealed_readable [OF l Some] by (auto simp: readable_def split: option.splits)
    then show ?thesis using Some
      by (auto simp: ro_device_def map_byte_def r ReadOnlyIndex_new_imap layer_byte_def cell_byte_def norm_cell_def split: option.splits)
  qed (simp add: ro_device_def map_byte_def r ReadOnlyIndex_new_imap layer_byte_def cell_byte_def)
qed

text \<open>The device of a writable layer is its own layer over what the lower files show.\<close>

lemma device_layers:
  assumes inv: "file_inv f"
  shows "device f i = (case layer_byte (rw_data_file f, upper (index f)) i of Some x \<Rightarrow> x
    | None \<Rightarrow> map_byte (lower_files f) (lower_map f) i)"
proof (cases "upper_map f (i div 512)")
  case (Some c)
  then have "cell_tag c = length (lower_files f)" using inv by (auto simp: file_inv_def upper_cell_ok_def)
  then show ?thesis using Some combo_map_split [of f "i div 512"]
    by (auto simp: device_def map_byte_def layers_def layer_byte_def upper_map_def cell_byte_def over_def split: option.splits)
next
  case None
  have "cell_byte (layers f) (lower_map f (i div 512)) r = cell_byte (lower_files f) (lower_map f (i div 512)) r" for r
  proof (cases "lower_map f (i div 512)")
    case (Some c)
    then have "readable (lower_files f) c" using inv by (auto simp: file_inv_def)
    then show ?thesis using Some by (auto simp: cell_byte_def readable_def layers_def nth_append split: option.splits)
  qed (simp add: cell_byte_def)
  then show ?thesis using None combo_map_split [of f "i div 512"]
    by (simp add: device_def map_byte_def layer_byte_def upper_map_def over_def)
qed

text \<open>
  C5. Opening a list of sealed layers, oldest first, gives a read-only device that shows at every byte the
  newest layer that maps its block, zeros where no layer does; a zeroed block of a newer layer hides the
  older ones. Aligned reads return exactly these bytes, cut at the virtual size.
\<close>

theorem open_files_ro_topmost:
  assumes "ls \<noteq> []" "length ls \<le> 255" "\<forall>l\<in>set ls. sealed_layer l"
  shows "\<exists>r. open_files_ro U (map fst ls) = Inr r \<and> ro_inv r \<and> ro_device r = stack_byte (rev ls)
    \<and> (\<forall>off dst. off mod 512 = 0 \<and> length dst mod 512 = 0 \<and> length dst < 2 ^ 40 \<and> ro_virtual_size r < 2 ^ 63 \<longrightarrow>
         ro_read_at_into r off dst = (let n = min (length dst) (ro_virtual_size r - off)
           in (Inr n, map (stack_byte (rev ls)) [off..<off + n] @ drop n dst)))"
proof -
  obtain r where r: "open_files_ro U (map fst ls) = Inr r" by (rule open_files_ro_parts [OF assms, of U]) blast
  note v = open_files_ro_view [OF assms r]
  show ?thesis using r v ro_read_at_into_device [OF v(1)] by (intro exI [of _ r]) (simp add: Let_def)
qed

text \<open>
  C4. Sealing a writable layer and opening the sealed file gives back what was written. After any sequence of
  writes and discards on a new log-structured or hybrid layer of less than 2 TiB, a successful seal always
  reopens read-only with the layer's size and UUID, every byte of the device reads as the sequence leaves it,
  and the descriptor, when there is one, is the SHA-256 and the size of the whole sealed file.
\<close>

theorem LSMTFile_seal_reopen:
  assumes U: "uuid_crate_ok U" "length u = 16" "vs < 2 ^ 41 - 512" "\<forall>p. parent = Some p \<longrightarrow> length p = 16"
    and lay: "lay \<noteq> Sparse" and fresh: "vf_ok data" "vf_size data = 0" "vf_ok idx" "vf_size idx = 0"
    and c: "create_with_metadata U vs lay u parent utag (data, Some idx) = (Inr f, fs)"
    and gc: "set_index_group_commit gc f = (Inr (), f0)"
    and ops: "\<forall>v\<in>set ops. case vop_range v of (off, n) \<Rightarrow> n < 2 ^ 40 \<and> off + n < 2 ^ 59"
    and run: "run_vops write_internal discard_range ops f0 = (Inr (), f1)"
    and seal: "close_seal sha f1 = (Inr descr, f2)"
  shows "\<exists>r. close_seal_and_reopen U sha f1 = (Inr (r, descr), f2) \<and> ro_inv r \<and> ro_virtual_size r = vs
    \<and> ro_get_uuid r 0 = Inr u \<and> (\<forall>i<vs. ro_device r i = fold vop_apply ops (\<lambda>_. 0) i)
    \<and> (\<forall>d. descr = Some d \<longrightarrow> ld_digest d = ''sha256:'' @ hex_lower (sha (contents (rw_data_file f2)))
         \<and> ld_size d = vf_size (rw_data_file f2))"
proof -
  let ?h = "rw_header U vs lay u parent utag" and ?d = "rw_data_file f2"
  have vs64: "vs < 2 ^ 64" using U(3) by simp
  note cr = create_durable [OF U(1,2) vs64 U(4) lay fresh c] and g0 = group_commit_durable [OF U(1,2) vs64 U(4) lay fresh c gc]
  obtain L where r: "file_inv f1" "durable f1 ?h L" "same_shape f0 f1" "device f1 = fold vop_apply ops (\<lambda>_. 0)"
    using run_durable [OF g0(1,3,2,4) ops run] g0(5) by auto
  have t: "4096 \<le> vf_size (rw_data_file f1)" "vf_bytes (rw_data_file f1) 0 HT_SIZE = ht_bytes ?h" "digest_ok f1"
    "\<forall>m\<in>set (upper (index f1)). short m" using r(2) by (auto simp: durable_def data_tidy_def upper_log_def)
  have sh: "virtual_size f1 = vs" "lower_files f1 = []" "lower (index f1) = None" "max_io_size f1 = MAX_IO_SIZE"
    using r(3) cr(5-8) g0(6) by (simp_all add: same_shape_def)
  have vs': "virtual_size f1 < 2 ^ 41 - 512" using U(3) sh(1) by simp
  note sl = seal_layer [OF seal r(1) t(4,3,1,2) cr(9) vs']
  have ok: "vf_ok (rw_data_file f1)" "header_ok ?h" using r(1) cr(9) by (auto simp: file_inv_def layers_def header_for_def)
  note ap = close_seal_appends [OF seal ok(1) t(3,1,2) ok(2)]
  note o = sealed_open [OF sl(1,3), of U]
  define r0 where "r0 = projr (LSMTReadOnlyFile_open U ?d)"
  have r0: "LSMTReadOnlyFile_open U ?d = Inr r0" using o by (simp add: r0_def)
  have uu: "parse_uuid_field U (ht_uuid (seal_trailer v a n ?h)) = Some u" for v a n
    using rw_header_uuid [OF U(1,2)] by (simp add: seal_trailer_def header_setters)
  have f0: "ro_index r0 = ReadOnlyIndex_new (seal_mappings f1)" "ro_layers r0 = [?d]" "ro_virtual_size r0 = vs" "ro_uuids r0 = [u]"
    "ro_max_io_size r0 = MAX_IO_SIZE"
    using o uu sh(1) by (simp_all add: r0_def, simp add: seal_trailer_def header_setters)
  have mio: "max_io_size f2 = MAX_IO_SIZE" using ap(4) sh(4) by simp
  define r1 where "r1 = r0\<lparr>ro_max_io_size := MAX_IO_SIZE\<rparr>"
  have "close_seal_and_reopen U sha f1 = (Inr (r1, descr), f2)"
    using seal r0 mio by (simp add: close_seal_and_reopen_def ro_set_max_io_size_def r1_def MAX_IO_SIZE_def ALIGNMENT_4K_def)
  moreover have "ro_get_uuid r1 0 = Inr u" "ro_virtual_size r1 = vs" using f0 by (simp_all add: r1_def ro_get_uuid_def)
  moreover have s: "ro_inv r1" "ro_device r1 i = (case layer_byte (?d, seal_mappings f1) i of None \<Rightarrow> 0 | Some x \<Rightarrow> x)" for i
    using ro_single [OF sl(1), of r1] f0 by (simp_all add: r1_def MAX_IO_SIZE_def)
  moreover have "ro_device r1 i = fold vop_apply ops (\<lambda>_. 0) i" if "i < vs" for i
  proof -
    have "i < round_up (virtual_size f1)" using round_up_le [of vs] that sh(1) by simp
    then have "ro_device r1 i = (case layer_byte (rw_data_file f1, upper (index f1)) i of None \<Rightarrow> 0 | Some x \<Rightarrow> x)"
      using s(2) sl(2) [of i] by simp
    also have "\<dots> = device f1 i"
      using device_layers [OF r(1), of i] sh by (simp add: lower_map_def map_byte_def cell_byte_def split: option.split)
    finally show ?thesis using r(4) by simp
  qed
  ultimately show ?thesis using ap(5) by blast
qed



subsubsection \<open>Witnesses\<close>

lemma index_length:
  assumes "index_ok ms" "\<forall>m\<in>set ms. a \<le> m_offset m \<and> m_offset m + m_length m \<le> b"
  shows "length ms \<le> b - a"
  using assms
proof (induction ms arbitrary: a)
  case (Cons m ms)
  have "index_ok ms" "\<forall>x\<in>set ms. m_offset m + m_length m \<le> m_offset x \<and> m_offset x + m_length x \<le> b"
    "0 < m_length m" "a \<le> m_offset m" "m_offset m + m_length m \<le> b"
    using Cons.prems by (auto simp: index_ok_def disjoint_before_def)
  then show ?case using Cons.IH [of "m_offset m + m_length m"] by auto
qed simp

lemma length_seal_mappings:
  assumes "index_ok (upper (index f))" "virtual_size f < 2 ^ 41 - 512"
  shows "length (seal_mappings f) \<le> div_ceil (virtual_size f) 512"
proof -
  define q where "q = Segment_new 0 (as_u32 (div_ceil (virtual_size f) ALIGNMENT))"
  have n: "div_ceil (virtual_size f) 512 < 2 ^ 32"
    using div_le_mono [of "virtual_size f" "2 ^ 41 - 513" 512] assms(2) by (simp add: div_ceil_def)
  then have q: "segment_ok q" "seg_offset q = 0" "seg_length q = div_ceil (virtual_size f) 512"
    by (auto simp: q_def segment_ok_def ALIGNMENT_def as_u32_def)
  have "length (MutableIndex_lookup (upper (index f)) q) \<le> div_ceil (virtual_size f) 512 - 0"
    using rw_ix.lookup_ok [OF assms(1) q(1)] rw_ix.lookup_bounds [OF assms(1) q(1)] q(2,3) by (intro index_length) auto
  then show ?thesis by (simp add: seal_mappings_def q_def)
qed

lemma length_seal_tail:
  assumes "index_ok (upper (index f))" "virtual_size f < 2 ^ 41 - 512" "header_ok h"
  shows "length (seal_tail f h) \<le> 16 * div_ceil (virtual_size f) 512 + 8704"
proof -
  let ?t = "seal_trailer (virtual_size f) (vf_size (rw_data_file f)) (length (seal_mappings f)) h"
  have "length (ht_bytes ?t) = HT_SIZE"
    using assms(3) by (simp add: ht_bytes_def seal_trailer_def header_ok_def header_setters HT_SIZE_def)
  moreover have p: "pad_to a n \<le> a" for a n by (simp add: pad_to_def)
  note p [of 512 "16 * length (seal_mappings f)"]
    p [of 4096 "vf_size (rw_data_file f) + length (seal_index_bytes (seal_mappings f))"]
  ultimately show ?thesis using length_seal_mappings [OF assms(1,2)]
    by (simp add: seal_tail_def Let_def seal_index_bytes_def ALIGNMENT_def HT_SIZE_def)
qed

text \<open>The sample layer, written and sealed.\<close>

lemma sample_sealed:
  assumes lay: "lay \<noteq> Sparse"
  obtains f fs f1 descr f2 where "sample_created lay 1048576 = (Inr f, fs)"
    "set_index_group_commit 64 f = (Inr (), f\<lparr>group_commit_size := 64\<rparr>)"
    "run_vops write_internal discard_range [VWrite 512 (replicate 512 7)] (f\<lparr>group_commit_size := 64\<rparr>) = (Inr (), f1)"
    "close_seal sha f1 = (Inr descr, f2)" "sealed_layer (rw_data_file f2, seal_mappings f1)"
proof -
  let ?h = "sample_header lay"
  have lim: "(1048576 :: nat) < 2 ^ 63" by simp
  obtain f fs f1 where f: "sample_created lay 1048576 = (Inr f, fs)"
    "set_index_group_commit 64 f = (Inr (), f\<lparr>group_commit_size := 64\<rparr>)"
    "run_vops write_internal discard_range [VWrite 512 (replicate 512 7)] (f\<lparr>group_commit_size := 64\<rparr>) = (Inr (), f1)"
    "write_room f1 1024 (100 * 512)" "file_inv f1" "same_shape f f1" "vf_limit (rw_data_file f1) = 1048576"
    by (rule sample_written [OF lay _ lim, of 100]) auto
  have c: "create_with_metadata uuid_hex 1048576 lay (replicate 16 7) None None (sample_small 1048576, Some (sample_vfile 0)) = (Inr f, fs)"
    using f(1) by (simp add: sample_created_def)
  note cr = create_durable [OF uuid_hex_ok sample_inputs lay sample_small_files(1) [OF lim] sample_small_files(2-4) c, folded sample_header_def]
  note g0 = group_commit_durable [OF uuid_hex_ok sample_inputs lay sample_small_files(1) [OF lim] sample_small_files(2-4) c f(2), folded sample_header_def]
  have ops: "\<forall>v\<in>set [VWrite 512 (replicate 512 7)]. case vop_range v of (off, n) \<Rightarrow> n < 2 ^ 40 \<and> off + n < 2 ^ 59" by simp
  obtain L where D: "durable f1 ?h L" using run_durable [OF g0(1,3,2,4) ops f(3)] by blast
  have sh: "virtual_size f1 = 1048576" "\<not> sealed f1" "file_type f1 \<noteq> SparseReadWrite"
    using f(6) cr(4,5,10) lay by (cases lay; simp add: same_shape_def)+
  have t: "4096 \<le> vf_size (rw_data_file f1)" "vf_size (rw_data_file f1) mod 512 = 0" "vf_bytes (rw_data_file f1) 0 HT_SIZE = ht_bytes ?h"
    "digest_ok f1" "\<forall>m\<in>set (upper (index f1)). short m"
    using D f(5) sh(3) by (auto simp: durable_def data_tidy_def upper_log_def file_inv_def)
  have vs: "virtual_size f1 < 2 ^ 41 - 512" using sh(1) by simp
  have ix: "index_ok (upper (index f1))" using f(5) by (auto simp: file_inv_def combo_ok_def)
  have "div_ceil (virtual_size f1) 512 = 2048" by (simp add: sh(1) div_ceil_def)
  then have "length (seal_tail f1 ?h) \<le> 41472" using length_seal_tail [OF ix vs sample_header_ok [of lay]] by simp
  moreover have "vf_size (rw_data_file f1) + 51200 \<le> 1048576"
    using f(4,7) D sh(3) by (simp add: write_room_def durable_def data_tidy_def)
  ultimately have room: "vf_size (rw_data_file f1) + length (seal_tail f1 ?h) \<le> vf_limit (rw_data_file f1)" using f(7) by linarith
  have "index_room (f1\<lparr>sealed := True\<rparr>) 100"
    using f(4) by (cases "rw_index_file f1") (simp_all add: write_room_def index_room_def)
  then obtain g where ir: "flush_group_commit (f1\<lparr>sealed := True\<rparr>) = (Inr (), g)" using flush_room by blast
  obtain descr f2 where c2: "close_seal sha f1 = (Inr descr, f2)"
    using close_seal_live [OF f(5) sh(2) ir t(4,1,2,3) sample_header_ok room] by blast
  show ?thesis by (rule that [OF f(1-3) c2 seal_layer(1) [OF c2 f(5) t(5,4,1,3) cr(9) vs]])
qed

theorem open_files_ro_topmost_witness:
  "\<exists>l r. open_files_ro uuid_hex (map fst [l, l]) = Inr r \<and> ro_device r = stack_byte (rev [l, l])"
proof -
  obtain l where "sealed_layer l" using sample_sealed [of LogStructured] by (metis RwLayout.distinct(1))
  then have h: "[l, l] \<noteq> []" "length [l, l] \<le> 255" "\<forall>x\<in>set [l, l]. sealed_layer x" by simp_all
  from open_files_ro_topmost [OF h, of uuid_hex] show ?thesis by blast
qed

theorem LSMTFile_seal_reopen_witness:
  "\<exists>f1 f2 r descr. close_seal_and_reopen uuid_hex (\<lambda>b. b) f1 = (Inr (r, descr), f2) \<and> ro_virtual_size r = 1048576
    \<and> (\<forall>i<1048576. ro_device r i = fold vop_apply [VWrite 512 (replicate 512 7)] (\<lambda>_. 0) i)"
proof -
  have h: "LogStructured \<noteq> Sparse" "(1048576 :: nat) < 2 ^ 63" "(1048576 :: nat) < 2 ^ 41 - 512" by simp_all
  obtain f fs f1 descr f2 where f: "sample_created LogStructured 1048576 = (Inr f, fs)"
    "set_index_group_commit 64 f = (Inr (), f\<lparr>group_commit_size := 64\<rparr>)"
    "run_vops write_internal discard_range [VWrite 512 (replicate 512 7)] (f\<lparr>group_commit_size := 64\<rparr>) = (Inr (), f1)"
    "close_seal (\<lambda>b. b) f1 = (Inr descr, f2)" by (rule sample_sealed [OF h(1), of "\<lambda>b. b"]) auto
  have ops: "\<forall>v\<in>set [VWrite 512 (replicate 512 7)]. case vop_range v of (off, n) \<Rightarrow> n < 2 ^ 40 \<and> off + n < 2 ^ 59" by simp
  from LSMTFile_seal_reopen [OF uuid_hex_ok sample_inputs(1) h(3) sample_inputs(3) h(1) sample_small_files(1) [OF h(2)]
      sample_small_files(2-4) f(1) [unfolded sample_created_def] f(2) ops f(3,4)]
  show ?thesis by blast
qed

text \<open>A new writable layer on the sealed sample.\<close>

lemma sample_low:
  obtains l low where "sealed_layer l" "open_files_ro uuid_hex (map fst [l]) = Inr low" "ro_inv low"
    "ro_index_view low = Some (ro_index low)" "length (ro_layers low) = 1"
proof -
  obtain l where l: "sealed_layer l" using sample_sealed [of LogStructured] by (metis RwLayout.distinct(1))
  then have h: "[l] \<noteq> []" "length [l] \<le> 255" "\<forall>x\<in>set [l]. sealed_layer x" by simp_all
  obtain md where low: "open_files_ro uuid_hex (map fst [l]) = Inr (from_merged_layers (rev (map fst [l]))
      (ReadOnlyIndex_merge (rev (map (ReadOnlyIndex_new \<circ> snd) [l]))) (stack_virtual_size (map md [l])) (rev (map (md_uuid \<circ> md) [l])) ReadOnly)"
    using open_files_ro_parts [OF h, of uuid_hex] by metis
  show ?thesis by (rule that [OF l low open_files_ro_view(1) [OF h low]]) (simp_all add: from_merged_layers_def)
qed

lemma sample_upper:
  obtains f where "file_inv f" "durable f (sample_header LogStructured) []" "group_commit_buf f = []"
    "header_for (sample_header LogStructured) LogStructured 1048576" "file_type f = RwLayout_file_type LogStructured"
    "\<not> looks_sealed (rw_data_file f)" "vf_limit (rw_data_file f) = 1048576" "vf_size (rw_data_file f) = 4096"
proof -
  have h: "LogStructured \<noteq> Sparse" "(1048576 :: nat) < 2 ^ 63" by simp_all
  obtain f fs where f: "sample_created LogStructured 1048576 = (Inr f, fs)" "vf_limit (rw_data_file f) = 1048576"
    by (rule sample_created_file [of LogStructured 0 1048576]) simp_all
  note c = create_durable [OF uuid_hex_ok sample_inputs h(1) sample_small_files(1) [OF h(2)] sample_small_files(2-4)
    f(1) [unfolded sample_created_def], folded sample_header_def]
  have sz: "vf_size (rw_data_file f) = 4096"
    using f(1) unfolding sample_created_def sample_small_def
    by (auto simp: create_with_metadata_def Let_def sample_header_def [symmetric] split: prod.splits sum.splits if_splits)
      (use write_header_block_Inr(3) [of "sample_header LogStructured" "sample_small 1048576"] sample_header_ok in
        \<open>auto simp: sample_small_def sample_vfile_def vf_ok_def\<close>)
  then have "\<not> looks_sealed (rw_data_file f)" by (simp add: looks_sealed_def HEADER_SIZE_def)
  then show ?thesis using that [OF c(1,2,3,9,4)] f(2) sz by blast
qed



end
