(* ===== verification/Id_Allocator.thy ===== *)
theory Id_Allocator
  imports Prelude
begin

text \<open>
  The reloadable id allocator of \<^verbatim>\<open>storage/util/src/id_allocator.rs\<close>. Its mutex makes every call one
  step of the inner state, so a trace of calls is a sequence of operations. The lemmas relate the queue and
  lookup set of free ids to the set of occupied ids, which is all that a client can see.
\<close>

section \<open>The allocator\<close>

record ReloadableIDAllocator =
  next_id :: nat
  free_ids_lookup :: "nat set"
  free_ids :: "nat list"

definition insert_known_free_id :: "nat \<Rightarrow> ReloadableIDAllocator \<Rightarrow> ReloadableIDAllocator" where
  "insert_known_free_id i a =
     (if i \<in> free_ids_lookup a then a
      else a\<lparr>free_ids_lookup := insert i (free_ids_lookup a), free_ids := free_ids a @ [i]\<rparr>)"

definition insert_free_id :: "nat \<Rightarrow> ReloadableIDAllocator \<Rightarrow> ReloadableIDAllocator" where
  "insert_free_id i a = (if i \<ge> next_id a then a else insert_known_free_id i a)"

definition pop_free_id :: "ReloadableIDAllocator \<Rightarrow> nat option \<times> ReloadableIDAllocator" where
  "pop_free_id a =
     (case free_ids a of
        i # ids \<Rightarrow> (Some i, a\<lparr>free_ids := ids, free_ids_lookup := free_ids_lookup a - {i}\<rparr>)
      | [] \<Rightarrow> (None, a))"

text \<open>Removing the first position that holds \<open>i\<close>.\<close>

definition remove_free_id :: "nat \<Rightarrow> ReloadableIDAllocator \<Rightarrow> bool \<times> ReloadableIDAllocator" where
  "remove_free_id i a =
     (if i \<notin> free_ids_lookup a then (False, a)
      else (True, a\<lparr>free_ids_lookup := free_ids_lookup a - {i}, free_ids := remove1 i (free_ids a)\<rparr>))"

definition ReloadableIDAllocator_new :: "nat \<Rightarrow> ReloadableIDAllocator" where
  "ReloadableIDAllocator_new initial_idx = \<lparr>next_id = initial_idx, free_ids_lookup = {}, free_ids = []\<rparr>"

definition occupy_idx :: "nat \<Rightarrow> ReloadableIDAllocator \<Rightarrow> (unit, ReloadableIDAllocator) outcome" where
  "occupy_idx i a =
     (if \<not> i \<le> 100000 then (Inl Panic, a)
      else case remove_free_id i a of
             (True, a) \<Rightarrow> (Inr (), a)
           | (False, a) \<Rightarrow>
               let a = fold insert_known_free_id [next_id a..<i] a
               in (Inr (), if next_id a \<le> i then a\<lparr>next_id := u32_add i 1\<rparr> else a))"

definition allocate :: "ReloadableIDAllocator \<Rightarrow> nat \<times> ReloadableIDAllocator" where
  "allocate a =
     (case pop_free_id a of
        (Some val, a) \<Rightarrow> (val, a)
      | (None, a) \<Rightarrow> (next_id a, a\<lparr>next_id := u32_add (next_id a) 1\<rparr>))"

definition recycle :: "nat \<Rightarrow> ReloadableIDAllocator \<Rightarrow> ReloadableIDAllocator" where
  "recycle i a = insert_free_id i a"

definition is_free :: "ReloadableIDAllocator \<Rightarrow> nat \<Rightarrow> bool" where
  "is_free a i = (if i \<in> free_ids_lookup a then True else i \<ge> next_id a)"

definition is_occupied :: "ReloadableIDAllocator \<Rightarrow> nat \<Rightarrow> bool" where
  "is_occupied a i = (\<not> is_free a i)"

section \<open>The set of occupied ids\<close>

text \<open>
  The queue and the lookup set hold the same ids, each once, all below the next fresh id. What clients
  see is the set of occupied ids.
\<close>

definition alloc_inv :: "ReloadableIDAllocator \<Rightarrow> bool" where
  "alloc_inv a \<longleftrightarrow> distinct (free_ids a) \<and> set (free_ids a) = free_ids_lookup a \<and> (\<forall>i\<in>free_ids_lookup a. i < next_id a)"

definition occupied :: "ReloadableIDAllocator \<Rightarrow> nat set" where
  "occupied a = {i. i < next_id a} - free_ids_lookup a"

lemma is_occupied_iff: "is_occupied a i \<longleftrightarrow> i \<in> occupied a"
  by (auto simp: is_occupied_def is_free_def occupied_def)

lemma occupied_finite: "finite (occupied a)"
  by (simp add: occupied_def)

lemma new_inv: "alloc_inv (ReloadableIDAllocator_new n)" "occupied (ReloadableIDAllocator_new n) = {i. i < n}"
  by (auto simp: alloc_inv_def ReloadableIDAllocator_new_def occupied_def)

lemma insert_known_inv:
  assumes "alloc_inv a" "i < next_id a"
  shows "alloc_inv (insert_known_free_id i a)" "next_id (insert_known_free_id i a) = next_id a"
    "occupied (insert_known_free_id i a) = occupied a - {i}"
  using assms by (auto simp: alloc_inv_def insert_known_free_id_def occupied_def)

lemma recycle_inv:
  assumes "alloc_inv a"
  shows "alloc_inv (recycle i a)" "occupied (recycle i a) = occupied a - {i}" "next_id (recycle i a) = next_id a"
  using insert_known_inv [OF assms, of i] assms
  by (auto simp: recycle_def insert_free_id_def alloc_inv_def occupied_def)

lemma allocate_inv:
  assumes "alloc_inv a" "next_id a < 2 ^ 32 - 1" "allocate a = (i, a')"
  shows "alloc_inv a'" "i \<notin> occupied a" "occupied a' = insert i (occupied a)" "next_id a' \<le> Suc (next_id a)" "i < next_id a'"
proof -
  have "alloc_inv a' \<and> i \<notin> occupied a \<and> occupied a' = insert i (occupied a) \<and> next_id a' \<le> Suc (next_id a) \<and> i < next_id a'"
  proof (cases "free_ids a")
    case Nil
    then have "i = next_id a" "a' = a\<lparr>next_id := Suc (next_id a)\<rparr>"
      using assms(2,3) by (auto simp: allocate_def pop_free_id_def nowrap)
    then show ?thesis using assms(1) Nil by (auto simp: alloc_inv_def occupied_def)
  next
    case (Cons j js)
    then have "i = j" "a' = a\<lparr>free_ids := js, free_ids_lookup := free_ids_lookup a - {j}\<rparr>"
      using assms(3) by (auto simp: allocate_def pop_free_id_def)
    then show ?thesis using assms(1) Cons by (auto simp: alloc_inv_def occupied_def)
  qed
  then show "alloc_inv a'" "i \<notin> occupied a" "occupied a' = insert i (occupied a)" "next_id a' \<le> Suc (next_id a)" "i < next_id a'"
    by blast+
qed

text \<open>The gap below a newly occupied id becomes free.\<close>

definition gap_inv :: "nat \<Rightarrow> ReloadableIDAllocator \<Rightarrow> bool" where
  "gap_inv n a \<longleftrightarrow> distinct (free_ids a) \<and> set (free_ids a) = free_ids_lookup a \<and> (\<forall>i\<in>free_ids_lookup a. i < n)"

lemma insert_gap:
  "gap_inv n a \<Longrightarrow> next_id a \<le> n \<Longrightarrow> gap_inv (n + k) (fold insert_known_free_id [n..<n + k] a)
    \<and> next_id (fold insert_known_free_id [n..<n + k] a) = next_id a
    \<and> free_ids_lookup (fold insert_known_free_id [n..<n + k] a) = free_ids_lookup a \<union> {n..<n + k}"
proof (induction k)
  case (Suc k)
  then show ?case by (auto simp: gap_inv_def insert_known_free_id_def)
qed (simp add: gap_inv_def)

lemma occupy_inv:
  assumes a: "alloc_inv a" and w: "occupy_idx i a = (Inr v, a')"
  shows "alloc_inv a'" "occupied a' = insert i (occupied a)" "next_id a' = max (next_id a) (Suc i)"
proof -
  have i: "i \<le> 100000" using w by (auto simp: occupy_idx_def split: if_splits)
  have "alloc_inv a' \<and> occupied a' = insert i (occupied a) \<and> next_id a' = max (next_id a) (Suc i)"
  proof (cases "i \<in> free_ids_lookup a")
    case True
    then have "a' = a\<lparr>free_ids_lookup := free_ids_lookup a - {i}, free_ids := remove1 i (free_ids a)\<rparr>"
      using w i by (simp add: occupy_idx_def remove_free_id_def)
    moreover have "i < next_id a" using a True by (auto simp: alloc_inv_def)
    ultimately show ?thesis using a True by (auto simp: alloc_inv_def occupied_def)
  next
    case False
    let ?b = "fold insert_known_free_id [next_id a..<i] a"
    have a': "a' = (if next_id ?b \<le> i then ?b\<lparr>next_id := Suc i\<rparr> else ?b)"
      using w i False by (auto simp: occupy_idx_def remove_free_id_def Let_def u32_add_def)
    show ?thesis
    proof (cases "next_id a \<le> i")
      case True
      have g: "gap_inv (next_id a) a" using a by (simp add: gap_inv_def alloc_inv_def)
      from insert_gap [OF g order_refl, of "i - next_id a"] True
      show ?thesis using a' False a by (auto simp: alloc_inv_def gap_inv_def occupied_def)
    next
      case below: False
      then have "a' = a" using a' by simp
      then show ?thesis using below False a by (auto simp: occupied_def)
    qed
  qed
  then show "alloc_inv a'" "occupied a' = insert i (occupied a)" "next_id a' = max (next_id a) (Suc i)" by auto
qed

section \<open>Traces against the set of occupied ids\<close>

text \<open>
  A client sees calls and their answers. The specification keeps only the set of occupied ids: an
  allocation answers an id outside it, \<open>occupy_idx\<close> adds its id unless it panics, \<open>recycle\<close> removes
  its id, and a query answers membership.
\<close>

datatype alloc_op = Occupy nat | Allocate | Recycle nat | QueryFree nat

datatype alloc_event = Occupied nat | OccupyPanicked nat | Allocated nat | Recycled nat | Answered nat bool

definition alloc_step :: "alloc_op \<Rightarrow> ReloadableIDAllocator \<Rightarrow> alloc_event \<times> ReloadableIDAllocator" where
  "alloc_step op a =
     (case op of
        Occupy i \<Rightarrow> (case occupy_idx i a of (Inr _, a) \<Rightarrow> (Occupied i, a) | (Inl _, a) \<Rightarrow> (OccupyPanicked i, a))
      | Allocate \<Rightarrow> (case allocate a of (i, a) \<Rightarrow> (Allocated i, a))
      | Recycle i \<Rightarrow> (Recycled i, recycle i a)
      | QueryFree i \<Rightarrow> (Answered i (is_free a i), a))"

fun alloc_run :: "alloc_op list \<Rightarrow> ReloadableIDAllocator \<Rightarrow> alloc_event list \<times> ReloadableIDAllocator" where
  "alloc_run [] a = ([], a)"
| "alloc_run (op # ops) a =
     (let (e, a) = alloc_step op a; (es, a) = alloc_run ops a in (e # es, a))"

fun id_spec :: "alloc_event list \<Rightarrow> nat set \<Rightarrow> nat set option" where
  "id_spec [] S = Some S"
| "id_spec (Occupied i # es) S = (if i \<le> 100000 then id_spec es (insert i S) else None)"
| "id_spec (OccupyPanicked i # es) S = (if 100000 < i then id_spec es S else None)"
| "id_spec (Allocated i # es) S = (if i \<notin> S then id_spec es (insert i S) else None)"
| "id_spec (Recycled i # es) S = id_spec es (S - {i})"
| "id_spec (Answered i b # es) S = (if b = (i \<notin> S) then id_spec es S else None)"

lemma alloc_step_simulates:
  assumes a: "alloc_inv a" and n: "next_id a < 2 ^ 32 - 1" and s: "alloc_step op a = (e, a')"
  shows "alloc_inv a' \<and> next_id a' \<le> max (Suc (next_id a)) 100001 \<and> id_spec (e # es) (occupied a) = id_spec es (occupied a')"
proof (cases op)
  case (Occupy i)
  show ?thesis
  proof (cases "i \<le> 100000")
    case True
    then obtain v where o: "occupy_idx i a = (Inr v, a')" and e: "e = Occupied i"
      using s Occupy by (auto simp: alloc_step_def occupy_idx_def Let_def split: prod.splits bool.splits)
    show ?thesis using occupy_inv [OF a o] True e by (simp add: max_def)
  next
    case False
    then show ?thesis using s Occupy a by (simp add: alloc_step_def occupy_idx_def) auto
  qed
next
  case Allocate
  then obtain i where o: "allocate a = (i, a')" and e: "e = Allocated i"
    using s by (auto simp: alloc_step_def split: prod.splits)
  note post = allocate_inv [OF a n o]
  have "next_id a' \<le> max (Suc (next_id a)) 100001" using post(4) by (rule max.coboundedI1)
  moreover have "id_spec (e # es) (occupied a) = id_spec es (occupied a')" using post(2) unfolding e post(3) by simp
  ultimately show ?thesis using post(1) by blast
next
  case (Recycle i)
  then have "e = Recycled i" "a' = recycle i a" using s by (simp_all add: alloc_step_def)
  then show ?thesis using recycle_inv [OF a, of i] by (simp add: max.coboundedI1)
next
  case (QueryFree i)
  then have "e = Answered i (is_free a i)" "a' = a" using s by (auto simp: alloc_step_def)
  then show ?thesis using a is_occupied_iff [of a i] by (auto simp: is_occupied_def intro: max.coboundedI1)
qed

lemma alloc_run_simulates:
  assumes "alloc_inv a" "max (next_id a) 100001 + length ops < 2 ^ 32" "alloc_run ops a = (es, a')"
  shows "alloc_inv a' \<and> id_spec es (occupied a) = Some (occupied a')"
  using assms
proof (induction ops arbitrary: a es)
  case (Cons op ops)
  obtain e b where s: "alloc_step op a = (e, b)" by (cases "alloc_step op a")
  obtain fs c where r: "alloc_run ops b = (fs, c)" by (cases "alloc_run ops b")
  have es: "es = e # fs" "a' = c" using Cons.prems(3) s r by auto
  have n: "next_id a < 2 ^ 32 - 1" using Cons.prems(2) by auto
  note st = alloc_step_simulates [OF Cons.prems(1) n s, of fs]
  have "max (next_id b) 100001 + length ops < 2 ^ 32" using st Cons.prems(2) by (auto simp: max_def split: if_splits)
  then show ?case using Cons.IH [of b fs] st r es by auto
qed simp


definition sample_calls :: "alloc_op list" where
  "sample_calls = [Allocate, Occupy 3, Allocate, Recycle 0, Allocate, Allocate, Allocate, QueryFree 3, Occupy 100001]"

definition sample_answers :: "alloc_event list" where
  "sample_answers =
     [Allocated 0, Occupied 3, Allocated 1, Recycled 0, Allocated 2, Allocated 0, Allocated 4, Answered 3 False,
      OccupyPanicked 100001]"

lemma sample_run: "fst (alloc_run sample_calls (ReloadableIDAllocator_new 0)) = sample_answers"
  by (simp add: sample_calls_def sample_answers_def alloc_step_def occupy_idx_def allocate_def pop_free_id_def
      remove_free_id_def recycle_def insert_free_id_def insert_known_free_id_def ReloadableIDAllocator_new_def is_free_def
      u32_add_def upt_rec)


end
