(* ===== verification/Warm_Pool.thy ===== *)
theory Warm_Pool
  imports Prelude "HOL-Library.Multiset"
begin

text \<open>
  The generic warm pool of \<^verbatim>\<open>crates/warm-pool/src/lib.rs\<close>: watermark decisions, acquire, release and
  drain as functions of the pool, built from one function per lock section. The lemmas say what the
  watermarks decide, how the refill target grows, and what the sections do to the idle resources.
\<close>

section \<open>The pool\<close>

datatype PoolMaintenanceAction = Fill nat | Drain nat | Idle

record PoolMaintenanceSignal =
  pending :: bool
  stop :: bool

record PoolConfig =
  low_watermark :: nat
  high_watermark :: nat
  maintenance_enabled :: bool
  startup_prewarm :: bool

definition PoolConfig_validate :: "PoolConfig \<Rightarrow> PoolConfig" where
  "PoolConfig_validate c =
     (if low_watermark c > high_watermark c then c\<lparr>low_watermark := high_watermark c\<rparr> else c)"

text \<open>
  The maintenance worker's handle is recorded as present or taken; the thread behind it is the
  \<open>worker\<close> of the system below.
\<close>

record 'r WarmPool =
  pool :: "'r list"
  pool_config :: PoolConfig
  fill_target :: nat
  maintenance_signal :: PoolMaintenanceSignal
  maintenance_worker :: bool
  maintenance_started :: bool
  shutting_down :: bool

definition WarmPool_new :: "PoolConfig \<Rightarrow> 'r WarmPool" where
  "WarmPool_new cfg =
     (let c = PoolConfig_validate cfg
      in \<lparr>pool = [], pool_config = c, fill_target = min (low_watermark c) (high_watermark c),
          maintenance_signal = \<lparr>pending = False, stop = False\<rparr>, maintenance_worker = False,
          maintenance_started = False, shutting_down = False\<rparr>)"

section \<open>Watermarks\<close>

definition usize_saturating_mul :: "nat \<Rightarrow> nat \<Rightarrow> nat" where
  "usize_saturating_mul a b = min (a * b) (2 ^ 64 - 1)"

definition current_fill_target :: "'r WarmPool \<Rightarrow> nat" where
  "current_fill_target p = min (fill_target p) (high_watermark (pool_config p))"

definition compute_maintenance_action :: "'r WarmPool \<Rightarrow> nat \<Rightarrow> PoolMaintenanceAction" where
  "compute_maintenance_action p pool_len =
     (let target = current_fill_target p; to_fill = target - pool_len;
          to_drain = pool_len - high_watermark (pool_config p)
      in if pool_len < target \<and> to_fill > 0 then Fill to_fill
         else if pool_len > high_watermark (pool_config p) \<and> to_drain > 0 then Drain to_drain
         else Idle)"

definition grow_fill_target_after_pressure :: "nat \<Rightarrow> 'r WarmPool \<Rightarrow> 'r WarmPool" where
  "grow_fill_target_after_pressure pool_len p =
     (if pool_len \<ge> low_watermark (pool_config p) \<or> high_watermark (pool_config p) = 0 then p
      else let low = min (low_watermark (pool_config p)) (high_watermark (pool_config p));
               next = min (usize_saturating_mul (max (max (fill_target p) low) 1) 2) (high_watermark (pool_config p))
           in p\<lparr>fill_target := next\<rparr>)"

text \<open>The section of \<open>request_maintenance\<close> that holds the signal lock.\<close>

definition request_section :: "'r WarmPool \<Rightarrow> 'r WarmPool" where
  "request_section p =
     (if stop (maintenance_signal p) then p
      else p\<lparr>maintenance_signal := (maintenance_signal p)\<lparr>pending := True\<rparr>\<rparr>)"

definition request_maintenance :: "'r WarmPool \<Rightarrow> 'r WarmPool" where
  "request_maintenance p =
     (if \<not> maintenance_enabled (pool_config p) \<or> shutting_down p then p else request_section p)"

definition is_fill :: "PoolMaintenanceAction \<Rightarrow> bool" where
  "is_fill a = (case a of Fill _ \<Rightarrow> True | _ \<Rightarrow> False)"

definition record_acquisition_pressure :: "nat \<Rightarrow> 'r WarmPool \<Rightarrow> 'r WarmPool" where
  "record_acquisition_pressure pool_len p =
     (let p = grow_fill_target_after_pressure pool_len p
      in if is_fill (compute_maintenance_action p pool_len) then request_maintenance p else p)"

section \<open>Acquire, release and drain\<close>

text \<open>
  Each critical section of the pool lock is a function of its own: it returns what the section
  hands on and the pool it leaves. The first position that satisfies the predicate is removed.
\<close>

fun remove_first :: "('r \<Rightarrow> bool) \<Rightarrow> 'r list \<Rightarrow> 'r option \<times> 'r list" where
  "remove_first P [] = (None, [])"
| "remove_first P (x # xs) =
     (if P x then (Some x, xs) else let (r, ys) = remove_first P xs in (r, x # ys))"

definition acquire_section :: "('r \<Rightarrow> bool) \<Rightarrow> 'r WarmPool \<Rightarrow> ('r option \<times> nat) \<times> 'r WarmPool" where
  "acquire_section predicate p =
     (let (resource, rest) = remove_first predicate (pool p)
      in ((resource, length rest), p\<lparr>pool := rest\<rparr>))"

definition try_acquire_where :: "('r \<Rightarrow> bool) \<Rightarrow> 'r WarmPool \<Rightarrow> 'r option \<times> 'r WarmPool" where
  "try_acquire_where predicate p =
     (if shutting_down p then (None, p)
      else let ((resource, next_pool_len), p) = acquire_section predicate p
           in (resource, record_acquisition_pressure next_pool_len p))"

definition try_acquire :: "'r WarmPool \<Rightarrow> 'r option \<times> 'r WarmPool" where
  "try_acquire p =
     (if shutting_down p then (None, p)
      else let (resource, rest) = (case pool p of [] \<Rightarrow> (None, []) | x # xs \<Rightarrow> (Some x, xs));
               next_pool_len = length rest;
               p = p\<lparr>pool := rest\<rparr>
           in (resource, record_acquisition_pressure next_pool_len p))"

definition push_section :: "'r \<Rightarrow> 'r WarmPool \<Rightarrow> bool \<times> 'r WarmPool" where
  "push_section resource p =
     (if \<not> shutting_down p \<and> length (pool p) < high_watermark (pool_config p)
      then (True, p\<lparr>pool := pool p @ [resource]\<rparr>) else (False, p))"

definition try_push_bounded :: "'r \<Rightarrow> 'r WarmPool \<Rightarrow> ('r + unit) \<times> 'r WarmPool" where
  "try_push_bounded resource p =
     (if \<not> shutting_down p
      then case push_section resource p of (True, p) \<Rightarrow> (Inr (), p) | (False, p) \<Rightarrow> (Inl resource, p)
      else (Inl resource, p))"

definition try_drain_one :: "'r WarmPool \<Rightarrow> 'r option \<times> 'r WarmPool" where
  "try_drain_one p =
     (case rev (pool p) of [] \<Rightarrow> (None, p) | x # xs \<Rightarrow> (Some x, p\<lparr>pool := rev xs\<rparr>))"

definition release_section :: "'r \<Rightarrow> 'r WarmPool \<Rightarrow> nat option \<times> 'r WarmPool" where
  "release_section resource p =
     (if \<not> shutting_down p \<and>
         (maintenance_enabled (pool_config p) \<or> length (pool p) < high_watermark (pool_config p))
      then (Some (length (pool p) + 1), p\<lparr>pool := pool p @ [resource]\<rparr>)
      else (None, p))"

definition release_wakes :: "nat \<Rightarrow> 'r WarmPool \<Rightarrow> bool" where
  "release_wakes next_pool_len p \<longleftrightarrow>
     next_pool_len < low_watermark (pool_config p) \<or> next_pool_len > high_watermark (pool_config p)"

definition pool_release :: "'r \<Rightarrow> 'r WarmPool \<Rightarrow> ('r + unit) \<times> 'r WarmPool" where
  "pool_release resource p =
     (if \<not> shutting_down p
      then case release_section resource p of
             (Some next_pool_len, p) \<Rightarrow> (Inr (), if release_wakes next_pool_len p then request_maintenance p else p)
           | (None, p) \<Rightarrow> (Inl resource, p)
      else (Inl resource, p))"

definition stop_section :: "'r WarmPool \<Rightarrow> 'r WarmPool" where
  "stop_section p = p\<lparr>maintenance_signal := \<lparr>pending = True, stop = True\<rparr>\<rparr>"

definition stop_maintenance_worker :: "'r WarmPool \<Rightarrow> 'r WarmPool" where
  "stop_maintenance_worker p =
     (if \<not> maintenance_started p then p else (stop_section p)\<lparr>maintenance_worker := False\<rparr>)"

definition drain_section :: "'r WarmPool \<Rightarrow> 'r list \<times> 'r WarmPool" where
  "drain_section p = (pool p, p\<lparr>pool := []\<rparr>)"

definition drain_all :: "'r WarmPool \<Rightarrow> 'r list \<times> 'r WarmPool" where
  "drain_all p = drain_section (stop_maintenance_worker (p\<lparr>shutting_down := True\<rparr>))"

section \<open>What the watermarks decide\<close>

definition watermarks_ok :: "'r WarmPool \<Rightarrow> bool" where
  "watermarks_ok p \<longleftrightarrow>
     low_watermark (pool_config p) \<le> fill_target p \<and> fill_target p \<le> high_watermark (pool_config p)"

lemma validate_ok [simp]: "low_watermark (PoolConfig_validate c) \<le> high_watermark c"
  by (simp add: PoolConfig_validate_def)

lemma validate_keeps [simp]:
  "high_watermark (PoolConfig_validate c) = high_watermark c"
  "maintenance_enabled (PoolConfig_validate c) = maintenance_enabled c"
  by (simp_all add: PoolConfig_validate_def)

lemma new_watermarks: "watermarks_ok (WarmPool_new c)"
  by (simp add: watermarks_ok_def WarmPool_new_def Let_def)

lemma current_fill_target_ok: "watermarks_ok p \<Longrightarrow> current_fill_target p = fill_target p"
  by (simp add: watermarks_ok_def current_fill_target_def)

lemma action_Fill: "compute_maintenance_action p n = Fill k \<longleftrightarrow> n < current_fill_target p \<and> k = current_fill_target p - n"
  by (auto simp: compute_maintenance_action_def Let_def)

lemma is_fill_iff: "is_fill (compute_maintenance_action p n) \<longleftrightarrow> n < current_fill_target p"
  by (auto simp: is_fill_def action_Fill compute_maintenance_action_def Let_def)

lemma action_Idle:
  "compute_maintenance_action p n = Idle \<longleftrightarrow> current_fill_target p \<le> n \<and> n \<le> high_watermark (pool_config p)"
  by (auto simp: compute_maintenance_action_def Let_def)

lemma action_Drain:
  "compute_maintenance_action p n = Drain k \<longleftrightarrow>
     high_watermark (pool_config p) < n \<and> k = n - high_watermark (pool_config p)"
  by (auto simp: compute_maintenance_action_def current_fill_target_def Let_def)

subsection \<open>Growth of the refill target\<close>

lemma grow_frame [simp]:
  "pool (grow_fill_target_after_pressure n p) = pool p"
  "pool_config (grow_fill_target_after_pressure n p) = pool_config p"
  "maintenance_signal (grow_fill_target_after_pressure n p) = maintenance_signal p"
  "maintenance_worker (grow_fill_target_after_pressure n p) = maintenance_worker p"
  "maintenance_started (grow_fill_target_after_pressure n p) = maintenance_started p"
  "shutting_down (grow_fill_target_after_pressure n p) = shutting_down p"
  by (simp_all add: grow_fill_target_after_pressure_def Let_def)

definition usize_config :: "PoolConfig \<Rightarrow> bool" where
  "usize_config c \<longleftrightarrow> high_watermark c < 2 ^ 64"

lemma grow_target:
  assumes "watermarks_ok p" "usize_config (pool_config p)"
  shows "fill_target (grow_fill_target_after_pressure n p) =
    (if n < low_watermark (pool_config p) then min (2 * fill_target p) (high_watermark (pool_config p)) else fill_target p)"
proof (cases "n < low_watermark (pool_config p)")
  case True
  then have "0 < fill_target p" "max (max (fill_target p) (low_watermark (pool_config p))) 1 = fill_target p"
    "min (low_watermark (pool_config p)) (high_watermark (pool_config p)) = low_watermark (pool_config p)"
    using assms(1) by (auto simp: watermarks_ok_def)
  then show ?thesis using True assms
    by (simp add: grow_fill_target_after_pressure_def usize_saturating_mul_def usize_config_def watermarks_ok_def)
next
  case False
  then show ?thesis by (simp add: grow_fill_target_after_pressure_def)
qed

lemma grow_ok:
  assumes "watermarks_ok p" "usize_config (pool_config p)"
  shows "watermarks_ok (grow_fill_target_after_pressure n p)"
    "fill_target p \<le> fill_target (grow_fill_target_after_pressure n p)"
  using assms grow_target [OF assms, of n] by (auto simp: watermarks_ok_def)

lemma request_frame [simp]:
  "pool (request_section p) = pool p"
  "pool_config (request_section p) = pool_config p"
  "fill_target (request_section p) = fill_target p"
  "maintenance_worker (request_section p) = maintenance_worker p"
  "maintenance_started (request_section p) = maintenance_started p"
  "shutting_down (request_section p) = shutting_down p"
  "stop (maintenance_signal (request_section p)) = stop (maintenance_signal p)"
  "pending (maintenance_signal (request_section p)) = (pending (maintenance_signal p) \<or> \<not> stop (maintenance_signal p))"
  by (auto simp: request_section_def)

lemma request_maintenance_frame [simp]:
  "pool (request_maintenance p) = pool p"
  "pool_config (request_maintenance p) = pool_config p"
  "fill_target (request_maintenance p) = fill_target p"
  "shutting_down (request_maintenance p) = shutting_down p"
  by (auto simp: request_maintenance_def)

lemma pressure_frame [simp]:
  "pool (record_acquisition_pressure n p) = pool p"
  "pool_config (record_acquisition_pressure n p) = pool_config p"
  "shutting_down (record_acquisition_pressure n p) = shutting_down p"
  "fill_target (record_acquisition_pressure n p) = fill_target (grow_fill_target_after_pressure n p)"
  by (auto simp: record_acquisition_pressure_def Let_def)

subsection \<open>Sections of the pool lock\<close>

lemma remove_first_None: "fst (remove_first P xs) = None \<longleftrightarrow> (\<forall>x\<in>set xs. \<not> P x)"
  by (induction xs) (auto split: prod.splits)

lemma remove_first_mset:
  "remove_first P xs = (r, ys) \<Longrightarrow> mset xs = mset ys + (case r of None \<Rightarrow> {#} | Some x \<Rightarrow> {#x#})"
  by (induction xs arbitrary: r ys) (auto split: if_splits prod.splits)

lemma remove_first_Some:
  "remove_first P xs = (Some x, ys) \<Longrightarrow> \<exists>us vs. xs = us @ x # vs \<and> ys = us @ vs \<and> P x \<and> (\<forall>u\<in>set us. \<not> P u)"
proof (induction xs arbitrary: ys)
  case (Cons a xs)
  show ?case
  proof (cases "P a")
    case True
    then show ?thesis using Cons.prems by (intro exI [of _ "[]"] exI [of _ ys]) auto
  next
    case False
    then obtain zs where z: "remove_first P xs = (Some x, zs)" "ys = a # zs"
      using Cons.prems by (auto split: prod.splits)
    from Cons.IH [OF z(1)] obtain us vs where "xs = us @ x # vs" "zs = us @ vs" "P x" "\<forall>u\<in>set us. \<not> P u" by blast
    then show ?thesis using False z(2) by (intro exI [of _ "a # us"] exI [of _ vs]) auto
  qed
qed simp

lemma remove_first_length: "remove_first P xs = (r, ys) \<Longrightarrow> length xs = length ys + (case r of None \<Rightarrow> 0 | Some x \<Rightarrow> 1)"
  by (drule remove_first_mset, drule arg_cong [of _ _ size]) (auto split: option.splits)

lemma try_acquire_is_where: "try_acquire p = try_acquire_where (\<lambda>_. True) p"
  by (auto simp: try_acquire_def try_acquire_where_def acquire_section_def split: list.split)

end
