(* ===== verification/Warm_Pool_Threads.thy ===== *)
theory Warm_Pool_Threads
  imports Warm_Pool
begin

text \<open>
  The warm pool under concurrency: the maintenance worker and any number of threads that share one pool.

  A step is one critical section of the pool, signal or refill-target lock, or one access to an atomic
  flag. A flag read inside a critical section happens in the section's step; the flags change only by
  steps of their own. The invariants, by rule induction on the reachable states, are: the refill target
  stays between the watermarks, no resource is lost or duplicated, a drained pool stays empty, at most
  one worker runs, no wakeup of the worker is lost, and a stopped worker can be joined.
\<close>

section \<open>The maintenance worker\<close>

text \<open>
  The worker's program counter: before the signal (with \<open>has_immediate_work\<close>), past it, inside
  \<open>run_cycle\<close>, after it, before the pool lock, with the length it read, and left. A step is one lock
  section or one load; \<open>None\<close> means that the worker waits on the condition variable or is inside
  \<open>run_cycle\<close>.
\<close>

datatype wpc = WNone | WTop bool | WChecked | WRun | WAfter | WLen | WCompute nat | WExit

fun worker_step :: "wpc \<Rightarrow> 'r WarmPool \<Rightarrow> (wpc \<times> 'r WarmPool) option" where
  "worker_step (WTop has_immediate_work) p =
     (if has_immediate_work then Some (WChecked, p)
      else if \<not> stop (maintenance_signal p) \<and> \<not> pending (maintenance_signal p) then None
      else if stop (maintenance_signal p) then Some (WExit, p)
      else Some (WChecked, p\<lparr>maintenance_signal := (maintenance_signal p)\<lparr>pending := False\<rparr>\<rparr>))"
| "worker_step WChecked p = Some (if shutting_down p then WExit else WRun, p)"
| "worker_step WRun p = None"
| "worker_step WAfter p = Some (if shutting_down p then WExit else WLen, p)"
| "worker_step WLen p = Some (WCompute (length (pool p)), p)"
| "worker_step (WCompute pool_len) p = Some (WTop (compute_maintenance_action p pool_len \<noteq> Idle), p)"
| "worker_step WNone p = None"
| "worker_step WExit p = None"

text \<open>
  The loop on its own, with \<open>run_cycle\<close> as a function of the pool. It ends when the worker waits or
  leaves; the fuel counts worker steps.
\<close>

fun maintenance_worker_loop :: "nat \<Rightarrow> ('r WarmPool \<Rightarrow> 'r WarmPool) \<Rightarrow> wpc \<Rightarrow> 'r WarmPool \<Rightarrow> (wpc \<times> 'r WarmPool) option" where
  "maintenance_worker_loop 0 run_cycle w p = None"
| "maintenance_worker_loop (Suc fuel) run_cycle w p =
     (if w = WRun then maintenance_worker_loop fuel run_cycle WAfter (run_cycle p)
      else case worker_step w p of
             None \<Rightarrow> Some (w, p)
           | Some (w, p) \<Rightarrow> maintenance_worker_loop fuel run_cycle w p)"

section \<open>Threads that share the pool\<close>

datatype 'r call =
  CallAcquire "'r \<Rightarrow> bool" | CallRelease 'r | CallPush 'r | CallRequest | CallDrainAll | CallStart

datatype 'r reply = Got "'r option" | Accepted | Refused 'r | Drained "'r list" | Done

datatype 'r pc =
    Ready
  | AcquireCheck "'r \<Rightarrow> bool" | AcquireLock "'r \<Rightarrow> bool" | AcquireGrow "'r option" nat | AcquireCompute "'r option" nat
  | RequestCheck "'r reply" | RequestLock "'r reply"
  | ReleaseCheck 'r | ReleaseLock 'r | ReleaseCompare nat
  | PushCheck 'r | PushLock 'r
  | DrainFlag | DrainStarted | DrainSignal | DrainTake | DrainJoin | DrainPool
  | StartEnter | StartSpawn | StartStore | StartFailed
  | Return "'r reply"

fun call_pc :: "'r call \<Rightarrow> 'r pc" where
  "call_pc (CallAcquire P) = AcquireCheck P"
| "call_pc (CallRelease r) = ReleaseCheck r"
| "call_pc (CallPush r) = PushCheck r"
| "call_pc CallRequest = RequestCheck Done"
| "call_pc CallDrainAll = DrainFlag"
| "call_pc CallStart = StartEnter"

text \<open>
  One step of a thread inside a call. The flag says whether the operating system can spawn the
  worker thread. A thread joins the worker only once that has left.
\<close>

fun thread_step :: "bool \<Rightarrow> 'r pc \<Rightarrow> wpc \<Rightarrow> 'r WarmPool \<Rightarrow> ('r pc \<times> wpc \<times> 'r WarmPool) option" where
  "thread_step ok (AcquireCheck P) w p = Some (if shutting_down p then Return (Got None) else AcquireLock P, w, p)"
| "thread_step ok (AcquireLock P) w p =
     (let ((resource, next_pool_len), p) = acquire_section P p in Some (AcquireGrow resource next_pool_len, w, p))"
| "thread_step ok (AcquireGrow r n) w p = Some (AcquireCompute r n, w, grow_fill_target_after_pressure n p)"
| "thread_step ok (AcquireCompute r n) w p =
     Some (if is_fill (compute_maintenance_action p n) then RequestCheck (Got r) else Return (Got r), w, p)"
| "thread_step ok (RequestCheck a) w p =
     Some (if \<not> maintenance_enabled (pool_config p) \<or> shutting_down p then Return a else RequestLock a, w, p)"
| "thread_step ok (RequestLock a) w p = Some (Return a, w, request_section p)"
| "thread_step ok (ReleaseCheck r) w p = Some (if shutting_down p then Return (Refused r) else ReleaseLock r, w, p)"
| "thread_step ok (ReleaseLock r) w p =
     (case release_section r p of (Some n, p) \<Rightarrow> Some (ReleaseCompare n, w, p) | (None, p) \<Rightarrow> Some (Return (Refused r), w, p))"
| "thread_step ok (ReleaseCompare n) w p = Some (if release_wakes n p then RequestCheck Accepted else Return Accepted, w, p)"
| "thread_step ok (PushCheck r) w p = Some (if shutting_down p then Return (Refused r) else PushLock r, w, p)"
| "thread_step ok (PushLock r) w p =
     (case push_section r p of (done, p) \<Rightarrow> Some (if done then Return Accepted else Return (Refused r), w, p))"
| "thread_step ok DrainFlag w p = Some (DrainStarted, w, p\<lparr>shutting_down := True\<rparr>)"
| "thread_step ok DrainStarted w p = Some (if \<not> maintenance_started p then DrainPool else DrainSignal, w, p)"
| "thread_step ok DrainSignal w p = Some (DrainTake, w, stop_section p)"
| "thread_step ok DrainTake w p =
     Some (if maintenance_worker p then DrainJoin else DrainPool, w, p\<lparr>maintenance_worker := False\<rparr>)"
| "thread_step ok DrainJoin w p = (if w = WExit then Some (DrainPool, w, p) else None)"
| "thread_step ok DrainPool w p = (case drain_section p of (rs, p) \<Rightarrow> Some (Return (Drained rs), w, p))"
| "thread_step ok StartEnter w p =
     (if \<not> maintenance_enabled (pool_config p) \<or> maintenance_started p then Some (Return Done, w, p)
      else Some (StartSpawn, w, p\<lparr>maintenance_started := True\<rparr>))"
| "thread_step ok StartSpawn w p = (if ok then Some (StartStore, WTop False, p) else Some (StartFailed, w, p))"
| "thread_step ok StartStore w p = Some (RequestCheck Done, w, p\<lparr>maintenance_worker := True\<rparr>)"
| "thread_step ok StartFailed w p = Some (Return Done, w, p\<lparr>maintenance_started := False\<rparr>)"
| "thread_step ok Ready w p = None"
| "thread_step ok (Return a) w p = None"

text \<open>
  The system: the pool, the worker and any number of threads. Three history fields record the
  resources handed to the pool, those handed out, and whether some \<open>drain_all\<close> has drained it.
\<close>

record 'r system =
  shared :: "'r WarmPool"
  worker :: wpc
  threads :: "'r pc list"
  given :: "'r multiset"
  taken :: "'r multiset"
  drained :: bool

datatype 'r event =
  Call nat "'r call" | Run nat bool | Ret nat | Worker | WorkerPush 'r | WorkerDrain | WorkerDone

fun call_gives :: "'r call \<Rightarrow> 'r multiset" where
  "call_gives (CallRelease r) = {#r#}"
| "call_gives (CallPush r) = {#r#}"
| "call_gives _ = {#}"

fun reply_takes :: "'r reply \<Rightarrow> 'r multiset" where
  "reply_takes (Got r) = (case r of None \<Rightarrow> {#} | Some x \<Rightarrow> {#x#})"
| "reply_takes (Refused r) = {#r#}"
| "reply_takes (Drained rs) = mset rs"
| "reply_takes _ = {#}"

fun system_step :: "'r event \<Rightarrow> 'r system \<Rightarrow> 'r system option" where
  "system_step (Call i c) s =
     (if i < length (threads s) then
        case threads s ! i of
          Ready \<Rightarrow> Some (s\<lparr>threads := (threads s)[i := call_pc c], given := given s + call_gives c\<rparr>)
        | _ \<Rightarrow> None
      else None)"
| "system_step (Run i ok) s =
     (if i < length (threads s) then
        case thread_step ok (threads s ! i) (worker s) (shared s) of
          None \<Rightarrow> None
        | Some (pc, w, p) \<Rightarrow>
            Some (s\<lparr>threads := (threads s)[i := pc], worker := w, shared := p,
                    drained := (case threads s ! i of DrainPool \<Rightarrow> True | _ \<Rightarrow> drained s)\<rparr>)
      else None)"
| "system_step (Ret i) s =
     (if i < length (threads s) then
        case threads s ! i of
          Return a \<Rightarrow> Some (s\<lparr>threads := (threads s)[i := Ready], taken := taken s + reply_takes a\<rparr>)
        | _ \<Rightarrow> None
      else None)"
| "system_step Worker s =
     (case worker_step (worker s) (shared s) of
        None \<Rightarrow> None
      | Some (w, p) \<Rightarrow> Some (s\<lparr>worker := w, shared := p\<rparr>))"
| "system_step (WorkerPush r) s =
     (if worker s = WRun then
        case try_push_bounded r (shared s) of
          (Inr _, p) \<Rightarrow> Some (s\<lparr>shared := p, given := add_mset r (given s)\<rparr>)
        | (Inl x, p) \<Rightarrow> Some (s\<lparr>shared := p, given := add_mset r (given s), taken := add_mset x (taken s)\<rparr>)
      else None)"
| "system_step WorkerDrain s =
     (if worker s = WRun then
        case try_drain_one (shared s) of
          (Some x, p) \<Rightarrow> Some (s\<lparr>shared := p, taken := add_mset x (taken s)\<rparr>)
        | (None, p) \<Rightarrow> Some (s\<lparr>shared := p\<rparr>)
      else None)"
| "system_step WorkerDone s = (if worker s = WRun then Some (s\<lparr>worker := WAfter\<rparr>) else None)"

definition system_start :: "PoolConfig \<Rightarrow> nat \<Rightarrow> 'r system" where
  "system_start c n =
     \<lparr>shared = WarmPool_new c, worker = WNone, threads = replicate n Ready, given = {#}, taken = {#}, drained = False\<rparr>"

fun system_run :: "'r event list \<Rightarrow> 'r system \<Rightarrow> 'r system option" where
  "system_run [] s = Some s"
| "system_run (e # es) s = (case system_step e s of None \<Rightarrow> None | Some s \<Rightarrow> system_run es s)"

section \<open>Reachable states\<close>

inductive pool_reach :: "PoolConfig \<Rightarrow> nat \<Rightarrow> 'r system \<Rightarrow> bool" for c n where
  reach_start: "pool_reach c n (system_start c n)"
| reach_step: "pool_reach c n s \<Longrightarrow> system_step e s = Some s' \<Longrightarrow> pool_reach c n s'"

lemma system_run_reach: "system_run es s = Some s' \<Longrightarrow> pool_reach c n s \<Longrightarrow> pool_reach c n s'"
  by (induction es s rule: system_run.induct) (auto split: option.splits intro: reach_step)

subsection \<open>Configuration and refill target\<close>

lemma acquire_frame:
  assumes "acquire_section P p = ((r, n), q)"
  shows "pool_config q = pool_config p" "fill_target q = fill_target p" "maintenance_signal q = maintenance_signal p"
    "maintenance_worker q = maintenance_worker p" "maintenance_started q = maintenance_started p"
    "shutting_down q = shutting_down p" "n = length (pool q)"
    "mset (pool p) = mset (pool q) + (case r of None \<Rightarrow> {#} | Some x \<Rightarrow> {#x#})"
  using assms by (auto simp: acquire_section_def dest: remove_first_mset split: prod.splits)

definition same_control :: "'r WarmPool \<Rightarrow> 'r WarmPool \<Rightarrow> bool" where
  "same_control p q \<longleftrightarrow> pool_config q = pool_config p \<and> fill_target q = fill_target p"

lemma sections_control [simp]:
  "acquire_section P p = (a, q) \<Longrightarrow> same_control p q"
  "release_section r p = (m, q) \<Longrightarrow> same_control p q"
  "push_section r p = (b, q) \<Longrightarrow> same_control p q"
  "drain_section p = (rs, q) \<Longrightarrow> same_control p q"
  by (auto simp: same_control_def acquire_section_def release_section_def push_section_def drain_section_def
      split: prod.splits if_splits)

lemma thread_step_control:
  assumes "thread_step ok pc w p = Some (pc', w', p')"
  shows "same_control p p' \<or> (\<exists>r n. pc = AcquireGrow r n \<and> p' = grow_fill_target_after_pressure n p)"
  using assms by (cases pc) (auto split: if_splits prod.splits option.splits simp: same_control_def stop_section_def
     dest!: sections_control [unfolded same_control_def])

text \<open>
  Every step keeps the configuration and the order of the watermarks around the refill target, and
  the target only grows.
\<close>

definition control_grows :: "'r WarmPool \<Rightarrow> 'r WarmPool \<Rightarrow> bool" where
  "control_grows p q \<longleftrightarrow>
     pool_config q = pool_config p \<and> fill_target p \<le> fill_target q \<and> fill_target q \<le> high_watermark (pool_config p)"

lemma same_control_grows: "same_control p q \<Longrightarrow> watermarks_ok p \<Longrightarrow> control_grows p q"
  by (simp add: same_control_def control_grows_def watermarks_ok_def)

lemma grow_control_grows:
  "watermarks_ok p \<Longrightarrow> usize_config (pool_config p) \<Longrightarrow> control_grows p (grow_fill_target_after_pressure n p)"
  using grow_ok [of p n] by (simp add: control_grows_def watermarks_ok_def)

lemma control_grows_ok: "control_grows p q \<Longrightarrow> watermarks_ok p \<Longrightarrow> watermarks_ok q"
  by (auto simp: control_grows_def watermarks_ok_def)

lemma thread_step_grows:
  "thread_step ok pc w p = Some (pc', w', p') \<Longrightarrow> watermarks_ok p \<Longrightarrow> usize_config (pool_config p) \<Longrightarrow> control_grows p p'"
  by (drule thread_step_control) (auto intro: same_control_grows grow_control_grows)

lemma worker_step_control: "worker_step w p = Some (w', p') \<Longrightarrow> same_control p p' \<and> pool p' = pool p \<and> shutting_down p' = shutting_down p"
  by (cases w) (auto simp: same_control_def split: if_splits)

lemma try_push_bounded_cases:
  assumes "try_push_bounded r p = (v, q)"
  obtains "v = Inr ()" "q = p\<lparr>pool := pool p @ [r]\<rparr>" "\<not> shutting_down p" "length (pool p) < high_watermark (pool_config p)"
  | "v = Inl r" "q = p" "shutting_down p \<or> high_watermark (pool_config p) \<le> length (pool p)"
  using assms by (auto simp: try_push_bounded_def push_section_def split: if_splits)

lemma try_drain_one_cases:
  assumes "try_drain_one p = (v, q)"
  obtains "v = None" "q = p" "pool p = []"
  | x xs where "v = Some x" "pool p = xs @ [x]" "q = p\<lparr>pool := xs\<rparr>"
proof (cases "pool p" rule: rev_cases)
  case Nil
  then show ?thesis using assms that(1) by (auto simp: try_drain_one_def)
next
  case (snoc xs x)
  then show ?thesis using assms that(2) by (auto simp: try_drain_one_def)
qed

text \<open>A step of the system is a step of a thread, of the worker, or only moves resources and bookkeeping.\<close>

definition config_inv :: "PoolConfig \<Rightarrow> 'r WarmPool \<Rightarrow> bool" where
  "config_inv c p \<longleftrightarrow> pool_config p = PoolConfig_validate c \<and> watermarks_ok p"

lemma config_inv_grows: "config_inv c p \<Longrightarrow> control_grows p q \<Longrightarrow> config_inv c q"
  by (auto simp: config_inv_def control_grows_ok) (simp add: control_grows_def)

lemma usize_validate [simp]: "usize_config (PoolConfig_validate c) = usize_config c"
  by (simp add: usize_config_def)

lemma system_step_grows:
  assumes "system_step e s = Some s'" "config_inv c (shared s)" "usize_config c"
  shows "control_grows (shared s) (shared s')"
proof -
  have ok: "watermarks_ok (shared s)" "usize_config (pool_config (shared s))"
    using assms(2,3) by (auto simp: config_inv_def)
  have same: "control_grows (shared s) q" if "same_control (shared s) q" for q
    using same_control_grows [OF that ok(1)] .
  show ?thesis
  proof (cases e)
    case (Run i b)
    then show ?thesis using assms(1) thread_step_grows [OF _ ok] by (auto split: if_splits option.splits)
  next
    case Worker
    then show ?thesis using assms(1) worker_step_control same by (fastforce split: option.splits)
  next
    case (WorkerPush r)
    then show ?thesis using assms(1) same
      by (auto simp: same_control_def split: if_splits prod.splits sum.splits elim!: try_push_bounded_cases)
  next
    case WorkerDrain
    then show ?thesis using assms(1) same
      by (auto simp: same_control_def split: if_splits prod.splits option.splits elim!: try_drain_one_cases)
  qed (use assms(1) same in \<open>auto simp: same_control_def split: if_splits pc.splits\<close>)
qed

lemma reach_config:
  "pool_reach c n s \<Longrightarrow> usize_config c \<Longrightarrow> config_inv c (shared s)"
proof (induction rule: pool_reach.induct)
  case reach_start
  then show ?case using new_watermarks [of c] by (simp add: system_start_def config_inv_def) (simp add: WarmPool_new_def Let_def)
next
  case (reach_step s e s')
  then show ?case using system_step_grows config_inv_grows by blast
qed

subsection \<open>Shutdown\<close>

fun drain_phase :: "'r pc \<Rightarrow> bool" where
  "drain_phase DrainStarted = True"
| "drain_phase DrainSignal = True"
| "drain_phase DrainTake = True"
| "drain_phase DrainJoin = True"
| "drain_phase DrainPool = True"
| "drain_phase _ = False"

lemma drain_phase_call [simp]: "\<not> drain_phase (call_pc c)"
  by (cases c) auto

lemma thread_step_shutdown:
  assumes "thread_step ok pc w p = Some (pc', w', p')"
    and "stop (maintenance_signal p) \<Longrightarrow> shutting_down p" "drain_phase pc \<Longrightarrow> shutting_down p"
  shows "(stop (maintenance_signal p') \<longrightarrow> shutting_down p') \<and> (drain_phase pc' \<longrightarrow> shutting_down p')
    \<and> (shutting_down p \<longrightarrow> shutting_down p') \<and> (shutting_down p \<and> pool p = [] \<longrightarrow> pool p' = []) \<and> (pc = DrainPool \<longrightarrow> pool p' = [])"
  using assms
  by (cases pc) (auto simp: acquire_section_def release_section_def push_section_def drain_section_def stop_section_def
        split: if_splits prod.splits)

lemma worker_step_shutdown:
  "worker_step w p = Some (w', p') \<Longrightarrow> stop (maintenance_signal p') = stop (maintenance_signal p)"
  by (cases w) (auto split: if_splits)

definition shutdown_inv :: "'r system \<Rightarrow> bool" where
  "shutdown_inv s \<longleftrightarrow>
     (stop (maintenance_signal (shared s)) \<longrightarrow> shutting_down (shared s))
     \<and> (\<forall>pc\<in>set (threads s). drain_phase pc \<longrightarrow> shutting_down (shared s))
     \<and> (drained s \<longrightarrow> shutting_down (shared s) \<and> pool (shared s) = [])"

lemma shutdown_inv_update:
  assumes "shutdown_inv s" "drain_phase pc \<Longrightarrow> shutting_down (shared s)"
  shows "\<forall>q\<in>set ((threads s)[i := pc]). drain_phase q \<longrightarrow> shutting_down (shared s)"
  using assms set_update_subset_insert [of "threads s" i pc] by (auto simp: shutdown_inv_def)

lemma system_step_shutdown:
  assumes "system_step e s = Some s'" "shutdown_inv s"
  shows "shutdown_inv s'"
proof (cases e)
  case (Call i c)
  then show ?thesis using assms shutdown_inv_update [OF assms(2), of "call_pc c" i]
    by (auto simp: shutdown_inv_def split: if_splits pc.splits)
next
  case (Ret i)
  then show ?thesis using assms shutdown_inv_update [OF assms(2), of Ready i]
    by (auto simp: shutdown_inv_def split: if_splits pc.splits)
next
  case (Run i b)
  then obtain pc w p where t: "i < length (threads s)" "thread_step b (threads s ! i) (worker s) (shared s) = Some (pc, w, p)"
    and s': "s' = s\<lparr>threads := (threads s)[i := pc], worker := w, shared := p,
              drained := (case threads s ! i of DrainPool \<Rightarrow> True | _ \<Rightarrow> drained s)\<rparr>"
    using assms(1) by (auto split: if_splits option.splits)
  have d: "drain_phase (threads s ! i) \<Longrightarrow> shutting_down (shared s)" "stop (maintenance_signal (shared s)) \<Longrightarrow> shutting_down (shared s)"
    using assms(2) t(1) by (auto simp: shutdown_inv_def)
  from thread_step_shutdown [OF t(2) d(2) d(1)]
  have r: "stop (maintenance_signal p) \<longrightarrow> shutting_down p" "drain_phase pc \<longrightarrow> shutting_down p"
    "shutting_down (shared s) \<longrightarrow> shutting_down p" "shutting_down (shared s) \<and> pool (shared s) = [] \<longrightarrow> pool p = []"
    "threads s ! i = DrainPool \<longrightarrow> pool p = []" by simp_all
  have "threads s ! i = DrainPool \<longrightarrow> shutting_down (shared s)" using d(1) by auto
  moreover have "\<forall>q\<in>set ((threads s)[i := pc]). drain_phase q \<longrightarrow> shutting_down p"
    using r(2,3) assms(2) set_update_subset_insert [of "threads s" i pc] by (auto simp: shutdown_inv_def)
  ultimately show ?thesis using r assms(2) s' by (auto simp: shutdown_inv_def split: pc.splits)
next
  case Worker
  then show ?thesis using assms worker_step_control worker_step_shutdown
    by (fastforce simp: shutdown_inv_def split: option.splits)
next
  case (WorkerPush r)
  then show ?thesis using assms
    by (auto simp: shutdown_inv_def split: if_splits prod.splits sum.splits elim!: try_push_bounded_cases)
next
  case WorkerDrain
  then show ?thesis using assms
    by (auto simp: shutdown_inv_def split: if_splits prod.splits option.splits elim!: try_drain_one_cases)
next
  case WorkerDone
  then show ?thesis using assms by (auto simp: shutdown_inv_def split: if_splits)
qed

lemma reach_shutdown: "pool_reach c n s \<Longrightarrow> shutdown_inv s"
  by (induction rule: pool_reach.induct)
    (auto simp: system_step_shutdown, auto simp: shutdown_inv_def system_start_def WarmPool_new_def Let_def)

subsection \<open>Conservation of resources\<close>

fun in_flight :: "'r pc \<Rightarrow> 'r multiset" where
  "in_flight (AcquireGrow r n) = reply_takes (Got r)"
| "in_flight (AcquireCompute r n) = reply_takes (Got r)"
| "in_flight (RequestCheck a) = reply_takes a"
| "in_flight (RequestLock a) = reply_takes a"
| "in_flight (ReleaseCheck r) = {#r#}"
| "in_flight (ReleaseLock r) = {#r#}"
| "in_flight (PushCheck r) = {#r#}"
| "in_flight (PushLock r) = {#r#}"
| "in_flight (Return a) = reply_takes a"
| "in_flight _ = {#}"

definition all_in_flight :: "'r pc list \<Rightarrow> 'r multiset" where
  "all_in_flight ts = \<Sum>\<^sub># (image_mset in_flight (mset ts))"

lemma all_in_flight_update:
  assumes "i < length ts"
  shows "all_in_flight (ts[i := pc]) + in_flight (ts ! i) = all_in_flight ts + in_flight pc"
proof -
  have "mset ts = add_mset (ts ! i) (mset ts - {#ts ! i#})" using assms by simp
  then have "all_in_flight ts = in_flight (ts ! i) + \<Sum>\<^sub># (image_mset in_flight (mset ts - {#ts ! i#}))"
    unfolding all_in_flight_def by (metis image_mset_add_mset sum_mset.add_mset)
  moreover have "all_in_flight (ts[i := pc]) = in_flight pc + \<Sum>\<^sub># (image_mset in_flight (mset ts - {#ts ! i#}))"
    using assms by (simp add: all_in_flight_def mset_update)
  ultimately show ?thesis by simp
qed

lemma in_flight_call [simp]: "in_flight (call_pc c) = call_gives c"
  by (cases c) auto

lemma thread_step_conserves:
  assumes "thread_step ok pc w p = Some (pc', w', p')"
  shows "mset (pool p') + in_flight pc' = mset (pool p) + in_flight pc"
  using assms
  by (cases pc) (auto simp: acquire_section_def release_section_def push_section_def drain_section_def stop_section_def
        dest!: remove_first_mset split: if_splits prod.splits)

definition conserved :: "'r system \<Rightarrow> bool" where
  "conserved s \<longleftrightarrow> given s = taken s + mset (pool (shared s)) + all_in_flight (threads s)"

lemma system_step_conserves:
  assumes "system_step e s = Some s'" "conserved s"
  shows "conserved s'"
proof (cases e)
  case (Call i c)
  then have "i < length (threads s)" "threads s ! i = Ready"
    "s' = s\<lparr>threads := (threads s)[i := call_pc c], given := given s + call_gives c\<rparr>"
    using assms(1) by (auto split: if_splits pc.splits)
  then show ?thesis using assms(2) all_in_flight_update [of i "threads s" "call_pc c"] by (simp add: conserved_def)
next
  case (Ret i)
  then obtain a where "i < length (threads s)" "threads s ! i = Return a"
    "s' = s\<lparr>threads := (threads s)[i := Ready], taken := taken s + reply_takes a\<rparr>"
    using assms(1) by (auto split: if_splits pc.splits)
  then show ?thesis using assms(2) all_in_flight_update [of i "threads s" Ready] by (simp add: conserved_def ac_simps)
next
  case (Run i b)
  then obtain pc w p where t: "i < length (threads s)" "thread_step b (threads s ! i) (worker s) (shared s) = Some (pc, w, p)"
    and s': "threads s' = (threads s)[i := pc]" "shared s' = p" "given s' = given s" "taken s' = taken s"
    using assms(1) by (auto split: if_splits option.splits)
  have "(mset (pool p) + in_flight pc) + (all_in_flight ((threads s)[i := pc]) + in_flight (threads s ! i))
      = (mset (pool (shared s)) + in_flight (threads s ! i)) + (all_in_flight (threads s) + in_flight pc)"
    unfolding all_in_flight_update [OF t(1)] thread_step_conserves [OF t(2)] ..
  then have "mset (pool p) + all_in_flight ((threads s)[i := pc]) = mset (pool (shared s)) + all_in_flight (threads s)" by simp
  then show ?thesis using assms(2) unfolding s' conserved_def by (simp add: add.assoc)
next
  case Worker
  then show ?thesis using assms worker_step_control by (fastforce simp: conserved_def split: option.splits)
next
  case (WorkerPush r)
  then show ?thesis using assms
    by (auto simp: conserved_def split: if_splits prod.splits sum.splits elim!: try_push_bounded_cases)
next
  case WorkerDrain
  then show ?thesis using assms
    by (auto simp: conserved_def split: if_splits prod.splits option.splits elim!: try_drain_one_cases)
next
  case WorkerDone
  then show ?thesis using assms by (auto simp: conserved_def split: if_splits)
qed

lemma reach_conserves: "pool_reach c n s \<Longrightarrow> conserved s"
proof (induction rule: pool_reach.induct)
  case reach_start
  have "all_in_flight (replicate n Ready) = {#}" by (induction n) (auto simp: all_in_flight_def)
  then show ?case by (simp add: conserved_def system_start_def WarmPool_new_def Let_def)
next
  case (reach_step s e s')
  then show ?case using system_step_conserves by blast
qed

subsection \<open>One worker at most\<close>

fun starting :: "'r pc \<Rightarrow> bool" where
  "starting StartSpawn = True"
| "starting StartFailed = True"
| "starting _ = False"

definition workers :: "'r system \<Rightarrow> nat" where
  "workers s = length (filter starting (threads s)) + (if worker s = WNone then 0 else 1)"

definition worker_inv :: "'r system \<Rightarrow> bool" where
  "worker_inv s \<longleftrightarrow> workers s = (if maintenance_started (shared s) then 1 else 0)
     \<and> (maintenance_started (shared s) \<longrightarrow> maintenance_enabled (pool_config (shared s)))"

lemma filter_update:
  "i < length xs \<Longrightarrow>
   length (filter P (xs[i := y])) + (if P (xs ! i) then 1 else 0) = length (filter P xs) + (if P y then 1 else 0)"
proof (induction xs arbitrary: i)
  case (Cons x xs)
  then show ?case by (cases i) auto
qed simp

lemma starting_call [simp]: "\<not> starting (call_pc c)"
  by (cases c) auto

lemma thread_step_worker:
  assumes "thread_step ok pc w p = Some (pc', w', p')"
    and "starting pc \<Longrightarrow> maintenance_started p \<and> w = WNone"
  shows "(if starting pc' then 1 else 0) + (if w' = WNone then 0 else 1) + (if maintenance_started p then 1 else (0::nat))
       = (if starting pc then 1 else 0) + (if w = WNone then 0 else 1) + (if maintenance_started p' then 1 else 0)"
    and "maintenance_started p' \<longrightarrow> maintenance_started p \<or> maintenance_enabled (pool_config p')"
  using assms
  by (cases pc; auto simp: acquire_section_def release_section_def push_section_def drain_section_def stop_section_def
        split: if_splits prod.splits)+

lemma worker_step_worker:
  "worker_step w p = Some (w', p') \<Longrightarrow> w \<noteq> WNone \<and> w' \<noteq> WNone \<and> maintenance_started p' = maintenance_started p"
  by (cases w) (auto split: if_splits)

lemma system_step_worker:
  assumes "system_step e s = Some s'" "worker_inv s" "pool_config (shared s') = pool_config (shared s)"
  shows "worker_inv s'"
proof (cases e)
  case (Call i c)
  then show ?thesis using assms filter_update [of i "threads s" starting "call_pc c"]
    by (auto simp: worker_inv_def workers_def split: if_splits pc.splits)
next
  case (Ret i)
  then show ?thesis using assms filter_update [of i "threads s" starting Ready]
    by (auto simp: worker_inv_def workers_def split: if_splits pc.splits)
next
  case (Run i b)
  then obtain pc w p where t: "i < length (threads s)" "thread_step b (threads s ! i) (worker s) (shared s) = Some (pc, w, p)"
    and s': "threads s' = (threads s)[i := pc]" "shared s' = p" "worker s' = w"
    using assms(1) by (auto split: if_splits option.splits)
  have one: "starting (threads s ! i) \<Longrightarrow> filter starting (threads s) \<noteq> []"
    using t(1) by (auto simp: filter_empty_conv dest: nth_mem)
  have st: "starting (threads s ! i) \<Longrightarrow> maintenance_started (shared s) \<and> worker s = WNone"
    using one assms(2) by (auto simp: worker_inv_def workers_def split: if_splits)
  show ?thesis using thread_step_worker [OF t(2) st] filter_update [OF t(1), of starting pc] assms(2,3)
    unfolding worker_inv_def workers_def s' by (auto split: if_splits)
next
  case Worker
  then show ?thesis using assms worker_step_worker
    by (fastforce simp: worker_inv_def workers_def split: option.splits)
next
  case (WorkerPush r)
  then show ?thesis using assms
    by (auto simp: worker_inv_def workers_def split: if_splits prod.splits sum.splits elim!: try_push_bounded_cases)
next
  case WorkerDrain
  then show ?thesis using assms
    by (auto simp: worker_inv_def workers_def split: if_splits prod.splits option.splits elim!: try_drain_one_cases)
next
  case WorkerDone
  then show ?thesis using assms by (auto simp: worker_inv_def workers_def split: if_splits)
qed

lemma reach_worker: "pool_reach c n s \<Longrightarrow> usize_config c \<Longrightarrow> worker_inv s"
proof (induction rule: pool_reach.induct)
  case reach_start
  have "filter starting (replicate n Ready) = []" by (induction n) auto
  then show ?case by (simp add: worker_inv_def workers_def system_start_def WarmPool_new_def Let_def)
next
  case (reach_step s e s')
  then have "config_inv c (shared s)" "config_inv c (shared s')"
    using reach_config pool_reach.reach_step by blast+
  then show ?case using system_step_worker [OF reach_step(2)] reach_step by (simp add: config_inv_def)
qed

subsection \<open>No lost wakeup\<close>

text \<open>
  A thread is obliged to wake the worker when it has left the pool outside the watermarks and will
  call \<open>request_maintenance\<close>.
\<close>

fun obliged :: "'r WarmPool \<Rightarrow> 'r pc \<Rightarrow> bool" where
  "obliged p (RequestCheck a) = True"
| "obliged p (RequestLock a) = True"
| "obliged p StartStore = True"
| "obliged p (AcquireGrow r n) = (n < fill_target p)"
| "obliged p (AcquireCompute r n) = (n < fill_target p)"
| "obliged p (ReleaseCompare n) = release_wakes n p"
| "obliged p _ = False"

definition settled :: "'r system \<Rightarrow> bool" where
  "settled s \<longleftrightarrow>
     compute_maintenance_action (shared s) (length (pool (shared s))) = Idle
     \<or> pending (maintenance_signal (shared s))
     \<or> (\<exists>pc\<in>set (threads s). obliged (shared s) pc)"

definition wakeup_inv :: "'r system \<Rightarrow> bool" where
  "wakeup_inv s \<longleftrightarrow> shutting_down (shared s) \<or>
     (case worker s of
        WTop imm \<Rightarrow> imm \<or> settled s
      | WCompute n \<Rightarrow> compute_maintenance_action (shared s) n \<noteq> Idle \<or> settled s
      | _ \<Rightarrow> True)"

lemma obliged_grows: "obliged p pc \<Longrightarrow> control_grows p q \<Longrightarrow> obliged q pc"
  by (cases pc) (auto simp: control_grows_def release_wakes_def)

lemma Idle_ok:
  "watermarks_ok p \<Longrightarrow> compute_maintenance_action p n = Idle \<longleftrightarrow> fill_target p \<le> n \<and> n \<le> high_watermark (pool_config p)"
  by (simp add: action_Idle current_fill_target_ok)

lemma not_Idle_grows:
  "compute_maintenance_action p n \<noteq> Idle \<Longrightarrow> control_grows p q \<Longrightarrow> watermarks_ok p \<Longrightarrow> compute_maintenance_action q n \<noteq> Idle"
  using control_grows_ok [of p q] by (auto simp: Idle_ok control_grows_def)

lemma grow_obliges:
  assumes "watermarks_ok p" "usize_config (pool_config p)"
  shows "obliged p (AcquireGrow r n) \<Longrightarrow> obliged (grow_fill_target_after_pressure n p) (AcquireCompute r n)"
    and "fill_target (grow_fill_target_after_pressure n p) \<noteq> fill_target p \<Longrightarrow> n < fill_target (grow_fill_target_after_pressure n p)"
  using grow_target [OF assms, of n] grow_ok [OF assms, of n] assms(1)
  by (auto simp: watermarks_ok_def split: if_splits)

lemma thread_step_obliged:
  assumes "thread_step ok pc w p = Some (pc', w', p')" "watermarks_ok p" "usize_config (pool_config p)"
    "\<not> shutting_down p'" "stop (maintenance_signal p) \<Longrightarrow> shutting_down p" "maintenance_enabled (pool_config p)"
    "obliged p pc"
  shows "obliged p' pc' \<or> pending (maintenance_signal p')"
  using assms grow_obliges(1) [OF assms(2,3)]
  by (cases pc) (auto simp: is_fill_iff current_fill_target_ok split: if_splits prod.splits)

lemma remove_first_shrinks: "remove_first P xs = (r, ys) \<Longrightarrow> length ys \<le> length xs"
  by (drule remove_first_length) simp

lemma thread_step_settles:
  assumes "thread_step ok pc w p = Some (pc', w', p')" "watermarks_ok p" "usize_config (pool_config p)" "\<not> shutting_down p'"
    "compute_maintenance_action p (length (pool p)) = Idle" "drain_phase pc \<Longrightarrow> shutting_down p" "shutting_down p \<Longrightarrow> shutting_down p'"
  shows "compute_maintenance_action p' (length (pool p')) = Idle \<or> obliged p' pc'"
proof (cases pc)
  case (AcquireLock P)
  then show ?thesis using assms(1-5)
    by (auto simp: acquire_section_def Idle_ok watermarks_ok_def dest!: remove_first_shrinks split: prod.splits)
next
  case (AcquireGrow r n)
  then have p': "p' = grow_fill_target_after_pressure n p" "pc' = AcquireCompute r n" using assms(1) by auto
  then show ?thesis using assms(2,3,5) grow_obliges(2) [OF assms(2,3), of n] grow_ok [OF assms(2,3), of n]
    by (cases "fill_target p' = fill_target p") (auto simp: Idle_ok)
qed (use assms in \<open>auto simp: Idle_ok watermarks_ok_def release_section_def release_wakes_def push_section_def split: if_splits\<close>)

lemma thread_step_pending:
  "thread_step ok pc w p = Some (pc', w', p') \<Longrightarrow> pending (maintenance_signal p) \<Longrightarrow> pending (maintenance_signal p')"
  by (cases pc) (auto simp: acquire_section_def release_section_def push_section_def drain_section_def stop_section_def
        split: if_splits prod.splits)

lemma thread_step_same_worker:
  "thread_step ok pc w p = Some (pc', w', p') \<Longrightarrow> w' = w \<or> w' = WTop False \<and> pc' = StartStore"
  by (cases pc) (auto split: if_splits prod.splits option.splits)

lemma settled_update:
  assumes "settled s" "i < length (threads s)" "\<not> obliged (shared s) (threads s ! i)"
  shows "settled (s\<lparr>threads := (threads s)[i := pc], given := g, taken := t\<rparr>)"
proof -
  have "\<exists>q\<in>set ((threads s)[i := pc]). obliged (shared s) q" if "\<exists>q\<in>set (threads s). obliged (shared s) q"
  proof -
    obtain j where "j < length (threads s)" "obliged (shared s) (threads s ! j)" using \<open>\<exists>q\<in>set (threads s). _ q\<close> by (auto simp: in_set_conv_nth)
    moreover then have "j \<noteq> i" using assms(3) by blast
    ultimately show ?thesis by (intro bexI [of _ "threads s ! j"]) (auto simp: in_set_conv_nth intro!: exI [of _ j])
  qed
  then show ?thesis using assms(1) by (auto simp: settled_def)
qed

lemma thread_step_settled:
  assumes step: "system_step (Run i b) s = Some s'" and "config_inv c (shared s)" "usize_config c" "shutdown_inv s"
    and en: "maintenance_enabled (pool_config (shared s))" and ns: "\<not> shutting_down (shared s')" and "settled s"
  shows "settled s'"
proof -
  obtain pc w where t: "i < length (threads s)" "thread_step b (threads s ! i) (worker s) (shared s) = Some (pc, w, shared s')"
    and s': "threads s' = (threads s)[i := pc]"
    using step by (auto split: if_splits option.splits)
  have ok: "watermarks_ok (shared s)" "usize_config (pool_config (shared s))" using assms(2,3) by (auto simp: config_inv_def)
  have st: "stop (maintenance_signal (shared s)) \<Longrightarrow> shutting_down (shared s)"
    and dr: "drain_phase (threads s ! i) \<Longrightarrow> shutting_down (shared s)" using assms(4) t(1) by (auto simp: shutdown_inv_def)
  have mono: "shutting_down (shared s) \<Longrightarrow> shutting_down (shared s')" using thread_step_shutdown [OF t(2) st dr] by blast
  have new: "pc \<in> set (threads s')" using t(1) s' by (simp add: set_update_memI)
  from \<open>settled s\<close> consider "compute_maintenance_action (shared s) (length (pool (shared s))) = Idle"
    | "pending (maintenance_signal (shared s))" | j where "j < length (threads s)" "obliged (shared s) (threads s ! j)"
    by (auto simp: settled_def in_set_conv_nth)
  then show ?thesis
  proof cases
    case 1
    then show ?thesis using thread_step_settles [OF t(2) ok ns 1 dr mono] new by (auto simp: settled_def)
  next
    case 2
    then show ?thesis using thread_step_pending [OF t(2)] by (simp add: settled_def)
  next
    case (3 j)
    show ?thesis
    proof (cases "j = i")
      case True
      then show ?thesis using thread_step_obliged [OF t(2) ok ns st en] 3 new by (auto simp: settled_def)
    next
      case False
      then have "threads s ! j \<in> set (threads s')" using 3 s' by (auto simp: in_set_conv_nth intro!: exI [of _ j])
      then show ?thesis using obliged_grows [OF 3(2) thread_step_grows [OF t(2) ok]] by (auto simp: settled_def)
    qed
  qed
qed

lemma wakeup_inv_quiet: "wakeup_inv s \<Longrightarrow> (settled s \<Longrightarrow> settled s') \<Longrightarrow> worker s' = worker s \<Longrightarrow> shared s' = shared s \<Longrightarrow> wakeup_inv s'"
  by (auto simp: wakeup_inv_def split: wpc.splits)

lemma system_step_wakeup:
  assumes "system_step e s = Some s'" "config_inv c (shared s)" "usize_config c" "shutdown_inv s" "worker_inv s" "wakeup_inv s"
  shows "wakeup_inv s'"
proof (cases e)
  case (Call i cl)
  then have q: "i < length (threads s)" "threads s ! i = Ready"
    "s' = s\<lparr>threads := (threads s)[i := call_pc cl], given := given s + call_gives cl, taken := taken s\<rparr>"
    using assms(1) by (auto split: if_splits pc.splits)
  have "settled s'" if "settled s" unfolding q(3) by (rule settled_update [OF that q(1)]) (simp add: q(2))
  then show ?thesis using q(3) by (intro wakeup_inv_quiet [OF assms(6)]) simp_all
next
  case (Ret i)
  then obtain a where q: "i < length (threads s)" "threads s ! i = Return a"
    "s' = s\<lparr>threads := (threads s)[i := Ready], given := given s, taken := taken s + reply_takes a\<rparr>"
    using assms(1) by (auto split: if_splits pc.splits)
  have "settled s'" if "settled s" unfolding q(3) by (rule settled_update [OF that q(1)]) (simp add: q(2))
  then show ?thesis using q(3) by (intro wakeup_inv_quiet [OF assms(6)]) simp_all
next
  case (Run i b)
  then obtain pc where t: "i < length (threads s)" "thread_step b (threads s ! i) (worker s) (shared s) = Some (pc, worker s', shared s')"
    and s': "threads s' = (threads s)[i := pc]"
    using assms(1) by (auto split: if_splits option.splits)
  have ok: "watermarks_ok (shared s)" "usize_config (pool_config (shared s))" using assms(2,3) by (auto simp: config_inv_def)
  have gr: "control_grows (shared s) (shared s')" using thread_step_grows [OF t(2) ok] .
  have mono: "shutting_down (shared s) \<Longrightarrow> shutting_down (shared s')"
    using thread_step_shutdown [OF t(2)] assms(4) t(1) by (auto simp: shutdown_inv_def)
  have en: "maintenance_enabled (pool_config (shared s))" if "worker s \<noteq> WNone"
    using assms(5) that by (auto simp: worker_inv_def workers_def split: if_splits)
  have keep: "settled s'" if "settled s" "worker s \<noteq> WNone" "\<not> shutting_down (shared s')"
    using thread_step_settled [OF assms(1) [unfolded Run] assms(2-4) en] that by blast
  from thread_step_same_worker [OF t(2)] show ?thesis
  proof
    assume "worker s' = worker s"
    then show ?thesis using assms(6) keep mono not_Idle_grows [OF _ gr ok(1)]
      by (auto simp: wakeup_inv_def split: wpc.splits)
  next
    assume "worker s' = WTop False \<and> pc = StartStore"
    moreover then have "StartStore \<in> set (threads s')" using t(1) s' by (simp add: set_update_memI)
    then have "settled s'" unfolding settled_def by (intro disjI2 bexI [of _ StartStore]) simp_all
    ultimately show ?thesis by (simp add: wakeup_inv_def)
  qed
next
  case Worker
  then have t: "worker_step (worker s) (shared s) = Some (worker s', shared s')" and "threads s' = threads s"
    using assms(1) by (auto split: option.splits)
  then show ?thesis using assms(6)
    by (cases "worker s") (auto simp: wakeup_inv_def settled_def split: if_splits wpc.splits)
qed (use assms(1) in \<open>auto simp: wakeup_inv_def split: if_splits prod.splits sum.splits option.splits\<close>)

lemma reach_wakeup: "pool_reach c n s \<Longrightarrow> usize_config c \<Longrightarrow> wakeup_inv s"
proof (induction rule: pool_reach.induct)
  case reach_start
  then show ?case by (simp add: wakeup_inv_def system_start_def)
next
  case (reach_step s e s')
  then show ?case using system_step_wakeup [OF reach_step(2) reach_config reach_step(4) reach_shutdown reach_worker] by blast
qed

subsection \<open>The bound of a pool without maintenance\<close>

definition bound_inv :: "'r WarmPool \<Rightarrow> bool" where
  "bound_inv p \<longleftrightarrow> maintenance_enabled (pool_config p) \<or> length (pool p) \<le> high_watermark (pool_config p)"

lemma thread_step_bound:
  "thread_step ok pc w p = Some (pc', w', p') \<Longrightarrow> bound_inv p \<Longrightarrow> bound_inv p'"
  by (cases pc) (auto simp: bound_inv_def acquire_section_def release_section_def push_section_def drain_section_def stop_section_def
        dest!: remove_first_shrinks split: if_splits prod.splits)

lemma system_step_bound:
  assumes "system_step e s = Some s'" "bound_inv (shared s)"
  shows "bound_inv (shared s')"
proof (cases e)
  case (Run i b)
  then show ?thesis using assms thread_step_bound by (fastforce split: if_splits option.splits)
next
  case Worker
  then show ?thesis using assms worker_step_control by (fastforce simp: bound_inv_def same_control_def split: option.splits)
next
  case (WorkerPush r)
  then show ?thesis using assms
    by (auto simp: bound_inv_def split: if_splits prod.splits sum.splits elim!: try_push_bounded_cases)
next
  case WorkerDrain
  then show ?thesis using assms
    by (auto simp: bound_inv_def split: if_splits prod.splits option.splits elim!: try_drain_one_cases)
qed (use assms in \<open>auto split: if_splits pc.splits\<close>)

lemma reach_bound: "pool_reach c n s \<Longrightarrow> bound_inv (shared s)"
  by (induction rule: pool_reach.induct)
    (auto intro: system_step_bound, auto simp: bound_inv_def system_start_def WarmPool_new_def Let_def)

subsection \<open>Joining the worker\<close>

fun past_signal :: "'r pc \<Rightarrow> bool" where
  "past_signal DrainTake = True"
| "past_signal DrainJoin = True"
| "past_signal _ = False"

fun needs_worker :: "'r pc \<Rightarrow> bool" where
  "needs_worker DrainJoin = True"
| "needs_worker StartStore = True"
| "needs_worker _ = False"

definition join_inv :: "'r system \<Rightarrow> bool" where
  "join_inv s \<longleftrightarrow>
     (\<forall>pc\<in>set (threads s). past_signal pc \<longrightarrow> stop (maintenance_signal (shared s)))
     \<and> (\<forall>pc\<in>set (threads s). needs_worker pc \<longrightarrow> worker s \<noteq> WNone)
     \<and> (maintenance_worker (shared s) \<longrightarrow> worker s \<noteq> WNone)"

lemma phase_call [simp]: "\<not> past_signal (call_pc c)" "\<not> needs_worker (call_pc c)"
  by (cases c; simp)+

lemma thread_step_join:
  assumes "thread_step ok pc w p = Some (pc', w', p')"
    and "past_signal pc \<Longrightarrow> stop (maintenance_signal p)" "needs_worker pc \<Longrightarrow> w \<noteq> WNone" "maintenance_worker p \<Longrightarrow> w \<noteq> WNone"
  shows "(past_signal pc' \<longrightarrow> stop (maintenance_signal p')) \<and> (needs_worker pc' \<longrightarrow> w' \<noteq> WNone) \<and> (maintenance_worker p' \<longrightarrow> w' \<noteq> WNone)
    \<and> (stop (maintenance_signal p) \<longrightarrow> stop (maintenance_signal p')) \<and> (w \<noteq> WNone \<longrightarrow> w' \<noteq> WNone)"
  using assms
  by (cases pc) (auto simp: acquire_section_def release_section_def push_section_def drain_section_def stop_section_def
        split: if_splits prod.splits)

lemma worker_step_join:
  "worker_step w p = Some (w', p') \<Longrightarrow> w' \<noteq> WNone \<and> maintenance_worker p' = maintenance_worker p"
  by (cases w) (auto split: if_splits)

lemma system_step_join:
  assumes "system_step e s = Some s'" "join_inv s"
  shows "join_inv s'"
proof (cases e)
  case (Call i c)
  then show ?thesis using assms set_update_subset_insert [of "threads s" i "call_pc c"]
    by (fastforce simp: join_inv_def split: if_splits pc.splits)
next
  case (Ret i)
  then show ?thesis using assms set_update_subset_insert [of "threads s" i Ready]
    by (fastforce simp: join_inv_def split: if_splits pc.splits)
next
  case (Run i b)
  then obtain pc w p where t: "i < length (threads s)" "thread_step b (threads s ! i) (worker s) (shared s) = Some (pc, w, p)"
    and s': "threads s' = (threads s)[i := pc]" "shared s' = p" "worker s' = w"
    using assms(1) by (auto split: if_splits option.splits)
  have "threads s ! i \<in> set (threads s)" using t(1) by simp
  then have "(past_signal pc \<longrightarrow> stop (maintenance_signal p)) \<and> (needs_worker pc \<longrightarrow> w \<noteq> WNone) \<and> (maintenance_worker p \<longrightarrow> w \<noteq> WNone)
    \<and> (stop (maintenance_signal (shared s)) \<longrightarrow> stop (maintenance_signal p)) \<and> (worker s \<noteq> WNone \<longrightarrow> w \<noteq> WNone)"
    using assms(2) by (intro thread_step_join [OF t(2)]) (auto simp: join_inv_def)
  then show ?thesis using assms(2) s' set_update_subset_insert [of "threads s" i pc] by (auto simp: join_inv_def)
next
  case Worker
  then show ?thesis using assms worker_step_join worker_step_shutdown
    by (fastforce simp: join_inv_def split: option.splits)
next
  case (WorkerPush r)
  then show ?thesis using assms
    by (auto simp: join_inv_def split: if_splits prod.splits sum.splits elim!: try_push_bounded_cases)
next
  case WorkerDrain
  then show ?thesis using assms
    by (auto simp: join_inv_def split: if_splits prod.splits option.splits elim!: try_drain_one_cases)
next
  case WorkerDone
  then show ?thesis using assms by (auto simp: join_inv_def split: if_splits)
qed

lemma reach_join: "pool_reach c n s \<Longrightarrow> join_inv s"
  by (induction rule: pool_reach.induct)
    (auto intro: system_step_join, auto simp: join_inv_def system_start_def WarmPool_new_def Let_def)

lemma system_run_drained:
  "system_run es s = Some s' \<Longrightarrow> drained s \<Longrightarrow> drained s'"
proof (induction es s rule: system_run.induct)
  case (2 e es s)
  then obtain t where t: "system_step e s = Some t" "system_run es t = Some s'" by (auto split: option.splits)
  have "drained t" using t(1) 2(3)
    by (cases e) (auto split: if_splits option.splits pc.splits prod.splits sum.splits)
  then show ?case using 2(1) t by blast
qed simp

section \<open>Properties of the pool\<close>

text \<open>
  C6. No wakeup of the maintenance worker is lost: in every reachable state of any number of threads that
  acquire, release, push, request maintenance, start the worker or shut the pool down, if no thread is
  inside a call, the pool is not shutting down and the worker waits with no work pending, then the
  number of idle resources is between the refill target and the high watermark.
\<close>

theorem warm_pool_no_lost_wakeup:
  fixes s :: "'r system"
  assumes "pool_reach c n s" "usize_config c"
    and "\<forall>pc\<in>set (threads s). pc = Ready" "\<not> shutting_down (shared s)"
    and "worker s = WTop False" "\<not> pending (maintenance_signal (shared s))"
  shows "fill_target (shared s) \<le> length (pool (shared s)) \<and> length (pool (shared s)) \<le> high_watermark c"
proof -
  have "\<not> (\<exists>pc\<in>set (threads s). obliged (shared s) pc)" using assms(3) by auto
  moreover have "settled s" using reach_wakeup [OF assms(1,2)] assms(4,5) by (simp add: wakeup_inv_def)
  ultimately have "compute_maintenance_action (shared s) (length (pool (shared s))) = Idle" using assms(6) by (simp add: settled_def)
  then show ?thesis using reach_config [OF assms(1,2)] by (simp add: config_inv_def Idle_ok)
qed

definition sample_config :: PoolConfig where
  "sample_config = \<lparr>low_watermark = 1, high_watermark = 2, maintenance_enabled = True, startup_prewarm = True\<rparr>"

text \<open>Start the worker, let it create one resource, and let a thread take it.\<close>

definition sample_events :: "nat event list" where
  "sample_events =
     [Call 0 CallStart, Run 0 True, Run 0 True, Run 0 True, Run 0 True, Run 0 True, Ret 0,
      Worker, Worker, WorkerPush 7, WorkerDone, Worker, Worker, Worker,
      Call 0 (CallAcquire (\<lambda>_. True)), Run 0 True, Run 0 True, Run 0 True, Run 0 True, Run 0 True, Run 0 True, Ret 0,
      Worker, Worker, WorkerPush 8, WorkerPush 9, WorkerDone, Worker, Worker, Worker]"

definition sample_end :: "nat system" where
  "sample_end =
     \<lparr>shared = \<lparr>pool = [8, 9], pool_config = sample_config, fill_target = 2,
        maintenance_signal = \<lparr>pending = False, stop = False\<rparr>, maintenance_worker = True, maintenance_started = True,
        shutting_down = False\<rparr>,
      worker = WTop False, threads = [Ready], given = {#7, 8, 9#}, taken = {#7#}, drained = False\<rparr>"

lemmas warm_pool_defs =
  system_start_def WarmPool_new_def PoolConfig_validate_def request_section_def try_push_bounded_def push_section_def
  compute_maintenance_action_def current_fill_target_def acquire_section_def grow_fill_target_after_pressure_def
  usize_saturating_mul_def is_fill_def release_section_def release_wakes_def stop_section_def drain_section_def

lemma sample_runs: "system_run sample_events (system_start sample_config 1) = Some sample_end"
  by (simp add: sample_events_def sample_end_def sample_config_def warm_pool_defs)

lemma sample_reach: "pool_reach sample_config 1 sample_end"
  using system_run_reach [OF sample_runs reach_start] .

lemma sample_usize: "usize_config sample_config"
  by (simp add: usize_config_def sample_config_def)

theorem warm_pool_no_lost_wakeup_witness:
  "pool_reach sample_config 1 sample_end \<and> worker sample_end = WTop False
   \<and> fill_target (shared sample_end) \<le> length (pool (shared sample_end))
   \<and> length (pool (shared sample_end)) \<le> high_watermark sample_config"
  using warm_pool_no_lost_wakeup [OF sample_reach sample_usize] sample_reach by (simp add: sample_end_def)

text \<open>
  C14. Resources are conserved: in every reachable state the resources handed to the pool are, with
  multiplicity, those it has handed out, those idle in the pool and those carried by calls in progress.
\<close>

theorem warm_pool_conserves:
  assumes "pool_reach c n s"
  shows "given s = taken s + mset (pool (shared s)) + all_in_flight (threads s)"
  using reach_conserves [OF assms] by (simp add: conserved_def)

theorem warm_pool_conserves_witness:
  "pool_reach sample_config 1 sample_end
   \<and> {#7, 8, 9#} = taken sample_end + mset (pool (shared sample_end)) + all_in_flight (threads sample_end)"
  using warm_pool_conserves [OF sample_reach] sample_reach by (simp add: sample_end_def)

text \<open>
  C15. A drained pool stays empty: once some \<open>drain_all\<close> has taken the idle resources, no later step of
  any thread or of the worker, releases and refills that raced with the shutdown included, puts a
  resource into the pool again.
\<close>

theorem warm_pool_stays_drained:
  assumes "pool_reach c n s" "drained s" "system_run es s = Some s'"
  shows "pool (shared s') = [] \<and> shutting_down (shared s')"
  using reach_shutdown [OF system_run_reach [OF assms(3,1)]] system_run_drained [OF assms(3,2)]
  by (simp add: shutdown_inv_def)

text \<open>Two releases pass their first check; \<open>drain_all\<close> runs between their sections.\<close>

definition racing_events :: "nat event list" where
  "racing_events =
     [Call 0 (CallRelease 5), Call 1 (CallRelease 6), Run 0 True, Run 1 True, Run 0 True,
      Call 2 CallDrainAll, Run 2 True, Run 2 True, Run 2 True]"

definition racing_state :: "nat system" where
  "racing_state = the (system_run racing_events (system_start sample_config 3))"

lemma racing_runs: "system_run racing_events (system_start sample_config 3) = Some racing_state"
  by (simp add: racing_state_def racing_events_def sample_config_def warm_pool_defs eval_nat_numeral)

lemma racing_reach: "pool_reach sample_config 3 racing_state"
  using system_run_reach [OF racing_runs reach_start] .

lemma racing_drained:
  "drained racing_state \<and> (\<exists>s'. system_run [Run 1 True, Run 0 True] racing_state = Some s' \<and> threads s' ! 1 = Return (Refused 6))"
  by (simp add: racing_state_def racing_events_def sample_config_def warm_pool_defs eval_nat_numeral)

theorem warm_pool_stays_drained_witness:
  "\<exists>s'. system_run [Run 1 True, Run 0 True] racing_state = Some s' \<and> threads s' ! 1 = Return (Refused 6)
     \<and> pool (shared s') = [] \<and> shutting_down (shared s')"
  using racing_drained warm_pool_stays_drained [OF racing_reach, of "[Run 1 True, Run 0 True]"] by blast

text \<open>
  C16. \<open>drain_all\<close> can always join the worker: whenever a thread waits in the join, the worker leaves its loop
  within six of its own steps, whatever \<open>run_cycle\<close> does to the pool, as long as it leaves the shutdown flag
  and the stop signal alone.
\<close>

theorem drain_all_joins_worker:
  assumes "pool_reach c n s" "DrainJoin \<in> set (threads s)"
    and "\<forall>p. shutting_down (run_cycle p) = shutting_down p \<and> maintenance_signal (run_cycle p) = maintenance_signal p"
  shows "\<exists>p. maintenance_worker_loop 6 run_cycle (worker s) (shared s) = Some (WExit, p)"
proof -
  have "shutting_down (shared s)" "stop (maintenance_signal (shared s))" "worker s \<noteq> WNone"
    using reach_shutdown [OF assms(1)] reach_join [OF assms(1)] assms(2) by (force simp: shutdown_inv_def join_inv_def)+
  then show ?thesis using assms(3) by (cases "worker s") (simp_all add: eval_nat_numeral)
qed

definition joining_events :: "nat event list" where
  "joining_events = take 7 sample_events @ [Worker, Worker, Call 0 CallDrainAll, Run 0 True, Run 0 True, Run 0 True, Run 0 True]"

definition joining_state :: "nat system" where
  "joining_state = the (system_run joining_events (system_start sample_config 1))"

lemma joining_runs: "system_run joining_events (system_start sample_config 1) = Some joining_state"
  by (simp add: joining_state_def joining_events_def sample_events_def sample_config_def warm_pool_defs eval_nat_numeral)

lemma joining_reach: "pool_reach sample_config 1 joining_state"
  using system_run_reach [OF joining_runs reach_start] .

lemma joining_waits: "DrainJoin \<in> set (threads joining_state)" "worker joining_state = WRun"
  by (simp_all add: joining_state_def joining_events_def sample_events_def sample_config_def warm_pool_defs eval_nat_numeral)

theorem drain_all_joins_worker_witness:
  "worker joining_state = WRun
   \<and> (\<exists>p. maintenance_worker_loop 6 (\<lambda>p. snd (try_drain_one p)) WRun (shared joining_state) = Some (WExit, p))"
proof -
  have "\<forall>p::nat WarmPool. shutting_down (snd (try_drain_one p)) = shutting_down p
      \<and> maintenance_signal (snd (try_drain_one p)) = maintenance_signal p"
    by (auto simp: try_drain_one_def split: list.split)
  then show ?thesis using drain_all_joins_worker [OF joining_reach joining_waits(1)] joining_waits(2) by fastforce
qed

end
