(* ===== verification/Network_Slots.thy ===== *)
theory Network_Slots
  imports Warm_Pool_Threads
begin

text \<open>
  Network slots: the checked configuration of \<^verbatim>\<open>cfg/network.rs\<close>, the address plan of
  \<^verbatim>\<open>sandbox/network/address_plan.rs\<close>, slots of \<^verbatim>\<open>slot.rs\<close> and the manager of \<^verbatim>\<open>manager.rs\<close>, which composes the
  plan, a bitmap of indices and the warm pool.

  Parameters: parsing and overlap of networks (\<^verbatim>\<open>ipnetwork\<close>), the choice of a free bit (\<^verbatim>\<open>index_set\<close>), and
  the kernel's part in setting a slot up and tearing it down, a function on a host state. Namespace
  names, logging and conflict reports are left out. The lemmas show that a checked plan gives slots
  disjoint addresses, that every bit has one owner, and when the maintenance worker comes to rest.
\<close>

section \<open>Address plan\<close>

text \<open>
  A network of the \<^verbatim>\<open>ipnetwork\<close> crate is the values of its accessors: the network address, the number of
  addresses and the prefix length. Parsing and the overlap test are functions of that crate and stay
  parameters.
\<close>

record Ipv4Network =
  net_network :: nat
  net_size :: nat
  net_prefix :: nat

definition NETWORK_MAX_SLOTS :: nat where
  "NETWORK_MAX_SLOTS = 32768"

record ipnetwork_crate =
  parse_network :: "string \<Rightarrow> Ipv4Network option"
  overlaps :: "Ipv4Network \<Rightarrow> Ipv4Network \<Rightarrow> bool"

record NetworkConfig =
  always_denied_cidrs :: "string list"
  cfg_host_interaction_cidr :: string
  cfg_veth_cidr :: string

record NetworkAddressPlan =
  host_interaction_cidr :: Ipv4Network
  veth_cidr :: Ipv4Network
  vm_link_cidr :: Ipv4Network

definition FIXED_NETWORK_VM_LINK_CIDR :: string where
  "FIXED_NETWORK_VM_LINK_CIDR = ''169.254.0.20/30''"

fun first_overlap :: "ipnetwork_crate \<Rightarrow> (Ipv4Network \<times> Ipv4Network) list \<Rightarrow> bool" where
  "first_overlap ipn [] = False"
| "first_overlap ipn ((left, right) # ps) = (if overlaps ipn left right then True else first_overlap ipn ps)"

definition resolved_internal :: "ipnetwork_crate \<Rightarrow> NetworkConfig \<Rightarrow> error + NetworkAddressPlan" where
  "resolved_internal ipn cfg =
     (case parse_network ipn (cfg_host_interaction_cidr cfg) of
        None \<Rightarrow> Inl (Err ''invalid network.internal.host_interaction_cidr'')
      | Some host \<Rightarrow>
     (case parse_network ipn (cfg_veth_cidr cfg) of
        None \<Rightarrow> Inl (Err ''invalid network.internal.veth_cidr'')
      | Some veth \<Rightarrow>
     (case parse_network ipn FIXED_NETWORK_VM_LINK_CIDR of
        None \<Rightarrow> Inl (Err ''invalid fixed VM link CIDR'')
      | Some link \<Rightarrow>
          if net_prefix link \<noteq> 30 then Inl (Err ''fixed VM link CIDR must be a /30 network'')
          else if net_size host < NETWORK_MAX_SLOTS then Inl (Err ''host_interaction_cidr too small'')
          else if net_size veth < NETWORK_MAX_SLOTS * 2 then Inl (Err ''veth_cidr too small'')
          else if first_overlap ipn [(host, veth), (host, link), (veth, link)] then Inl (Err ''must not overlap'')
          else Inr \<lparr>host_interaction_cidr = host, veth_cidr = veth, vm_link_cidr = link\<rparr>)))"

fun validate_denied :: "ipnetwork_crate \<Rightarrow> string list \<Rightarrow> error + unit" where
  "validate_denied ipn [] = Inr ()"
| "validate_denied ipn (cidr # cidrs) =
     (case parse_network ipn cidr of
        None \<Rightarrow> Inl (Err ''invalid network.egress.always_denied_cidrs entry'')
      | Some _ \<Rightarrow> validate_denied ipn cidrs)"

definition NetworkConfig_validate :: "ipnetwork_crate \<Rightarrow> NetworkConfig \<Rightarrow> error + unit" where
  "NetworkConfig_validate ipn cfg =
     (case validate_denied ipn (always_denied_cidrs cfg) of
        Inl e \<Rightarrow> Inl e
      | Inr _ \<Rightarrow> (case resolved_internal ipn cfg of Inl e \<Rightarrow> Inl e | Inr _ \<Rightarrow> Inr ()))"

definition network_ip_at :: "Ipv4Network \<Rightarrow> nat \<Rightarrow> error + nat" where
  "network_ip_at network offset =
     (if offset \<ge> net_size network then Inl (Err ''offset is outside network'')
      else Inr (u32_add (net_network network) offset))"

definition slot_ips :: "NetworkAddressPlan \<Rightarrow> nat \<Rightarrow> error + nat \<times> nat \<times> nat" where
  "slot_ips plan idx =
     (case network_ip_at (host_interaction_cidr plan) idx of
        Inl e \<Rightarrow> Inl e
      | Inr host_interaction_ip \<Rightarrow>
          if idx * 2 \<ge> 2 ^ 32 then Inl (Err ''network slot veth offset overflow'')
          else case network_ip_at (veth_cidr plan) (idx * 2) of
            Inl e \<Rightarrow> Inl e
          | Inr veth_host_ip \<Rightarrow>
              (case network_ip_at (veth_cidr plan) (u32_add (idx * 2) 1) of
                 Inl e \<Rightarrow> Inl e
               | Inr veth_vm_ip \<Rightarrow> Inr (host_interaction_ip, veth_host_ip, veth_vm_ip)))"

definition vm_ip :: "NetworkAddressPlan \<Rightarrow> error + nat" where
  "vm_ip plan = (case network_ip_at (vm_link_cidr plan) 1 of Inl _ \<Rightarrow> Inl Panic | Inr ip \<Rightarrow> Inr ip)"

definition tap_ip :: "NetworkAddressPlan \<Rightarrow> error + nat" where
  "tap_ip plan = (case network_ip_at (vm_link_cidr plan) 2 of Inl _ \<Rightarrow> Inl Panic | Inr ip \<Rightarrow> Inr ip)"

subsection \<open>Addresses of a validated plan\<close>

definition net_range :: "Ipv4Network \<Rightarrow> nat set" where
  "net_range n = {net_network n..<net_network n + net_size n}"

text \<open>
  What the development relies on of the crate: a parsed network lies in the 32-bit address space, a
  network of prefix 30 has four addresses, and two networks that do not overlap have no address in common.
\<close>

definition ipnetwork_ok :: "ipnetwork_crate \<Rightarrow> bool" where
  "ipnetwork_ok ipn \<longleftrightarrow>
     (\<forall>t n. parse_network ipn t = Some n \<longrightarrow> net_network n + net_size n \<le> 2 ^ 32 \<and> (net_prefix n = 30 \<longrightarrow> net_size n = 4))
     \<and> (\<forall>t u m n. parse_network ipn t = Some m \<longrightarrow> parse_network ipn u = Some n \<longrightarrow>
          \<not> overlaps ipn m n \<longrightarrow> net_range m \<inter> net_range n = {})"

definition plan_ok :: "NetworkAddressPlan \<Rightarrow> bool" where
  "plan_ok plan \<longleftrightarrow>
     (\<forall>n\<in>{host_interaction_cidr plan, veth_cidr plan, vm_link_cidr plan}. net_network n + net_size n \<le> 2 ^ 32)
     \<and> NETWORK_MAX_SLOTS \<le> net_size (host_interaction_cidr plan) \<and> NETWORK_MAX_SLOTS * 2 \<le> net_size (veth_cidr plan)
     \<and> net_size (vm_link_cidr plan) = 4
     \<and> net_range (host_interaction_cidr plan) \<inter> net_range (veth_cidr plan) = {}
     \<and> net_range (host_interaction_cidr plan) \<inter> net_range (vm_link_cidr plan) = {}
     \<and> net_range (veth_cidr plan) \<inter> net_range (vm_link_cidr plan) = {}"

lemma resolved_plan_ok:
  assumes "ipnetwork_ok ipn" "resolved_internal ipn cfg = Inr plan"
  shows "plan_ok plan"
proof -
  obtain host veth link where p: "parse_network ipn (cfg_host_interaction_cidr cfg) = Some host"
    "parse_network ipn (cfg_veth_cidr cfg) = Some veth" "parse_network ipn FIXED_NETWORK_VM_LINK_CIDR = Some link"
    and plan: "plan = \<lparr>host_interaction_cidr = host, veth_cidr = veth, vm_link_cidr = link\<rparr>"
    and c: "net_prefix link = 30" "NETWORK_MAX_SLOTS \<le> net_size host" "NETWORK_MAX_SLOTS * 2 \<le> net_size veth"
    "\<not> overlaps ipn host veth" "\<not> overlaps ipn host link" "\<not> overlaps ipn veth link"
    using assms(2) by (auto simp: resolved_internal_def split: option.splits if_splits)
  have d: "net_range m \<inter> net_range n = {}" if "parse_network ipn t = Some m" "parse_network ipn u = Some n" "\<not> overlaps ipn m n" for t u m n
    using assms(1) that unfolding ipnetwork_ok_def by blast
  have e: "net_network n + net_size n \<le> 2 ^ 32" "net_prefix n = 30 \<Longrightarrow> net_size n = 4" if "parse_network ipn t = Some n" for t n
    using assms(1) that unfolding ipnetwork_ok_def by blast+
  show ?thesis using d [OF p(1,2) c(4)] d [OF p(1,3) c(5)] d [OF p(2,3) c(6)] e(1) [OF p(1)] e(1) [OF p(2)] e [OF p(3)] c(1-3)
    unfolding plan_ok_def plan by simp
qed

lemma network_ip_at_ok:
  "offset < net_size n \<Longrightarrow> net_network n + net_size n \<le> 2 ^ 32 \<Longrightarrow> network_ip_at n offset = Inr (net_network n + offset)"
  by (simp add: network_ip_at_def nowrap)

lemma slot_ips_ok:
  assumes "plan_ok plan" "idx < NETWORK_MAX_SLOTS"
  shows "slot_ips plan idx =
    Inr (net_network (host_interaction_cidr plan) + idx, net_network (veth_cidr plan) + idx * 2, net_network (veth_cidr plan) + (idx * 2 + 1))"
proof -
  have "idx < net_size (host_interaction_cidr plan)" "idx * 2 + 1 < net_size (veth_cidr plan)" "idx * 2 + 1 < 2 ^ 32"
    using assms by (auto simp: plan_ok_def NETWORK_MAX_SLOTS_def)
  moreover then have "u32_add (idx * 2) 1 = idx * 2 + 1" by (simp add: nowrap)
  ultimately show ?thesis using assms(1) by (simp add: slot_ips_def network_ip_at_ok plan_ok_def)
qed

lemma distinct_across:
  assumes "A \<inter> B = {}" "A \<inter> C = {}" "B \<inter> C = {}" "set as \<subseteq> A" "set bs \<subseteq> B" "set cs \<subseteq> C" "distinct as" "distinct bs" "distinct cs"
  shows "distinct (cs @ as @ bs)"
  using assms by auto

definition ips_of :: "nat \<times> nat \<times> nat \<Rightarrow> nat list" where
  "ips_of t = (case t of (a, b, c) \<Rightarrow> [a, b, c])"

lemma distinct_two_slots:
  "distinct ([l, m] @ [h, k] @ [v, w, x, y]) \<Longrightarrow> distinct ([l, m] @ ips_of (h, v, w) @ ips_of (k, x, y))"
  by (auto simp: ips_of_def)

lemma plan_addresses:
  assumes ok: "plan_ok plan" and "i < NETWORK_MAX_SLOTS" "j < NETWORK_MAX_SLOTS" "i \<noteq> j"
  shows "\<exists>s t v w. slot_ips plan i = Inr s \<and> slot_ips plan j = Inr t \<and> vm_ip plan = Inr v \<and> tap_ip plan = Inr w
    \<and> distinct ([v, w] @ ips_of s @ ips_of t)"
proof -
  let ?h = "host_interaction_cidr plan" and ?v = "veth_cidr plan" and ?l = "vm_link_cidr plan"
  have vm: "vm_ip plan = Inr (net_network ?l + 1)" "tap_ip plan = Inr (net_network ?l + 2)"
    using ok by (simp_all add: plan_ok_def vm_ip_def tap_ip_def network_ip_at_ok)
  have h: "set [net_network ?h + i, net_network ?h + j] \<subseteq> net_range ?h" and l: "set [net_network ?l + 1, net_network ?l + 2] \<subseteq> net_range ?l"
    using ok assms(2,3) by (auto simp: plan_ok_def net_range_def)
  have v: "set [net_network ?v + i * 2, net_network ?v + (i * 2 + 1), net_network ?v + j * 2, net_network ?v + (j * 2 + 1)] \<subseteq> net_range ?v"
    using ok assms(2,3) by (auto simp: plan_ok_def net_range_def)
  have sep: "net_range ?h \<inter> net_range ?v = {}" "net_range ?h \<inter> net_range ?l = {}" "net_range ?v \<inter> net_range ?l = {}"
    using ok by (simp_all add: plan_ok_def)
  have "i * 2 \<noteq> j * 2 + 1" "j * 2 \<noteq> i * 2 + 1" by presburger+
  then have "distinct ([net_network ?l + 1, net_network ?l + 2] @ [net_network ?h + i, net_network ?h + j]
      @ [net_network ?v + i * 2, net_network ?v + (i * 2 + 1), net_network ?v + j * 2, net_network ?v + (j * 2 + 1)])"
    using assms(4) by (intro distinct_across [OF sep h v l]) auto
  from distinct_two_slots [OF this] show ?thesis
    unfolding slot_ips_ok [OF ok assms(2)] slot_ips_ok [OF ok assms(3)] vm by blast
qed

text \<open>
  C17. Every address plan that the configuration check accepts gives each slot index below the maximum its
  three addresses, the addresses of one slot are distinct, two slots share no address, and none is the
  address of a guest or of its tap device, which exist.
\<close>

theorem slot_addresses_disjoint:
  assumes "ipnetwork_ok ipn" "resolved_internal ipn cfg = Inr plan" "i < NETWORK_MAX_SLOTS" "j < NETWORK_MAX_SLOTS" "i \<noteq> j"
  shows "\<exists>s t v w. slot_ips plan i = Inr s \<and> slot_ips plan j = Inr t \<and> vm_ip plan = Inr v \<and> tap_ip plan = Inr w
    \<and> distinct ([v, w] @ ips_of s @ ips_of t)"
  using plan_addresses [OF resolved_plan_ok [OF assms(1,2)] assms(3-5)] .

text \<open>The default configuration, with the three networks the crate parses.\<close>

definition sample_ipnetwork :: ipnetwork_crate where
  "sample_ipnetwork =
     \<lparr>parse_network = (\<lambda>t.
        if t = ''10.11.0.0/16'' then Some \<lparr>net_network = 168493056, net_size = 65536, net_prefix = 16\<rparr>
        else if t = ''10.12.0.0/16'' then Some \<lparr>net_network = 168558592, net_size = 65536, net_prefix = 16\<rparr>
        else if t = FIXED_NETWORK_VM_LINK_CIDR then Some \<lparr>net_network = 2851995668, net_size = 4, net_prefix = 30\<rparr>
        else None),
      overlaps = (\<lambda>m n. \<not> (net_network m + net_size m \<le> net_network n \<or> net_network n + net_size n \<le> net_network m))\<rparr>"

definition default_network_config :: NetworkConfig where
  "default_network_config = \<lparr>always_denied_cidrs = [], cfg_host_interaction_cidr = ''10.11.0.0/16'', cfg_veth_cidr = ''10.12.0.0/16''\<rparr>"

definition sample_plan :: NetworkAddressPlan where
  "sample_plan =
     \<lparr>host_interaction_cidr = \<lparr>net_network = 168493056, net_size = 65536, net_prefix = 16\<rparr>,
      veth_cidr = \<lparr>net_network = 168558592, net_size = 65536, net_prefix = 16\<rparr>,
      vm_link_cidr = \<lparr>net_network = 2851995668, net_size = 4, net_prefix = 30\<rparr>\<rparr>"

lemma sample_ipnetwork_ok: "ipnetwork_ok sample_ipnetwork"
  unfolding ipnetwork_ok_def sample_ipnetwork_def
  by (intro conjI allI impI) (auto simp: net_range_def split: if_splits)

lemma sample_resolved: "resolved_internal sample_ipnetwork default_network_config = Inr sample_plan"
  by (simp add: resolved_internal_def sample_ipnetwork_def default_network_config_def sample_plan_def FIXED_NETWORK_VM_LINK_CIDR_def
      NETWORK_MAX_SLOTS_def)

theorem slot_addresses_disjoint_witness:
  "resolved_internal sample_ipnetwork default_network_config = Inr sample_plan
   \<and> (\<exists>s t v w. slot_ips sample_plan 1 = Inr s \<and> slot_ips sample_plan 32767 = Inr t \<and> vm_ip sample_plan = Inr v \<and> tap_ip sample_plan = Inr w
      \<and> distinct ([v, w] @ ips_of s @ ips_of t))"
  using slot_addresses_disjoint [OF sample_ipnetwork_ok sample_resolved, of 1 32767] sample_resolved
  by (simp add: NETWORK_MAX_SLOTS_def)

section \<open>Slots\<close>

text \<open>
  The host is a state of its own type. What the kernel does on it, creating the namespace and
  interfaces of a slot, tearing them down and editing the firewall, is a record of functions that also say
  whether they succeed.
\<close>

record 'h kernel =
  k_create_network :: "nat \<Rightarrow> 'h \<Rightarrow> bool \<times> 'h"
  k_cleanup :: "bool \<Rightarrow> nat \<Rightarrow> 'h \<Rightarrow> bool \<times> 'h"
  k_install_iptables :: "'h \<Rightarrow> bool \<times> 'h"
  k_cleanup_iptables :: "'h \<Rightarrow> 'h"

record Slot =
  slot_idx :: nat
  host_interaction_ip :: nat
  veth_host_ip :: nat
  veth_vm_ip :: nat
  cleanup_armed :: bool

definition Slot_new :: "nat \<Rightarrow> NetworkAddressPlan \<Rightarrow> error + Slot" where
  "Slot_new idx plan =
     (if idx = 0 \<or> idx \<ge> NETWORK_MAX_SLOTS then Inl (Err ''SlotOutOfRange'')
      else case slot_ips plan idx of
        Inl e \<Rightarrow> Inl e
      | Inr (hi, vh, vv) \<Rightarrow>
          Inr \<lparr>slot_idx = idx, host_interaction_ip = hi, veth_host_ip = vh, veth_vm_ip = vv, cleanup_armed = False\<rparr>)"

definition create_network :: "'h kernel \<Rightarrow> Slot \<Rightarrow> 'h \<Rightarrow> (bool \<times> Slot) \<times> 'h" where
  "create_network k slot h =
     (let slot = slot\<lparr>cleanup_armed := True\<rparr>; (ok, h) = k_create_network k (slot_idx slot) h in ((ok, slot), h))"

definition Slot_cleanup :: "'h kernel \<Rightarrow> bool \<Rightarrow> Slot \<Rightarrow> 'h \<Rightarrow> (bool \<times> Slot) \<times> 'h" where
  "Slot_cleanup k force_sync slot h =
     (if \<not> cleanup_armed slot then ((True, slot), h)
      else let (ok, h) = k_cleanup k force_sync (slot_idx slot) h in ((ok, slot\<lparr>cleanup_armed := \<not> ok\<rparr>), h))"

definition Slot_drop :: "'h kernel \<Rightarrow> Slot \<Rightarrow> 'h \<Rightarrow> 'h" where
  "Slot_drop k slot h = snd (Slot_cleanup k True slot h)"

section \<open>The network manager\<close>

text \<open>
  The bitmap of allocated slots is a set of indices; which free index \<open>set_next_free_bit\<close> picks is a
  parameter. The flag of the installed host rules, a static of the source, is a field.
\<close>

record 'h NetworkManager =
  allocated :: "nat set"
  slot_pool :: "Slot WarmPool"
  address_plan :: NetworkAddressPlan
  manager_shutting_down :: bool
  host_iptables_installed :: bool
  host :: 'h

abbreviation on_host :: "('h \<Rightarrow> 'h) \<Rightarrow> 'h NetworkManager \<Rightarrow> 'h NetworkManager" where
  "on_host f m \<equiv> m\<lparr>host := f (host m)\<rparr>"

definition ERR_SHUTTING_DOWN :: error where
  "ERR_SHUTTING_DOWN = Err ''Network manager is shutting down''"

definition release_slot_bit :: "nat \<Rightarrow> 'h NetworkManager \<Rightarrow> (unit, 'h NetworkManager) outcome" where
  "release_slot_bit idx m =
     (if idx = 0 \<or> idx \<ge> NETWORK_MAX_SLOTS then (Inl (Err ''Slot index out of range''), m)
      else if idx \<in> allocated m then (Inr (), m\<lparr>allocated := allocated m - {idx}\<rparr>)
      else (Inl (Err ''Slot not allocated''), m))"

definition cleanup_slot_and_release_bit_inner ::
    "'h kernel \<Rightarrow> Slot \<Rightarrow> bool \<Rightarrow> 'h NetworkManager \<Rightarrow> (unit, 'h NetworkManager) outcome" where
  "cleanup_slot_and_release_bit_inner k slot sync_cleanup m =
     (let idx = slot_idx slot;
          ((cleaned, slot), h) = Slot_cleanup k sync_cleanup slot (host m);
          m = m\<lparr>host := h\<rparr>;
          (bit, m) = release_slot_bit idx m;
          m = on_host (Slot_drop k slot) m
      in (case bit of Inl e \<Rightarrow> (Inl e, m) | Inr _ \<Rightarrow> (if cleaned then Inr () else Inl (Err ''cleanup failed''), m)))"

definition cleanup_slot_and_release_bit :: "'h kernel \<Rightarrow> Slot \<Rightarrow> 'h NetworkManager \<Rightarrow> (unit, 'h NetworkManager) outcome" where
  "cleanup_slot_and_release_bit k slot m = cleanup_slot_and_release_bit_inner k slot False m"

definition install_global_host_iptables :: "'h kernel \<Rightarrow> 'h NetworkManager \<Rightarrow> (unit, 'h NetworkManager) outcome" where
  "install_global_host_iptables k m =
     (if host_iptables_installed m then (Inr (), m)
      else let (ok, h) = k_install_iptables k (host m)
           in if ok then (Inr (), m\<lparr>host_iptables_installed := True, host := h\<rparr>)
              else (Inl (Err ''iptables''), m\<lparr>host_iptables_installed := False, host := h\<rparr>))"

definition cleanup_global_host_iptables :: "'h kernel \<Rightarrow> 'h NetworkManager \<Rightarrow> 'h NetworkManager" where
  "cleanup_global_host_iptables k m =
     (if \<not> host_iptables_installed m then m else on_host (k_cleanup_iptables k) (m\<lparr>host_iptables_installed := False\<rparr>))"

text \<open>The four stages of a fresh allocation: the rules, the bit, the kernel setup, and the failed setup.\<close>

definition fresh_rules :: "'h kernel \<Rightarrow> 'h NetworkManager \<Rightarrow> (unit, 'h NetworkManager) outcome" where
  "fresh_rules k m = (if \<not> host_iptables_installed m then install_global_host_iptables k m else (Inr (), m))"

definition fresh_take :: "(nat set \<Rightarrow> nat option) \<Rightarrow> 'h NetworkManager \<Rightarrow> (Slot, 'h NetworkManager) outcome" where
  "fresh_take next_free m =
     (case next_free (allocated m) of
        None \<Rightarrow> (Inl (Err ''No available slots''), m)
      | Some idx \<Rightarrow>
          let m = m\<lparr>allocated := insert idx (allocated m)\<rparr>
          in case Slot_new idx (address_plan m) of Inl _ \<Rightarrow> (Inl Panic, m) | Inr slot \<Rightarrow> (Inr slot, m))"

definition fresh_failed :: "Slot \<Rightarrow> 'h NetworkManager \<Rightarrow> 'h NetworkManager" where
  "fresh_failed slot m = m\<lparr>allocated := allocated m - {slot_idx slot}\<rparr>"

definition allocate_fresh_slot ::
    "(nat set \<Rightarrow> nat option) \<Rightarrow> 'h kernel \<Rightarrow> 'h NetworkManager \<Rightarrow> (Slot, 'h NetworkManager) outcome" where
  "allocate_fresh_slot next_free k m =
     (if manager_shutting_down m then (Inl ERR_SHUTTING_DOWN, m)
      else bindR (fresh_rules k m) (\<lambda>_ m. bindR (fresh_take next_free m) (\<lambda>slot m.
        let ((ok, slot), h) = create_network k slot (host m); m = m\<lparr>host := h\<rparr>
        in if \<not> ok then (Inl (Err ''Failed to create network''), on_host (Slot_drop k slot) (fresh_failed slot m))
           else if manager_shutting_down m then
             bindR (cleanup_slot_and_release_bit k slot m) (\<lambda>_ m. (Inl ERR_SHUTTING_DOWN, m))
           else (Inr slot, m))))"

definition allocate_any ::
    "(nat set \<Rightarrow> nat option) \<Rightarrow> 'h kernel \<Rightarrow> 'h NetworkManager \<Rightarrow> (Slot, 'h NetworkManager) outcome" where
  "allocate_any next_free k m =
     (if manager_shutting_down m then (Inl ERR_SHUTTING_DOWN, m)
      else let (reused, p) = try_acquire (slot_pool m); m = m\<lparr>slot_pool := p\<rparr>
           in case reused of
                Some slot \<Rightarrow>
                  if manager_shutting_down m then (Inl ERR_SHUTTING_DOWN, snd (cleanup_slot_and_release_bit k slot m))
                  else (Inr slot,
                        if length (pool (slot_pool m)) < low_watermark (pool_config (slot_pool m))
                        then m\<lparr>slot_pool := request_maintenance (slot_pool m)\<rparr> else m)
              | None \<Rightarrow> allocate_fresh_slot next_free k m)"

fun fill_loop ::
    "(nat set \<Rightarrow> nat option) \<Rightarrow> 'h kernel \<Rightarrow> nat \<Rightarrow> 'h NetworkManager \<Rightarrow> (unit, 'h NetworkManager) outcome" where
  "fill_loop next_free k 0 m = (Inr (), m)"
| "fill_loop next_free k (Suc to_fill) m =
     (if manager_shutting_down m then (Inr (), m)
      else case allocate_fresh_slot next_free k m of
             (Inl Panic, m) \<Rightarrow> (Inl Panic, m)
           | (Inl _, m) \<Rightarrow> (Inr (), m)
           | (Inr slot, m) \<Rightarrow>
               (case try_push_bounded slot (slot_pool m) of
                  (Inr _, p) \<Rightarrow> fill_loop next_free k to_fill (m\<lparr>slot_pool := p\<rparr>)
                | (Inl slot, p) \<Rightarrow>
                    bindR (cleanup_slot_and_release_bit k slot (m\<lparr>slot_pool := p\<rparr>)) (\<lambda>_ m. fill_loop next_free k to_fill m)))"

fun drain_loop :: "'h kernel \<Rightarrow> nat \<Rightarrow> 'h NetworkManager \<Rightarrow> (unit, 'h NetworkManager) outcome" where
  "drain_loop k 0 m = (Inr (), m)"
| "drain_loop k (Suc to_drain) m =
     (case try_drain_one (slot_pool m) of
        (None, p) \<Rightarrow> (Inr (), m\<lparr>slot_pool := p\<rparr>)
      | (Some slot, p) \<Rightarrow> bindR (cleanup_slot_and_release_bit k slot (m\<lparr>slot_pool := p\<rparr>)) (\<lambda>_ m. drain_loop k to_drain m))"

definition run_pool_maintenance_cycle ::
    "(nat set \<Rightarrow> nat option) \<Rightarrow> 'h kernel \<Rightarrow> 'h NetworkManager \<Rightarrow> (unit, 'h NetworkManager) outcome" where
  "run_pool_maintenance_cycle next_free k m =
     (case compute_maintenance_action (slot_pool m) (length (pool (slot_pool m))) of
        Fill to_fill \<Rightarrow> fill_loop next_free k to_fill m
      | Drain to_drain \<Rightarrow> drain_loop k to_drain m
      | Idle \<Rightarrow> (Inr (), m))"

definition manager_release :: "'h kernel \<Rightarrow> Slot \<Rightarrow> 'h NetworkManager \<Rightarrow> (unit, 'h NetworkManager) outcome" where
  "manager_release k slot m =
     (if manager_shutting_down m then cleanup_slot_and_release_bit k slot m
      else case pool_release slot (slot_pool m) of
             (Inr _, p) \<Rightarrow> (Inr (), m\<lparr>slot_pool := p\<rparr>)
           | (Inl slot, p) \<Rightarrow> cleanup_slot_and_release_bit k slot (m\<lparr>slot_pool := p\<rparr>))"

fun cleanup_drained :: "'h kernel \<Rightarrow> bool \<Rightarrow> Slot list \<Rightarrow> 'h NetworkManager \<Rightarrow> nat list \<times> 'h NetworkManager" where
  "cleanup_drained k sync [] m = ([], m)"
| "cleanup_drained k sync (slot # slots) m =
     (let (r, m) = cleanup_slot_and_release_bit_inner k slot sync m;
          (failures, m) = cleanup_drained k sync slots m
      in (case r of Inl _ \<Rightarrow> (slot_idx slot # failures, m) | Inr _ \<Rightarrow> (failures, m)))"

definition shutdown_inner :: "'h kernel \<Rightarrow> bool \<Rightarrow> 'h NetworkManager \<Rightarrow> (unit, 'h NetworkManager) outcome" where
  "shutdown_inner k sync_cleanup m =
     (let m = m\<lparr>manager_shutting_down := True\<rparr>;
          (drained_slots, p) = drain_all (slot_pool m);
          m = m\<lparr>slot_pool := p\<rparr>;
          (failures, m) = cleanup_drained k sync_cleanup drained_slots m;
          m = cleanup_global_host_iptables k m
      in (if failures = [] then Inr () else Inl (Err ''failed to clean up pooled network slots during shutdown''), m))"

text \<open>Slots whose host interface exists at start are reserved. A decimal index may carry a plus sign.\<close>

fun parse_digits :: "nat \<Rightarrow> string \<Rightarrow> nat option" where
  "parse_digits acc [] = Some acc"
| "parse_digits acc (c # cs) =
     (if 48 \<le> (of_char c :: nat) \<and> (of_char c :: nat) \<le> 57 then
        let v = acc * 10 + (of_char c - 48)
        in if v < 2 ^ 64 then parse_digits v cs else None
      else None)"

definition parse_usize :: "string \<Rightarrow> nat option" where
  "parse_usize t =
     (case t of
        [] \<Rightarrow> None
      | c # cs \<Rightarrow> if c = CHR ''+'' then (if cs = [] then None else parse_digits 0 cs) else parse_digits 0 t)"

definition strip_prefix :: "string \<Rightarrow> string \<Rightarrow> string option" where
  "strip_prefix p t = (if take (length p) t = p then Some (drop (length p) t) else None)"

definition slot_index_from_host_veth_name :: "string \<Rightarrow> nat option" where
  "slot_index_from_host_veth_name name =
     (case strip_prefix ''veth-'' name of
        None \<Rightarrow> None
      | Some slot_str \<Rightarrow>
          (case parse_usize slot_str of
             None \<Rightarrow> None
           | Some idx \<Rightarrow> if idx = 0 \<or> idx \<ge> NETWORK_MAX_SLOTS then None else Some idx))"

definition reserve_existing_host_veth_slots :: "string list \<Rightarrow> 'h NetworkManager \<Rightarrow> 'h NetworkManager" where
  "reserve_existing_host_veth_slots names m =
     m\<lparr>allocated := fold insert (List.map_filter slot_index_from_host_veth_name names) (allocated m)\<rparr>"

definition NetworkManager_with_config ::
    "'h kernel \<Rightarrow> PoolConfig \<Rightarrow> NetworkAddressPlan \<Rightarrow> string list \<Rightarrow> bool \<Rightarrow> 'h \<Rightarrow> 'h NetworkManager" where
  "NetworkManager_with_config k cfg plan names installed h =
     (let m = \<lparr>allocated = {}, slot_pool = WarmPool_new cfg, address_plan = plan, manager_shutting_down = False,
               host_iptables_installed = installed, host = h\<rparr>;
          m = m\<lparr>allocated := insert 0 (allocated m)\<rparr>;
          m = reserve_existing_host_veth_slots names m
      in snd (install_global_host_iptables k m))"

section \<open>Ownership of slots\<close>

text \<open>
  Every set bit of the bitmap has one owner: index 0 and the slots reserved at start belong to the host,
  every other index to exactly one live slot, which is idle in the pool or held by a client. Live slots
  carry the addresses of their index and their network is set up.
\<close>

definition next_free_ok :: "(nat set \<Rightarrow> nat option) \<Rightarrow> bool" where
  "next_free_ok next_free \<longleftrightarrow> (\<forall>S i. next_free S = Some i \<longrightarrow> i \<notin> S \<and> i < NETWORK_MAX_SLOTS)"

definition slot_ok :: "NetworkAddressPlan \<Rightarrow> Slot \<Rightarrow> bool" where
  "slot_ok plan s \<longleftrightarrow>
     0 < slot_idx s \<and> slot_idx s < NETWORK_MAX_SLOTS \<and> cleanup_armed s
     \<and> slot_ips plan (slot_idx s) = Inr (host_interaction_ip s, veth_host_ip s, veth_vm_ip s)"

definition slots_inv :: "nat set \<Rightarrow> 'h NetworkManager \<Rightarrow> Slot list \<Rightarrow> bool" where
  "slots_inv reserved m held \<longleftrightarrow>
     (let live = pool (slot_pool m) @ held
      in plan_ok (address_plan m) \<and> 0 \<in> reserved \<and> distinct (map slot_idx live)
         \<and> (\<forall>s\<in>set live. slot_ok (address_plan m) s)
         \<and> reserved \<inter> slot_idx ` set live = {} \<and> allocated m = reserved \<union> slot_idx ` set live)"

lemma distinct_map_mset: "mset xs = mset ys \<Longrightarrow> distinct (map f xs) = distinct (map f ys)"
  using mset_eq_imp_distinct_iff [of "map f xs" "map f ys"] by (simp add: mset_map)

lemma slots_inv_perm:
  assumes "slots_inv R m held" "mset (pool (slot_pool m) @ held) = mset (pool (slot_pool n) @ held')"
    "allocated n = allocated m" "address_plan n = address_plan m"
  shows "slots_inv R n held'"
proof -
  have "set (pool (slot_pool m) @ held) = set (pool (slot_pool n) @ held')" using assms(2) by (rule mset_eq_setD)
  moreover have "distinct (map slot_idx (pool (slot_pool m) @ held)) = distinct (map slot_idx (pool (slot_pool n) @ held'))"
    using assms(2) by (rule distinct_map_mset)
  ultimately show ?thesis using assms(1) unfolding slots_inv_def Let_def assms(3,4) by simp
qed

lemma slots_inv_drop:
  assumes "slots_inv R m held" "mset (pool (slot_pool m) @ held) = mset (slot # pool (slot_pool n) @ held')"
    "allocated n = allocated m - {slot_idx slot}" "address_plan n = address_plan m"
  shows "slots_inv R n held'"
proof -
  let ?l = "pool (slot_pool m) @ held" and ?r = "pool (slot_pool n) @ held'"
  have s: "set ?l = insert slot (set ?r)" using mset_eq_setD [OF assms(2)] by simp
  have "distinct (map slot_idx ?l) = distinct (map slot_idx (slot # ?r))"
    using assms(2) by (rule distinct_map_mset)
  then have "distinct (map slot_idx ?r)" "slot_idx slot \<notin> slot_idx ` set ?r" using assms(1) by (auto simp: slots_inv_def Let_def)
  then show ?thesis using assms(1,3,4) s unfolding slots_inv_def Let_def by auto
qed

lemma slots_inv_take:
  assumes "slots_inv R m held" "i \<notin> allocated m" "slot_idx slot = i" "slot_ok (address_plan m) slot"
    "pool (slot_pool n) = pool (slot_pool m)" "allocated n = insert i (allocated m)" "address_plan n = address_plan m"
  shows "slots_inv R n (slot # held)"
  using assms unfolding slots_inv_def Let_def by auto

lemma slots_inv_frame:
  "slots_inv R m held \<Longrightarrow> pool (slot_pool n) = pool (slot_pool m) \<Longrightarrow> allocated n = allocated m \<Longrightarrow> address_plan n = address_plan m
   \<Longrightarrow> slots_inv R n held"
  by (simp add: slots_inv_def Let_def)

subsection \<open>Cleanup and allocation\<close>

lemma cleanup_frame:
  assumes "cleanup_slot_and_release_bit_inner k slot sync m = (r, n)"
    and "0 < slot_idx slot" "slot_idx slot < NETWORK_MAX_SLOTS" "slot_idx slot \<in> allocated m"
  shows "slot_pool n = slot_pool m \<and> address_plan n = address_plan m \<and> allocated n = allocated m - {slot_idx slot}
    \<and> manager_shutting_down n = manager_shutting_down m \<and> r \<noteq> Inl Panic"
  using assms by (auto simp: cleanup_slot_and_release_bit_inner_def release_slot_bit_def Slot_cleanup_def Let_def
      split: prod.splits if_splits)

lemma slots_inv_live:
  assumes "slots_inv R m held" "slot \<in> set (pool (slot_pool m) @ held)"
  shows "0 < slot_idx slot" "slot_idx slot < NETWORK_MAX_SLOTS" "slot_idx slot \<in> allocated m"
  using assms by (auto simp: slots_inv_def slot_ok_def Let_def)

lemma cleanup_slots_inv:
  assumes inv: "slots_inv R m (slot # held)"
    and c: "cleanup_slot_and_release_bit_inner k slot sync m = (r, n)"
  shows "slots_inv R n held" "r \<noteq> Inl Panic" "slot_pool n = slot_pool m" "manager_shutting_down n = manager_shutting_down m"
proof -
  note f = cleanup_frame [OF c slots_inv_live [OF inv, of slot]]
  show "slots_inv R n held" by (rule slots_inv_drop [OF inv, of slot]) (use f in auto)
  show "r \<noteq> Inl Panic" "slot_pool n = slot_pool m" "manager_shutting_down n = manager_shutting_down m" using f by auto
qed

lemma fresh_rules_frame:
  "fresh_rules k m = (r, n) \<Longrightarrow>
   slot_pool n = slot_pool m \<and> allocated n = allocated m \<and> address_plan n = address_plan m
   \<and> manager_shutting_down n = manager_shutting_down m \<and> r \<noteq> Inl Panic"
  by (auto simp: fresh_rules_def install_global_host_iptables_def split: if_splits prod.splits)

lemma Slot_new_ok:
  assumes "plan_ok plan" "0 < idx" "idx < NETWORK_MAX_SLOTS"
  obtains slot where "Slot_new idx plan = Inr slot" "slot_idx slot = idx" "slot_ok plan (slot\<lparr>cleanup_armed := True\<rparr>)"
proof (rule that)
  show "Slot_new idx plan = Inr \<lparr>slot_idx = idx, host_interaction_ip = net_network (host_interaction_cidr plan) + idx,
    veth_host_ip = net_network (veth_cidr plan) + idx * 2, veth_vm_ip = net_network (veth_cidr plan) + (idx * 2 + 1), cleanup_armed = False\<rparr>"
    using assms slot_ips_ok [OF assms(1,3)] by (simp add: Slot_new_def)
qed (use assms slot_ips_ok [OF assms(1,3)] in \<open>simp_all add: slot_ok_def\<close>)

lemma fresh_take_cases:
  assumes "next_free_ok next_free" "slots_inv R m held" "fresh_take next_free m = (r, n)"
  obtains "r = Inl (Err ''No available slots'')" "n = m" "next_free (allocated m) = None"
  | slot where "r = Inr slot" "slot_idx slot \<notin> allocated m" "n = m\<lparr>allocated := insert (slot_idx slot) (allocated m)\<rparr>"
      "slot_ok (address_plan m) (slot\<lparr>cleanup_armed := True\<rparr>)"
proof (cases "next_free (allocated m)")
  case None
  then show ?thesis using assms(3) that(1) by (simp add: fresh_take_def)
next
  case (Some idx)
  have "0 \<in> allocated m" "plan_ok (address_plan m)" using assms(2) by (auto simp: slots_inv_def Let_def)
  moreover have f: "idx \<notin> allocated m" "idx < NETWORK_MAX_SLOTS" using assms(1) Some by (auto simp: next_free_ok_def)
  ultimately have "0 < idx" by (metis gr0I)
  then obtain slot where "Slot_new idx (address_plan m) = Inr slot" "slot_idx slot = idx"
    "slot_ok (address_plan m) (slot\<lparr>cleanup_armed := True\<rparr>)"
    using Slot_new_ok [OF \<open>plan_ok (address_plan m)\<close>] f(2) by blast
  then show ?thesis using assms(3) f Some by (intro that(2) [of slot]) (simp_all add: fresh_take_def Let_def)
qed

lemma allocate_fresh_slot_inv:
  assumes nf: "next_free_ok next_free" and inv: "slots_inv R m held" and a: "allocate_fresh_slot next_free k m = (r, n)"
  shows "r \<noteq> Inl Panic \<and> slot_pool n = slot_pool m \<and> manager_shutting_down n = manager_shutting_down m
    \<and> slots_inv R n (case r of Inl _ \<Rightarrow> held | Inr slot \<Rightarrow> slot # held)"
proof (cases "manager_shutting_down m")
  case True
  then show ?thesis using a inv by (auto simp: allocate_fresh_slot_def ERR_SHUTTING_DOWN_def)
next
  case False
  obtain r1 m1 where r: "fresh_rules k m = (r1, m1)" by fastforce
  note f1 = fresh_rules_frame [OF r]
  then have i1: "slots_inv R m1 held" by (intro slots_inv_frame [OF inv]) auto
  obtain r2 m2 where t: "fresh_take next_free m1 = (r2, m2)" by fastforce
  show ?thesis
  proof (cases r1)
    case (Inl e)
    then show ?thesis using a False r f1 i1 by (auto simp: allocate_fresh_slot_def)
  next
    case (Inr u)
    note a' = a [unfolded allocate_fresh_slot_def r Inr bindR.simps t] False
    show ?thesis
    proof (cases rule: fresh_take_cases [OF nf i1 t])
      case 1
      then show ?thesis using a' f1 i1 by auto
    next
      case (2 slot)
      obtain ok h where c: "k_create_network k (slot_idx slot) (host m2) = (ok, h)" by fastforce
      let ?s = "slot\<lparr>cleanup_armed := True\<rparr>"
      have i2: "slots_inv R (m2\<lparr>host := h\<rparr>) (?s # held)"
        by (rule slots_inv_take [OF i1 2(2)]) (use 2 in auto)
      show ?thesis
      proof (cases ok)
        case True
        have "r = Inr ?s" "n = m2\<lparr>host := h\<rparr>"
          using a' 2 f1 c True by (simp_all add: create_network_def Let_def)
        then show ?thesis using i2 2(3) f1 by simp
      next
        case failed: False
        have n: "n = on_host (Slot_drop k ?s) (fresh_failed ?s (m2\<lparr>host := h\<rparr>))" "r = Inl (Err ''Failed to create network'')"
          using a' 2 c failed by (simp_all add: create_network_def Let_def)
        have "slots_inv R n held"
          by (rule slots_inv_frame [OF i1]) (use 2 n in \<open>auto simp: fresh_failed_def\<close>)
        then show ?thesis using n 2 f1 by (auto simp: fresh_failed_def)
      qed
    qed
  qed
qed

subsection \<open>The other operations\<close>

lemma try_acquire_pool:
  "try_acquire p = (r, q) \<Longrightarrow>
   mset (pool p) = mset (pool q) + (case r of None \<Rightarrow> {#} | Some x \<Rightarrow> {#x#})"
  unfolding try_acquire_is_where try_acquire_where_def
  by (auto split: if_splits prod.splits dest: acquire_frame)

lemma allocate_any_inv:
  assumes nf: "next_free_ok next_free" and inv: "slots_inv R m held" and a: "allocate_any next_free k m = (r, n)"
  shows "r \<noteq> Inl Panic \<and> slots_inv R n (case r of Inl _ \<Rightarrow> held | Inr slot \<Rightarrow> slot # held)"
proof (cases "manager_shutting_down m")
  case True
  then show ?thesis using a inv by (auto simp: allocate_any_def ERR_SHUTTING_DOWN_def)
next
  case False
  obtain reused p where t: "try_acquire (slot_pool m) = (reused, p)" by fastforce
  note q = try_acquire_pool [OF t]
  show ?thesis
  proof (cases reused)
    case None
    have i: "slots_inv R (m\<lparr>slot_pool := p\<rparr>) held" by (rule slots_inv_perm [OF inv]) (use q None in auto)
    have "allocate_fresh_slot next_free k (m\<lparr>slot_pool := p\<rparr>) = (r, n)" using a False t None by (simp add: allocate_any_def)
    from allocate_fresh_slot_inv [OF nf i this] show ?thesis by blast
  next
    case (Some slot)
    have "slots_inv R (m\<lparr>slot_pool := p\<rparr>) (slot # held)" by (rule slots_inv_perm [OF inv]) (use q Some in auto)
    then show ?thesis using a False t Some by (auto simp: allocate_any_def Let_def intro: slots_inv_frame split: if_splits)
  qed
qed

lemma push_inv:
  assumes "slots_inv R m (slot # held)" "try_push_bounded slot (slot_pool m) = (Inr u, p)"
  shows "slots_inv R (m\<lparr>slot_pool := p\<rparr>) held"
  using assms(2) by (cases rule: try_push_bounded_cases) (auto intro: slots_inv_perm [OF assms(1)])

lemma push_refused:
  assumes "try_push_bounded slot p = (Inl x, q)"
  shows "x = slot \<and> q = p"
  using assms by (cases rule: try_push_bounded_cases) auto

lemma fill_loop_inv:
  assumes nf: "next_free_ok next_free"
  shows "slots_inv R m held \<Longrightarrow> fill_loop next_free k l m = (r, n) \<Longrightarrow> r \<noteq> Inl Panic \<and> slots_inv R n held"
proof (induction l arbitrary: m)
  case (Suc l)
  obtain r1 m1 where a: "allocate_fresh_slot next_free k m = (r1, m1)" by fastforce
  note i1 = allocate_fresh_slot_inv [OF nf Suc.prems(1) a]
  show ?case
  proof (cases "manager_shutting_down m")
    case True
    then show ?thesis using Suc.prems by auto
  next
    case False
    show ?thesis
    proof (cases r1)
      case (Inl e)
      then show ?thesis using i1 Suc.prems(2) a False by (cases e) auto
    next
      case (Inr slot)
      then have i2: "slots_inv R m1 (slot # held)" using i1 by simp
      obtain v p where t: "try_push_bounded slot (slot_pool m1) = (v, p)" by fastforce
      show ?thesis
      proof (cases v)
        case (Inr u)
        then show ?thesis using Suc.IH [OF push_inv [OF i2, of u p]] Suc.prems(2) a False \<open>r1 = Inr slot\<close> t by simp
      next
        case (Inl x)
        then have x: "x = slot" "m1\<lparr>slot_pool := p\<rparr> = m1" using push_refused [of slot "slot_pool m1" x p] t by auto
        obtain r2 m2 where c: "cleanup_slot_and_release_bit_inner k slot False m1 = (r2, m2)" by fastforce
        note i3 = cleanup_slots_inv [OF i2 c]
        show ?thesis
          using Suc.prems(2) a False \<open>r1 = Inr slot\<close> t Inl x c i3(1,2) Suc.IH [OF i3(1)]
          by (cases r2) (auto simp: cleanup_slot_and_release_bit_def)
      qed
    qed
  qed
qed auto

lemma drain_loop_inv:
  "slots_inv R m held \<Longrightarrow> drain_loop k l m = (r, n) \<Longrightarrow> r \<noteq> Inl Panic \<and> slots_inv R n held"
proof (induction l arbitrary: m)
  case (Suc l)
  obtain v p where t: "try_drain_one (slot_pool m) = (v, p)" by fastforce
  then show ?case
  proof (cases rule: try_drain_one_cases)
    case 1
    then have "r = Inr ()" "n = m" using Suc.prems(2) t by auto
    then show ?thesis using Suc.prems(1) by simp
  next
    case (2 x xs)
    have i2: "slots_inv R (m\<lparr>slot_pool := p\<rparr>) (x # held)" by (rule slots_inv_perm [OF Suc.prems(1)]) (use 2 in auto)
    obtain r2 m2 where c: "cleanup_slot_and_release_bit_inner k x False (m\<lparr>slot_pool := p\<rparr>) = (r2, m2)" by fastforce
    note i3 = cleanup_slots_inv [OF i2 c]
    show ?thesis using Suc.prems(2) t 2 c i3(1,2) Suc.IH [OF i3(1)]
      by (cases r2) (auto simp: cleanup_slot_and_release_bit_def)
  qed
qed auto

lemma cycle_inv:
  assumes "next_free_ok next_free" "slots_inv R m held" and c: "run_pool_maintenance_cycle next_free k m = (r, n)"
  shows "r \<noteq> Inl Panic \<and> slots_inv R n held"
proof (cases "compute_maintenance_action (slot_pool m) (length (pool (slot_pool m)))")
  case (Fill l)
  then have "fill_loop next_free k l m = (r, n)" using c by (simp add: run_pool_maintenance_cycle_def)
  from fill_loop_inv [OF assms(1,2) this] show ?thesis .
next
  case (Drain l)
  then have "drain_loop k l m = (r, n)" using c by (simp add: run_pool_maintenance_cycle_def)
  from drain_loop_inv [OF assms(2) this] show ?thesis .
next
  case Idle
  then show ?thesis using c assms(2) by (auto simp: run_pool_maintenance_cycle_def)
qed

lemma pool_release_cases:
  assumes "pool_release slot p = (v, q)"
  obtains "v = Inr ()" "pool q = pool p @ [slot]" | "v = Inl slot" "q = p"
  using assms by (auto simp: pool_release_def release_section_def split: if_splits)

lemma manager_release_inv:
  assumes "slots_inv R m (slot # held)" "manager_release k slot m = (r, n)"
  shows "r \<noteq> Inl Panic \<and> slots_inv R n held"
proof (cases "manager_shutting_down m")
  case True
  then have "cleanup_slot_and_release_bit_inner k slot False m = (r, n)"
    using assms(2) by (simp add: manager_release_def cleanup_slot_and_release_bit_def)
  from cleanup_slots_inv [OF assms(1) this] show ?thesis by blast
next
  case False
  obtain v p where t: "pool_release slot (slot_pool m) = (v, p)" by fastforce
  then show ?thesis
  proof (cases rule: pool_release_cases)
    case 1
    have "slots_inv R (m\<lparr>slot_pool := p\<rparr>) held" by (rule slots_inv_perm [OF assms(1)]) (use 1 in auto)
    then show ?thesis using assms(2) False t 1 by (auto simp: manager_release_def)
  next
    case 2
    then have "cleanup_slot_and_release_bit_inner k slot False m = (r, n)"
      using assms(2) False t by (simp add: manager_release_def cleanup_slot_and_release_bit_def)
    from cleanup_slots_inv [OF assms(1) this] show ?thesis by blast
  qed
qed

lemma cleanup_drained_inv:
  "slots_inv R m (slots @ held) \<Longrightarrow> cleanup_drained k sync slots m = (fs, n) \<Longrightarrow> slots_inv R n held \<and> slot_pool n = slot_pool m"
proof (induction slots arbitrary: m fs n)
  case (Cons slot slots)
  obtain r m1 where c: "cleanup_slot_and_release_bit_inner k slot sync m = (r, m1)" by fastforce
  obtain gs m2 where d: "cleanup_drained k sync slots m1 = (gs, m2)" by fastforce
  have "slots_inv R m (slot # slots @ held)" using Cons.prems(1) by simp
  note i1 = cleanup_slots_inv [OF this c]
  show ?case using Cons.IH [OF i1(1) d] Cons.prems(2) c d i1(3) by (auto split: sum.splits)
qed auto

lemma drain_all_pool: "drain_all p = (rs, q) \<Longrightarrow> rs = pool p \<and> pool q = []"
  by (auto simp: drain_all_def drain_section_def stop_maintenance_worker_def stop_section_def split: if_splits)

lemma cleanup_iptables_frame:
  "slot_pool (cleanup_global_host_iptables k m) = slot_pool m" "allocated (cleanup_global_host_iptables k m) = allocated m"
  "address_plan (cleanup_global_host_iptables k m) = address_plan m"
  by (simp_all add: cleanup_global_host_iptables_def)

lemma shutdown_inv:
  assumes "slots_inv R m held" "shutdown_inner k sync m = (r, n)"
  shows "r \<noteq> Inl Panic \<and> slots_inv R n held \<and> pool (slot_pool n) = []"
proof -
  obtain rs p where d: "drain_all (slot_pool m) = (rs, p)" by fastforce
  note dp = drain_all_pool [OF d]
  let ?m = "m\<lparr>manager_shutting_down := True, slot_pool := p\<rparr>"
  have i1: "slots_inv R ?m (rs @ held)" by (rule slots_inv_perm [OF assms(1)]) (use dp in auto)
  obtain fs m2 where c: "cleanup_drained k sync rs ?m = (fs, m2)" by fastforce
  note i2 = cleanup_drained_inv [OF i1 c]
  have "n = cleanup_global_host_iptables k m2" "r \<noteq> Inl Panic"
    using assms(2) d c by (auto simp: shutdown_inner_def Let_def split: if_splits)
  then show ?thesis using i2 dp by (auto simp: cleanup_iptables_frame intro: slots_inv_frame)
qed

lemma with_config_inv:
  assumes "plan_ok plan"
  shows "slots_inv (allocated (NetworkManager_with_config k cfg plan names installed h))
    (NetworkManager_with_config k cfg plan names installed h) []"
proof -
  have "(0::nat) \<in> A \<Longrightarrow> 0 \<in> fold insert xs A" for xs A
    by (induction xs arbitrary: A) auto
  then show ?thesis using assms
    by (auto simp: NetworkManager_with_config_def reserve_existing_host_veth_slots_def install_global_host_iptables_def slots_inv_def
        WarmPool_new_def Let_def split: prod.splits if_splits)
qed

section \<open>Clients of the manager\<close>

datatype net_op = NetAllocate | NetRelease nat | NetCleanup nat bool | NetCycle | NetShutdown bool

definition remove_nth :: "nat \<Rightarrow> 'a list \<Rightarrow> 'a list" where
  "remove_nth i xs = take i xs @ drop (Suc i) xs"

text \<open>A client holds the slots it was given; a call on a slot it does not hold does not happen.\<close>

definition net_step ::
    "(nat set \<Rightarrow> nat option) \<Rightarrow> 'h kernel \<Rightarrow> net_op \<Rightarrow> 'h NetworkManager \<times> Slot list \<Rightarrow> (unit, 'h NetworkManager \<times> Slot list) outcome" where
  "net_step next_free k op s =
     (case s of (m, held) \<Rightarrow>
        (case op of
           NetAllocate \<Rightarrow>
             (case allocate_any next_free k m of (Inl e, m) \<Rightarrow> (Inl e, m, held) | (Inr slot, m) \<Rightarrow> (Inr (), m, slot # held))
         | NetRelease i \<Rightarrow>
             if i < length held then (case manager_release k (held ! i) m of (r, m) \<Rightarrow> (r, m, remove_nth i held)) else (Inr (), m, held)
         | NetCleanup i sync \<Rightarrow>
             if i < length held
             then (case cleanup_slot_and_release_bit_inner k (held ! i) sync m of (r, m) \<Rightarrow> (r, m, remove_nth i held))
             else (Inr (), m, held)
         | NetCycle \<Rightarrow> (case run_pool_maintenance_cycle next_free k m of (r, m) \<Rightarrow> (r, m, held))
         | NetShutdown sync \<Rightarrow> (case shutdown_inner k sync m of (r, m) \<Rightarrow> (r, m, held))))"

fun net_run ::
    "(nat set \<Rightarrow> nat option) \<Rightarrow> 'h kernel \<Rightarrow> net_op list \<Rightarrow> 'h NetworkManager \<times> Slot list
      \<Rightarrow> (error + unit) list \<times> 'h NetworkManager \<times> Slot list" where
  "net_run next_free k [] s = ([], s)"
| "net_run next_free k (op # ops) s =
     (let (r, s) = net_step next_free k op s; (rs, s) = net_run next_free k ops s in (r # rs, s))"

lemma remove_nth_mset: "i < length xs \<Longrightarrow> mset (xs ! i # remove_nth i xs) = mset xs"
  by (metis append_take_drop_id Cons_nth_drop_Suc mset.simps(2) mset_append remove_nth_def union_mset_add_mset_right)

lemma slots_inv_pick: "slots_inv R m held \<Longrightarrow> i < length held \<Longrightarrow> slots_inv R m (held ! i # remove_nth i held)"
  by (erule slots_inv_perm) (use remove_nth_mset [of i held] in auto)

lemma net_step_inv:
  assumes "next_free_ok next_free" "slots_inv R m held" "net_step next_free k op (m, held) = (r, n, held')"
  shows "r \<noteq> Inl Panic \<and> slots_inv R n held'"
proof (cases op)
  case NetAllocate
  obtain a p where t: "allocate_any next_free k m = (a, p)" by fastforce
  then show ?thesis using NetAllocate assms(3) allocate_any_inv [OF assms(1,2) t]
    by (auto simp: net_step_def split: sum.splits)
next
  case (NetRelease i)
  obtain a p where t: "manager_release k (held ! i) m = (a, p)" by fastforce
  show ?thesis using NetRelease assms t manager_release_inv [OF slots_inv_pick [OF assms(2)] t]
    by (auto simp: net_step_def split: if_splits)
next
  case (NetCleanup i sync)
  obtain a p where t: "cleanup_slot_and_release_bit_inner k (held ! i) sync m = (a, p)" by fastforce
  show ?thesis using NetCleanup assms t cleanup_slots_inv(1,2) [OF slots_inv_pick [OF assms(2)] t]
    by (auto simp: net_step_def split: if_splits)
next
  case NetCycle
  obtain a p where t: "run_pool_maintenance_cycle next_free k m = (a, p)" by fastforce
  show ?thesis using NetCycle assms(3) t cycle_inv [OF assms(1,2) t] by (auto simp: net_step_def)
next
  case (NetShutdown sync)
  obtain a p where t: "shutdown_inner k sync m = (a, p)" by fastforce
  show ?thesis using NetShutdown assms(3) t shutdown_inv [OF assms(2) t] by (auto simp: net_step_def)
qed

lemma net_run_inv:
  assumes "next_free_ok next_free"
  shows "slots_inv R m held \<Longrightarrow> net_run next_free k ops (m, held) = (rs, n, held') \<Longrightarrow> Inl Panic \<notin> set rs \<and> slots_inv R n held'"
proof (induction ops arbitrary: m held rs)
  case (Cons op ops)
  obtain r m1 h1 where s: "net_step next_free k op (m, held) = (r, m1, h1)" by (metis prod_cases3)
  obtain qs m2 h2 where t: "net_run next_free k ops (m1, h1) = (qs, m2, h2)" by (metis prod_cases3)
  note i1 = net_step_inv [OF assms Cons.prems(1) s]
  then show ?case using Cons.IH [of m1 h1 qs] Cons.prems(2) s t by auto
qed simp

definition slot_addresses :: "Slot \<Rightarrow> nat set" where
  "slot_addresses s = {host_interaction_ip s, veth_host_ip s, veth_vm_ip s}"

lemma live_slots_disjoint:
  assumes "slots_inv R m held" "s \<in> set (pool (slot_pool m) @ held)" "t \<in> set (pool (slot_pool m) @ held)" "s \<noteq> t"
  shows "slot_addresses s \<inter> slot_addresses t = {}"
proof -
  have ok: "plan_ok (address_plan m)" "slot_ok (address_plan m) s" "slot_ok (address_plan m) t"
    and d: "distinct (map slot_idx (pool (slot_pool m) @ held))"
    using assms(1-3) unfolding slots_inv_def Let_def by blast+
  have "slot_idx s \<noteq> slot_idx t" using d assms(2-4) unfolding distinct_map inj_on_def by blast
  from plan_addresses [OF ok(1) _ _ this] ok(2,3) show ?thesis
    by (auto simp: slot_ok_def ips_of_def slot_addresses_def)
qed

text \<open>
  C7. Slot ownership: after any sequence of allocations, releases, cleanups, maintenance cycles and shutdowns,
  whatever fails in the kernel, live slots, idle or held, have distinct indices and share no address, every set
  bit of the bitmap is a live slot's or was reserved at start, so that none leaks, and no call panics.
\<close>

theorem network_slots_owned:
  assumes "ipnetwork_ok ipn" "resolved_internal ipn ncfg = Inr plan" "next_free_ok next_free"
    and "net_run next_free k ops (NetworkManager_with_config k cfg plan names installed h, []) = (rs, m, held)"
    and "live = pool (slot_pool m) @ held" "reserved = allocated (NetworkManager_with_config k cfg plan names installed h)"
  shows "distinct (map slot_idx live) \<and> (\<forall>s\<in>set live. \<forall>t\<in>set live. s \<noteq> t \<longrightarrow> slot_addresses s \<inter> slot_addresses t = {})
    \<and> allocated m = reserved \<union> slot_idx ` set live \<and> reserved \<inter> slot_idx ` set live = {} \<and> Inl Panic \<notin> set rs"
proof -
  have inv: "slots_inv reserved m held" and "Inl Panic \<notin> set rs"
    using net_run_inv [OF assms(3) with_config_inv [OF resolved_plan_ok [OF assms(1,2)]] assms(4)] assms(6) by auto
  then show ?thesis using live_slots_disjoint [OF inv] unfolding assms(5) by (simp add: slots_inv_def Let_def)
qed

definition sample_next_free :: "nat set \<Rightarrow> nat option" where
  "sample_next_free S = (if 1 \<notin> S then Some 1 else if 2 \<notin> S then Some 2 else if 3 \<notin> S then Some 3 else None)"

lemma sample_next_free_ok: "next_free_ok sample_next_free"
  by (auto simp: next_free_ok_def sample_next_free_def NETWORK_MAX_SLOTS_def split: if_splits)

text \<open>A host that lists its interfaces and the outcomes of the next setups.\<close>

record sample_host =
  veths :: "nat list"
  setups :: "bool list"

definition sample_kernel :: "sample_host kernel" where
  "sample_kernel =
     \<lparr>k_create_network = (\<lambda>idx h. case setups h of
        [] \<Rightarrow> (True, h\<lparr>veths := idx # veths h\<rparr>)
      | ok # oks \<Rightarrow> (ok, h\<lparr>veths := (if ok then idx # veths h else veths h), setups := oks\<rparr>)),
      k_cleanup = (\<lambda>sync idx h. (True, h\<lparr>veths := removeAll idx (veths h)\<rparr>)),
      k_install_iptables = (\<lambda>h. (True, h)), k_cleanup_iptables = (\<lambda>h. h)\<rparr>"

definition sample_manager :: "sample_host NetworkManager" where
  "sample_manager =
     NetworkManager_with_config sample_kernel
       \<lparr>low_watermark = 1, high_watermark = 2, maintenance_enabled = True, startup_prewarm = True\<rparr>
       sample_plan [''veth-2'', ''eth0''] False \<lparr>veths = [2], setups = [True, False]\<rparr>"

definition sample_net_ops :: "net_op list" where
  "sample_net_ops = [NetAllocate, NetAllocate, NetAllocate, NetRelease 1, NetAllocate]"

definition sample_net :: "(error + unit) list \<times> sample_host NetworkManager \<times> Slot list" where
  "sample_net = net_run sample_next_free sample_kernel sample_net_ops (sample_manager, [])"

lemmas network_defs =
  sample_plan_def NetworkManager_with_config_def install_global_host_iptables_def reserve_existing_host_veth_slots_def
  slot_index_from_host_veth_name_def strip_prefix_def parse_usize_def WarmPool_new_def PoolConfig_validate_def List.map_filter_def
  net_step_def allocate_any_def allocate_fresh_slot_def try_acquire_def record_acquisition_pressure_def
  grow_fill_target_after_pressure_def compute_maintenance_action_def current_fill_target_def is_fill_def usize_saturating_mul_def
  request_maintenance_def request_section_def fresh_rules_def fresh_take_def fresh_failed_def Slot_new_def slot_ips_def network_ip_at_def
  create_network_def Slot_drop_def Slot_cleanup_def manager_release_def pool_release_def release_section_def release_wakes_def
  remove_nth_def sample_kernel_def sample_next_free_def NETWORK_MAX_SLOTS_def u32_add_def

lemma sample_net_values:
  "fst sample_net = [Inr (), Inl (Err ''Failed to create network''), Inr (), Inr (), Inr ()]"
  "map slot_idx (snd (snd sample_net)) = [1, 3]"
  by (simp_all add: sample_net_def sample_net_ops_def sample_manager_def network_defs Let_def)

theorem network_slots_owned_witness:
  "\<exists>rs m held. sample_net = (rs, m, held) \<and> map slot_idx held = [1, 3]
     \<and> distinct (map slot_idx (pool (slot_pool m) @ held)) \<and> Inl Panic \<notin> set rs"
proof -
  obtain rs m held where s: "sample_net = (rs, m, held)" by (metis prod_cases3)
  have "net_run sample_next_free sample_kernel sample_net_ops (sample_manager, []) = (rs, m, held)" using s by (simp add: sample_net_def)
  note own = network_slots_owned [OF sample_ipnetwork_ok sample_resolved sample_next_free_ok this [unfolded sample_manager_def] refl refl]
  have "map slot_idx held = [1, 3]" using sample_net_values(2) unfolding s by simp
  moreover have "distinct (map slot_idx (pool (slot_pool m) @ held))" using own by (elim conjE)
  moreover have "Inl Panic \<notin> set rs" using own by (elim conjE)
  ultimately show ?thesis using s by (intro exI conjI)
qed

section \<open>The maintenance worker of the manager\<close>

text \<open>
  The worker loop of the pool with \<open>run_pool_maintenance_cycle\<close> as its cycle; the worker logs and drops the
  cycle's error.
\<close>

fun manager_worker_loop ::
    "(nat set \<Rightarrow> nat option) \<Rightarrow> 'h kernel \<Rightarrow> nat \<Rightarrow> wpc \<Rightarrow> 'h NetworkManager \<Rightarrow> (wpc \<times> 'h NetworkManager) option" where
  "manager_worker_loop next_free k 0 w m = None"
| "manager_worker_loop next_free k (Suc fuel) w m =
     (if w = WRun then manager_worker_loop next_free k fuel WAfter (snd (run_pool_maintenance_cycle next_free k m))
      else case worker_step w (slot_pool m) of
             None \<Rightarrow> Some (w, m)
           | Some (w, p) \<Rightarrow> manager_worker_loop next_free k fuel w (m\<lparr>slot_pool := p\<rparr>))"

subsection \<open>A refill that succeeds\<close>

text \<open>
  The kernel and the bitmap can serve \<open>n\<close> fresh slots: every setup, cleanup and firewall change succeeds and
  \<open>set_next_free_bit\<close> finds a bit as long as fewer than \<open>n\<close> were taken.
\<close>

definition kernel_works :: "'h kernel \<Rightarrow> bool" where
  "kernel_works k \<longleftrightarrow>
     (\<forall>i h. fst (k_create_network k i h)) \<and> (\<forall>b i h. fst (k_cleanup k b i h)) \<and> (\<forall>h. fst (k_install_iptables k h))"

definition free_slots :: "(nat set \<Rightarrow> nat option) \<Rightarrow> nat \<Rightarrow> nat set \<Rightarrow> bool" where
  "free_slots next_free n S \<longleftrightarrow> (\<forall>T. finite T \<and> card T < n \<longrightarrow> next_free (S \<union> T) \<noteq> None)"

lemma free_slots_insert: "free_slots next_free (Suc n) S \<Longrightarrow> i \<notin> S \<Longrightarrow> free_slots next_free n (insert i S)"
  unfolding free_slots_def
proof (intro allI impI)
  fix T :: "nat set" assume f: "\<forall>T. finite T \<and> card T < Suc n \<longrightarrow> next_free (S \<union> T) \<noteq> None" and "finite T \<and> card T < n"
  then have "finite (insert i T) \<and> card (insert i T) < Suc n" by (auto simp: card_insert_if)
  then have "next_free (S \<union> insert i T) \<noteq> None" using f by blast
  then show "next_free (insert i S \<union> T) \<noteq> None" by (simp add: insert_is_Un [symmetric])
qed

lemma fresh_rules_works:
  "kernel_works k \<Longrightarrow> fst (fresh_rules k m) = Inr ()"
  by (auto simp: fresh_rules_def install_global_host_iptables_def kernel_works_def split: prod.split) (metis fst_conv)

lemma allocate_fresh_slot_works:
  assumes k: "kernel_works k" and nf: "next_free_ok next_free" and inv: "slots_inv R m held" and "\<not> manager_shutting_down m"
    and fr: "free_slots next_free (Suc n) (allocated m)"
  obtains slot m' where "allocate_fresh_slot next_free k m = (Inr slot, m')" "slot_pool m' = slot_pool m"
    "\<not> manager_shutting_down m'" "slots_inv R m' (slot # held)" "free_slots next_free n (allocated m')"
proof -
  obtain m1 where r: "fresh_rules k m = (Inr (), m1)" using fresh_rules_works [OF k, of m] by (cases "fresh_rules k m") auto
  note f1 = fresh_rules_frame [OF r]
  then have i1: "slots_inv R m1 held" by (intro slots_inv_frame [OF inv]) auto
  obtain r2 m2 where t: "fresh_take next_free m1 = (r2, m2)" by fastforce
  have nn: "next_free (allocated m1) \<noteq> None" using fr f1 unfolding free_slots_def by (auto dest: spec [of _ "{}"])
  obtain slot where 2: "r2 = Inr slot" "slot_idx slot \<notin> allocated m1" "m2 = m1\<lparr>allocated := insert (slot_idx slot) (allocated m1)\<rparr>"
    using nn by (cases rule: fresh_take_cases [OF nf i1 t]) auto
  obtain h where c: "k_create_network k (slot_idx slot) (host m2) = (True, h)"
    using k by (metis (full_types) kernel_works_def prod.collapse)
  let ?s = "slot\<lparr>cleanup_armed := True\<rparr>" and ?m = "m2\<lparr>host := h\<rparr>"
  have a: "allocate_fresh_slot next_free k m = (Inr ?s, ?m)"
    using assms(4) r t 2 c f1 by (simp add: allocate_fresh_slot_def create_network_def Let_def)
  have "free_slots next_free n (allocated ?m)" using free_slots_insert [of next_free n "allocated m"] fr 2 f1 by simp
  then show ?thesis using that [OF a] allocate_fresh_slot_inv [OF nf inv a] assms(4) by simp
qed

lemma fill_loop_works:
  assumes k: "kernel_works k" and nf: "next_free_ok next_free"
  shows "slots_inv R m held \<Longrightarrow> \<not> manager_shutting_down m \<Longrightarrow> \<not> shutting_down (slot_pool m) \<Longrightarrow> free_slots next_free n (allocated m)
    \<Longrightarrow> length (pool (slot_pool m)) + n \<le> high_watermark (pool_config (slot_pool m))
    \<Longrightarrow> \<exists>m' new. fill_loop next_free k n m = (Inr (), m') \<and> slot_pool m' = (slot_pool m)\<lparr>pool := pool (slot_pool m) @ new\<rparr>
        \<and> length new = n \<and> \<not> manager_shutting_down m'"
proof (induction n arbitrary: m)
  case (Suc n)
  obtain slot m1 where a: "allocate_fresh_slot next_free k m = (Inr slot, m1)" "slot_pool m1 = slot_pool m"
    "\<not> manager_shutting_down m1" "slots_inv R m1 (slot # held)" "free_slots next_free n (allocated m1)"
    using allocate_fresh_slot_works [OF k nf Suc.prems(1,2,4)] by blast
  let ?p = "(slot_pool m)\<lparr>pool := pool (slot_pool m) @ [slot]\<rparr>"
  have p: "try_push_bounded slot (slot_pool m1) = (Inr (), ?p)"
    using a(2) Suc.prems(3,5) by (simp add: try_push_bounded_def push_section_def)
  obtain m' new where "fill_loop next_free k n (m1\<lparr>slot_pool := ?p\<rparr>) = (Inr (), m')"
    "slot_pool m' = ?p\<lparr>pool := pool ?p @ new\<rparr>" "length new = n" "\<not> manager_shutting_down m'"
    using Suc.IH [OF push_inv [OF a(4) p]] a(3,5) Suc.prems(3,5) by auto
  then show ?case using Suc.prems(2) a(1) p by (intro exI [of _ m'] exI [of _ "slot # new"]) simp
qed (auto intro!: exI [of _ "[]"])

lemma cleanup_works:
  assumes k: "kernel_works k" and inv: "slots_inv R m (slot # held)"
  obtains m' where "cleanup_slot_and_release_bit k slot m = (Inr (), m')" "slots_inv R m' held" "slot_pool m' = slot_pool m"
    "manager_shutting_down m' = manager_shutting_down m"
proof -
  obtain r m' where c: "cleanup_slot_and_release_bit_inner k slot False m = (r, m')" by fastforce
  note f = cleanup_slots_inv [OF inv c]
  have l: "0 < slot_idx slot" "slot_idx slot < NETWORK_MAX_SLOTS" "slot_idx slot \<in> allocated m"
    using slots_inv_live [OF inv, of slot] by auto
  have "fst (k_cleanup k False (slot_idx slot) (host m))" using k by (simp add: kernel_works_def)
  then have "r = Inr ()" using c l
    by (auto simp: cleanup_slot_and_release_bit_inner_def Slot_cleanup_def release_slot_bit_def Let_def split: prod.splits if_splits)
  then show ?thesis using that c f by (simp add: cleanup_slot_and_release_bit_def)
qed

lemma drain_loop_works:
  assumes k: "kernel_works k"
  shows "slots_inv R m held \<Longrightarrow> n \<le> length (pool (slot_pool m))
    \<Longrightarrow> \<exists>m'. drain_loop k n m = (Inr (), m') \<and> manager_shutting_down m' = manager_shutting_down m
        \<and> slot_pool m' = (slot_pool m)\<lparr>pool := take (length (pool (slot_pool m)) - n) (pool (slot_pool m))\<rparr>"
proof (induction n arbitrary: m)
  case (Suc n)
  obtain v p where t: "try_drain_one (slot_pool m) = (v, p)" by fastforce
  then obtain x xs where x: "v = Some x" "pool (slot_pool m) = xs @ [x]" "p = (slot_pool m)\<lparr>pool := xs\<rparr>"
    using Suc.prems(2) by (cases rule: try_drain_one_cases) auto
  have "slots_inv R (m\<lparr>slot_pool := p\<rparr>) (x # held)" by (rule slots_inv_perm [OF Suc.prems(1)]) (use x in auto)
  then obtain m1 where c: "cleanup_slot_and_release_bit k x (m\<lparr>slot_pool := p\<rparr>) = (Inr (), m1)" "slots_inv R m1 held"
    "slot_pool m1 = p" "manager_shutting_down m1 = manager_shutting_down m"
    by (rule cleanup_works [OF k]) auto
  then show ?case using Suc.IH [OF c(2)] Suc.prems(2) t x by auto
qed auto

lemma cycle_settles:
  assumes k: "kernel_works k" and nf: "next_free_ok next_free" and inv: "slots_inv R m held"
    and w: "watermarks_ok (slot_pool m)" and s: "\<not> manager_shutting_down m" "\<not> shutting_down (slot_pool m)"
    and fr: "free_slots next_free (fill_target (slot_pool m) - length (pool (slot_pool m))) (allocated m)"
  obtains m' ps where "run_pool_maintenance_cycle next_free k m = (Inr (), m')" "slot_pool m' = (slot_pool m)\<lparr>pool := ps\<rparr>"
    "fill_target (slot_pool m) \<le> length ps" "length ps \<le> high_watermark (pool_config (slot_pool m))"
proof (cases "compute_maintenance_action (slot_pool m) (length (pool (slot_pool m)))")
  case (Fill l)
  then have l: "length (pool (slot_pool m)) < fill_target (slot_pool m)" "l = fill_target (slot_pool m) - length (pool (slot_pool m))"
    using w by (auto simp: action_Fill current_fill_target_ok)
  then have "length (pool (slot_pool m)) + l \<le> high_watermark (pool_config (slot_pool m))" using w by (simp add: watermarks_ok_def)
  then obtain m' new where "fill_loop next_free k l m = (Inr (), m')" "slot_pool m' = (slot_pool m)\<lparr>pool := pool (slot_pool m) @ new\<rparr>" "length new = l"
    using fill_loop_works [OF k nf inv s, of l] fr l by auto
  then show ?thesis using that Fill l w by (simp add: run_pool_maintenance_cycle_def watermarks_ok_def)
next
  case (Drain l)
  then have l: "high_watermark (pool_config (slot_pool m)) < length (pool (slot_pool m))" "l = length (pool (slot_pool m)) - high_watermark (pool_config (slot_pool m))"
    by (auto simp: action_Drain)
  then obtain m' where "drain_loop k l m = (Inr (), m')"
    "slot_pool m' = (slot_pool m)\<lparr>pool := take (length (pool (slot_pool m)) - l) (pool (slot_pool m))\<rparr>"
    using drain_loop_works [OF k inv, of l] by auto
  then show ?thesis using that Drain l w by (simp add: run_pool_maintenance_cycle_def watermarks_ok_def)
next
  case Idle
  then have "run_pool_maintenance_cycle next_free k m = (Inr (), m)" by (simp add: run_pool_maintenance_cycle_def)
  then show ?thesis using that [of m "pool (slot_pool m)"] Idle w by (simp add: Idle_ok)
qed

lemma worker_settles:
  assumes c: "run_pool_maintenance_cycle next_free k (m\<lparr>slot_pool := p\<rparr>) = (r, m')" and "p = (slot_pool m)\<lparr>maintenance_signal := (maintenance_signal (slot_pool m))\<lparr>pending := False\<rparr>\<rparr>"
    and "slot_pool m' = p\<lparr>pool := ps\<rparr>" "compute_maintenance_action p (length ps) = Idle"
    and "\<not> shutting_down (slot_pool m)" "\<not> stop (maintenance_signal (slot_pool m))" "pending (maintenance_signal (slot_pool m))"
  shows "manager_worker_loop next_free k 7 (WTop False) m = Some (WTop False, m')"
proof -
  have "compute_maintenance_action (slot_pool m') (length (pool (slot_pool m'))) = Idle"
    using assms(3,4) by (simp add: action_Idle current_fill_target_def)
  moreover have "\<not> shutting_down (slot_pool m')" "\<not> stop (maintenance_signal (slot_pool m'))" "\<not> pending (maintenance_signal (slot_pool m'))"
    using assms(2,3,5,6) by simp_all
  moreover have "m'\<lparr>slot_pool := slot_pool m'\<rparr> = m'" by simp
  ultimately show ?thesis using assms by (simp add: eval_nat_numeral)
qed

text \<open>
  C18. The maintenance worker comes to rest: when the kernel's operations succeed and enough slots are
  free, a worker that finds work pending runs one cycle and waits again, with the pool between the
  refill target and the high watermark.
\<close>

theorem network_worker_settles:
  assumes "kernel_works k" "next_free_ok next_free" "slots_inv R m held" "watermarks_ok (slot_pool m)"
    and "\<not> manager_shutting_down m" "\<not> shutting_down (slot_pool m)"
    and "\<not> stop (maintenance_signal (slot_pool m))" "pending (maintenance_signal (slot_pool m))"
    and "free_slots next_free (fill_target (slot_pool m) - length (pool (slot_pool m))) (allocated m)"
  shows "\<exists>m'. manager_worker_loop next_free k 7 (WTop False) m = Some (WTop False, m')
    \<and> fill_target (slot_pool m) \<le> length (pool (slot_pool m'))
    \<and> length (pool (slot_pool m')) \<le> high_watermark (pool_config (slot_pool m))"
proof -
  let ?p = "(slot_pool m)\<lparr>maintenance_signal := (maintenance_signal (slot_pool m))\<lparr>pending := False\<rparr>\<rparr>"
  let ?m = "m\<lparr>slot_pool := ?p\<rparr>"
  have inv: "slots_inv R ?m held" by (rule slots_inv_frame [OF assms(3)]) simp_all
  obtain m' ps where c: "run_pool_maintenance_cycle next_free k ?m = (Inr (), m')" "slot_pool m' = (slot_pool ?m)\<lparr>pool := ps\<rparr>"
    "fill_target (slot_pool ?m) \<le> length ps" "length ps \<le> high_watermark (pool_config (slot_pool ?m))"
    by (rule cycle_settles [OF assms(1,2) inv]) (use assms in \<open>simp_all add: watermarks_ok_def\<close>)
  have w: "watermarks_ok ?p" using assms(4) by (simp add: watermarks_ok_def)
  have "manager_worker_loop next_free k 7 (WTop False) m = Some (WTop False, m')"
    by (rule worker_settles [OF c(1) refl]) (use c(2-4) w assms(6-8) in \<open>simp_all add: Idle_ok\<close>)
  then show ?thesis using c(2-4) by simp
qed

definition refill_stuck :: "(nat set \<Rightarrow> nat option) \<Rightarrow> 'h NetworkManager \<Rightarrow> bool" where
  "refill_stuck next_free m \<longleftrightarrow>
     next_free (allocated m) = None \<and> length (pool (slot_pool m)) < current_fill_target (slot_pool m)
     \<and> host_iptables_installed m \<and> \<not> manager_shutting_down m \<and> \<not> shutting_down (slot_pool m)
     \<and> \<not> stop (maintenance_signal (slot_pool m)) \<and> pending (maintenance_signal (slot_pool m))"

lemma stuck_cycle:
  assumes "next_free (allocated m) = None" "host_iptables_installed m" "\<not> manager_shutting_down m"
    "length (pool (slot_pool m)) < current_fill_target (slot_pool m)"
  shows "snd (run_pool_maintenance_cycle next_free k m) = m"
proof -
  obtain l where "compute_maintenance_action (slot_pool m) (length (pool (slot_pool m))) = Fill (Suc l)"
    using assms(4) by (metis Suc_diff_Suc action_Fill)
  moreover have "allocate_fresh_slot next_free k m = (Inl (Err ''No available slots''), m)"
    using assms(1-3) by (simp add: allocate_fresh_slot_def fresh_rules_def fresh_take_def)
  ultimately show ?thesis using assms(3) by (simp add: run_pool_maintenance_cycle_def)
qed

lemma stuck_loop:
  assumes "next_free (allocated m) = None" "host_iptables_installed m" "\<not> manager_shutting_down m" "\<not> shutting_down (slot_pool m)"
    "length (pool (slot_pool m)) < current_fill_target (slot_pool m)"
    "w \<in> {WTop True, WChecked, WRun, WAfter, WLen, WCompute (length (pool (slot_pool m)))}"
  shows "manager_worker_loop next_free k fuel w m = None"
  using assms(6)
proof (induction fuel arbitrary: w)
  case (Suc fuel)
  have "compute_maintenance_action (slot_pool m) (length (pool (slot_pool m))) \<noteq> Idle"
    using assms(5) by (simp add: action_Idle)
  moreover have "m\<lparr>slot_pool := slot_pool m\<rparr> = m" by simp
  ultimately show ?case using Suc.prems Suc.IH assms(4) stuck_cycle [of next_free m k, OF assms(1-3,5)]
    by (elim insertE) simp_all
qed simp

text \<open>
  C35. A refill that cannot succeed spins: when no slot index is free and the pool is below its refill target,
  the worker never waits again but runs cycle after cycle, whatever the number of its steps.
\<close>

theorem network_refill_spins:
  assumes "refill_stuck next_free m"
  shows "manager_worker_loop next_free k fuel (WTop False) m = None"
proof (cases fuel)
  case (Suc f)
  let ?m = "m\<lparr>slot_pool := (slot_pool m)\<lparr>maintenance_signal := (maintenance_signal (slot_pool m))\<lparr>pending := False\<rparr>\<rparr>\<rparr>"
  have "manager_worker_loop next_free k f WChecked ?m = None"
    by (rule stuck_loop) (use assms in \<open>auto simp: refill_stuck_def current_fill_target_def\<close>)
  then show ?thesis using assms Suc by (simp add: refill_stuck_def)
qed simp

definition waiting_manager :: "sample_host NetworkManager" where
  "waiting_manager = sample_manager\<lparr>slot_pool := request_maintenance (slot_pool sample_manager)\<rparr>"

lemma sample_kernel_works: "kernel_works (sample_kernel\<lparr>k_create_network := (\<lambda>idx h. (True, h\<lparr>veths := idx # veths h\<rparr>))\<rparr>)"
  by (simp add: kernel_works_def sample_kernel_def)

lemma sample_manager_inv: "slots_inv (allocated sample_manager) sample_manager []"
  unfolding sample_manager_def by (rule with_config_inv [OF resolved_plan_ok [OF sample_ipnetwork_ok sample_resolved]])

lemma sample_free: "free_slots sample_next_free 1 (allocated sample_manager)"
proof -
  have "allocated sample_manager = {Suc (Suc 0), 0}" by (simp add: sample_manager_def network_defs Let_def)
  moreover have "1 \<notin> T" if "finite T \<and> card T < 1" for T :: "nat set" using that by auto
  ultimately show ?thesis by (auto simp: free_slots_def sample_next_free_def)
qed

theorem network_worker_settles_witness:
  "\<exists>m'. manager_worker_loop sample_next_free (sample_kernel\<lparr>k_create_network := (\<lambda>idx h. (True, h\<lparr>veths := idx # veths h\<rparr>))\<rparr>) 7
      (WTop False) waiting_manager = Some (WTop False, m')
    \<and> fill_target (slot_pool waiting_manager) \<le> length (pool (slot_pool m'))
    \<and> length (pool (slot_pool m')) \<le> high_watermark (pool_config (slot_pool waiting_manager))"
proof -
  have p: "pool (slot_pool waiting_manager) = []" "fill_target (slot_pool waiting_manager) = 1" "\<not> manager_shutting_down waiting_manager"
    "\<not> shutting_down (slot_pool waiting_manager)" "\<not> stop (maintenance_signal (slot_pool waiting_manager))"
    "pending (maintenance_signal (slot_pool waiting_manager))" "watermarks_ok (slot_pool waiting_manager)"
    by (simp_all add: waiting_manager_def sample_manager_def network_defs Let_def watermarks_ok_def)
  have i: "slots_inv (allocated sample_manager) waiting_manager []"
    by (rule slots_inv_frame [OF sample_manager_inv]) (simp_all add: waiting_manager_def)
  have "free_slots sample_next_free 1 (allocated waiting_manager)" using sample_free by (simp add: waiting_manager_def)
  then show ?thesis using network_worker_settles [OF sample_kernel_works sample_next_free_ok i p(7,3-6)] p(1,2) by simp
qed

definition stuck_manager :: "sample_host NetworkManager" where
  "stuck_manager = waiting_manager\<lparr>allocated := {0, 1, 2, 3}, host_iptables_installed := True\<rparr>"

theorem network_refill_spins_witness:
  "refill_stuck sample_next_free stuck_manager
   \<and> manager_worker_loop sample_next_free sample_kernel 1000 (WTop False) stuck_manager = None"
proof -
  have "refill_stuck sample_next_free stuck_manager"
    by (simp add: refill_stuck_def stuck_manager_def waiting_manager_def sample_manager_def network_defs Let_def)
  then show ?thesis using network_refill_spins by blast
qed

section \<open>Two fresh allocations\<close>

text \<open>
  An allocation whose setup fails clears its bit and only then, when its slot goes out of scope, tears the
  slot down. Another allocation can take the index in between: its stages run between the two last stages of
  the failing one.
\<close>

definition failing_allocation :: "(nat set \<Rightarrow> nat option) \<Rightarrow> 'h kernel \<Rightarrow> 'h NetworkManager \<Rightarrow> (Slot \<times> 'h NetworkManager) option" where
  "failing_allocation next_free k m =
     (case fresh_take next_free m of
        (Inr slot, m) \<Rightarrow>
          (case create_network k slot (host m) of
             ((False, slot), h) \<Rightarrow> Some (slot, fresh_failed slot (m\<lparr>host := h\<rparr>))
           | ((True, _), _) \<Rightarrow> None)
      | (Inl _, _) \<Rightarrow> None)"

definition racing_allocations ::
    "(nat set \<Rightarrow> nat option) \<Rightarrow> 'h kernel \<Rightarrow> 'h NetworkManager \<Rightarrow> ((error + Slot) \<times> 'h NetworkManager) option" where
  "racing_allocations next_free k m =
     (case failing_allocation next_free k m of
        None \<Rightarrow> None
      | Some (failed, m) \<Rightarrow>
          (case allocate_fresh_slot next_free k m of (r, m) \<Rightarrow> Some (r, on_host (Slot_drop k failed) m)))"

lemma failing_then_drop:
  assumes "failing_allocation next_free k m = Some (failed, m')" "host_iptables_installed m" "\<not> manager_shutting_down m"
  shows "allocate_fresh_slot next_free k m = (Inl (Err ''Failed to create network''), on_host (Slot_drop k failed) m')"
  using assms by (auto simp: failing_allocation_def allocate_fresh_slot_def fresh_rules_def Let_def
      split: prod.splits sum.splits bool.splits)

text \<open>
  C34. A failed allocation can tear down a slot that another allocation has just handed out: when the setup of
  the first fails and the second takes the same index before the first slot is dropped, the second call
  returns a slot, its bit stays set, and the last thing done on the host is the cleanup of its index.
\<close>

theorem failed_allocation_clobbers:
  assumes "plan_ok (address_plan m)" "host_iptables_installed m" "\<not> manager_shutting_down m"
    and "next_free (allocated m) = Some i" "0 < i" "i < NETWORK_MAX_SLOTS" "i \<notin> allocated m"
    and "k_create_network k i (host m) = (False, h)" "k_create_network k i h = (True, h')"
  shows "\<exists>slot m'. racing_allocations next_free k m = Some (Inr slot, m') \<and> slot_idx slot = i \<and> i \<in> allocated m'
    \<and> host m' = snd (k_cleanup k True i h')"
proof -
  obtain slot where s: "Slot_new i (address_plan m) = Inr slot" "slot_idx slot = i"
    using Slot_new_ok [OF assms(1,5,6)] by blast
  have t: "fresh_take next_free m = (Inr slot, m\<lparr>allocated := insert i (allocated m)\<rparr>)"
    using assms(4) s(1) by (simp add: fresh_take_def)
  let ?s = "slot\<lparr>cleanup_armed := True\<rparr>" and ?m = "m\<lparr>host := h\<rparr>"
  have "fresh_failed ?s (m\<lparr>allocated := insert i (allocated m), host := h\<rparr>) = ?m"
    using assms(7) s(2) by (simp add: fresh_failed_def)
  then have f: "failing_allocation next_free k m = Some (?s, ?m)"
    using t assms(8) s(2) by (simp add: failing_allocation_def create_network_def)
  have "allocate_fresh_slot next_free k ?m = (Inr ?s, m\<lparr>allocated := insert i (allocated m), host := h'\<rparr>)"
    using assms(2-4,9) s by (simp add: allocate_fresh_slot_def fresh_rules_def fresh_take_def create_network_def Let_def)
  then show ?thesis using f s(2) by (auto simp: racing_allocations_def Slot_drop_def Slot_cleanup_def split: prod.split)
qed

definition racing_manager :: "sample_host NetworkManager" where
  "racing_manager = sample_manager\<lparr>host := \<lparr>veths = [2], setups = [False, True]\<rparr>\<rparr>"

theorem failed_allocation_clobbers_witness:
  "\<exists>slot m'. racing_allocations sample_next_free sample_kernel racing_manager = Some (Inr slot, m')
     \<and> slot_idx slot = 1 \<and> 1 \<in> allocated m' \<and> veths (host m') = [2]"
proof -
  let ?h = "\<lparr>veths = [2], setups = [True]\<rparr>" and ?h' = "\<lparr>veths = [1, 2], setups = []\<rparr>"
  have p: "plan_ok (address_plan racing_manager)"
    using sample_manager_inv by (simp add: racing_manager_def slots_inv_def Let_def)
  have m: "host_iptables_installed racing_manager" "\<not> manager_shutting_down racing_manager"
    "sample_next_free (allocated racing_manager) = Some 1" "1 \<notin> allocated racing_manager"
    by (simp_all add: racing_manager_def sample_manager_def network_defs Let_def)
  have k: "k_create_network sample_kernel 1 (host racing_manager) = (False, ?h)" "k_create_network sample_kernel 1 ?h = (True, ?h')"
    "snd (k_cleanup sample_kernel True 1 ?h') = \<lparr>veths = [2], setups = []\<rparr>"
    by (simp_all add: racing_manager_def sample_kernel_def)
  have i: "0 < (1::nat)" "1 < NETWORK_MAX_SLOTS" by (simp_all add: NETWORK_MAX_SLOTS_def)
  from failed_allocation_clobbers [where m = racing_manager and next_free = sample_next_free and k = sample_kernel, OF p m(1-3) i m(4) k(1,2)] k(3) show ?thesis by fastforce
qed

end
