(* ===== verification/Pagination.thy ===== *)
theory Pagination
  imports Prelude "HOL-Library.Multiset"
begin

text \<open>
  Cursor pagination of the HTTP API, \<^verbatim>\<open>api/impls/pagination.rs\<close>, and the page of the sandbox listing in
  \<^verbatim>\<open>api/impls/sandbox.rs\<close>. A string is its bytes. Base64, RFC 3339 and the text form of cursor values are
  parameters. The lemmas show when tokens round trip and that following them enumerates a listing.
\<close>

section \<open>Cursors\<close>

record ('t, 'v) PaginationCursor =
  cursor_time :: 't
  cursor_value :: 'v
  cursor_descending :: bool

record 'i Paginated =
  page_items :: "'i list"
  next_token :: "string option"

datatype PaginationError =
  DecodeCursor | InvalidCursorFormat | InvalidCursorUtf8 | InvalidCursorTimestamp | InvalidCursorValue

definition new_descending :: "'t \<Rightarrow> 'v \<Rightarrow> ('t, 'v) PaginationCursor" where
  "new_descending t v = \<lparr>cursor_time = t, cursor_value = v, cursor_descending = True\<rparr>"

definition new_ascending :: "'t \<Rightarrow> 'v \<Rightarrow> ('t, 'v) PaginationCursor" where
  "new_ascending t v = \<lparr>cursor_time = t, cursor_value = v, cursor_descending = False\<rparr>"

subsection \<open>Strings\<close>

text \<open>
  A Rust string is its bytes, which are well-formed UTF-8. The first and the last occurrence of a pattern
  split a string in two.
\<close>

fun split_once :: "string \<Rightarrow> string \<Rightarrow> (string \<times> string) option" where
  "split_once pat [] = None"
| "split_once pat (c # cs) =
     (if take (length pat) (c # cs) = pat then Some ([], drop (length pat) (c # cs))
      else case split_once pat cs of None \<Rightarrow> None | Some (a, b) \<Rightarrow> Some (c # a, b))"

definition rsplit_once :: "string \<Rightarrow> string \<Rightarrow> (string \<times> string) option" where
  "rsplit_once pat s =
     (case split_once (rev pat) (rev s) of None \<Rightarrow> None | Some (a, b) \<Rightarrow> Some (rev b, rev a))"

definition continuation :: "nat \<Rightarrow> bool" where
  "continuation b \<longleftrightarrow> 128 \<le> b \<and> b < 192"

definition utf8_len :: "nat \<Rightarrow> nat" where
  "utf8_len b =
     (if b < 128 then 1 else if 194 \<le> b \<and> b < 224 then 2 else if 224 \<le> b \<and> b < 240 then 3
      else if 240 \<le> b \<and> b < 245 then 4 else 0)"

definition second_ok :: "nat \<Rightarrow> nat \<Rightarrow> bool" where
  "second_ok b c =
     (if b = 224 then 160 \<le> c \<and> c < 192 else if b = 237 then 128 \<le> c \<and> c < 160
      else if b = 240 then 144 \<le> c \<and> c < 192 else if b = 244 then 128 \<le> c \<and> c < 144 else continuation c)"

definition utf8_seq :: "nat list \<Rightarrow> bool" where
  "utf8_seq bs =
     (case bs of
        [] \<Rightarrow> False
      | b # _ \<Rightarrow>
          0 < utf8_len b \<and> utf8_len b \<le> length bs \<and> (2 \<le> utf8_len b \<longrightarrow> second_ok b (bs ! 1))
          \<and> list_all (\<lambda>i. continuation (bs ! i)) [2..<utf8_len b])"

function well_formed :: "nat list \<Rightarrow> bool" where
  "well_formed bs = (if bs = [] then True else if utf8_seq bs then well_formed (drop (utf8_len (hd bs)) bs) else False)"
  by pat_completeness auto

termination
  by (relation "measure length") (auto simp: utf8_seq_def split: list.splits)

declare well_formed.simps [simp del]

definition utf8 :: "string \<Rightarrow> bool" where
  "utf8 s = well_formed (map of_char s)"

definition from_utf8 :: "string \<Rightarrow> string option" where
  "from_utf8 bytes = (if utf8 bytes then Some bytes else None)"

subsection \<open>Encoding and parsing\<close>

text \<open>
  The base64 and RFC 3339 codecs come from crates, the text form of the cursor value from its type: they are
  the parameters of encoding and parsing.
\<close>

record ('t, 'v) cursor_codec =
  b64_encode :: "string \<Rightarrow> string"
  b64_decode :: "string \<Rightarrow> string option"
  to_rfc3339 :: "'t \<Rightarrow> string"
  parse_rfc3339 :: "string \<Rightarrow> 't option"
  display_value :: "'v \<Rightarrow> string"
  value_try_from :: "string \<Rightarrow> 'v option"

definition cursor_encode :: "('t, 'v) cursor_codec \<Rightarrow> ('t, 'v) PaginationCursor \<Rightarrow> string" where
  "cursor_encode k c =
     (let raw = to_rfc3339 k (cursor_time c) @ ''__'' @ display_value k (cursor_value c);
          raw = (if \<not> cursor_descending c then raw @ ''__asc'' else raw)
      in b64_encode k raw)"

definition cursor_parse :: "('t, 'v) cursor_codec \<Rightarrow> string \<Rightarrow> PaginationError + ('t, 'v) PaginationCursor" where
  "cursor_parse k token =
     (case b64_decode k token of
        None \<Rightarrow> Inl DecodeCursor
      | Some bytes \<Rightarrow>
     (case from_utf8 bytes of
        None \<Rightarrow> Inl InvalidCursorUtf8
      | Some decoded \<Rightarrow>
     (case split_once ''__'' decoded of
        None \<Rightarrow> Inl InvalidCursorFormat
      | Some (timestamp, encoded_value) \<Rightarrow>
          let direction =
            (case rsplit_once ''__'' encoded_value of
               Some (value, suffix) \<Rightarrow> if suffix = ''asc'' then Some (value, False) else None
             | None \<Rightarrow> Some (encoded_value, True))
          in case direction of
               None \<Rightarrow> Inl InvalidCursorFormat
             | Some (value, descending) \<Rightarrow>
                 (case parse_rfc3339 k timestamp of
                    None \<Rightarrow> Inl InvalidCursorTimestamp
                  | Some t \<Rightarrow>
                      (case value_try_from k value of
                         None \<Rightarrow> Inl InvalidCursorValue
                       | Some v \<Rightarrow> Inr \<lparr>cursor_time = t, cursor_value = v, cursor_descending = descending\<rparr>)))))"

section \<open>Pages\<close>

datatype ordering = Less | Equal | Greater

definition cmp :: "'a::linorder \<Rightarrow> 'a \<Rightarrow> ordering" where
  "cmp a b = (if a < b then Less else if a = b then Equal else Greater)"

definition then_with :: "ordering \<Rightarrow> ordering \<Rightarrow> ordering" where
  "then_with o1 o2 = (case o1 of Equal \<Rightarrow> o2 | _ \<Rightarrow> o1)"

definition cursor_compare :: "bool \<Rightarrow> 't::linorder \<Rightarrow> 'v::linorder \<Rightarrow> 't \<Rightarrow> 'v \<Rightarrow> ordering" where
  "cursor_compare descending a_time a_value b_time b_value =
     then_with (if descending then cmp b_time a_time else cmp a_time b_time)
       (if descending then cmp a_value b_value else cmp b_value a_value)"

definition paginate_sorted ::
    "('t, 'v) cursor_codec \<Rightarrow> ('t, 'v) PaginationCursor \<Rightarrow> 'i list \<Rightarrow> nat option
      \<Rightarrow> ('i \<Rightarrow> ('t, 'v) PaginationCursor \<Rightarrow> ordering) \<Rightarrow> ('i \<Rightarrow> ('t, 'v) PaginationCursor) \<Rightarrow> 'i Paginated" where
  "paginate_sorted k self items limit compare_cursor to_cursor =
     (if limit = Some 0 then \<lparr>page_items = [], next_token = None\<rparr>
      else let items = filter (\<lambda>item. compare_cursor item self = Greater) items
           in case limit of
                None \<Rightarrow> \<lparr>page_items = items, next_token = None\<rparr>
              | Some l \<Rightarrow>
                  if length items > l
                  then \<lparr>page_items = take l items, next_token = Some (cursor_encode k (to_cursor (items ! (l - 1))))\<rparr>
                  else \<lparr>page_items = items, next_token = None\<rparr>)"

text \<open>The stable sort of the standard library, on the comparison of two items.\<close>

fun insort_cmp :: "('i \<Rightarrow> 'i \<Rightarrow> ordering) \<Rightarrow> 'i \<Rightarrow> 'i list \<Rightarrow> 'i list" where
  "insort_cmp c x [] = [x]"
| "insort_cmp c x (y # ys) = (if c x y = Greater then y # insort_cmp c x ys else x # y # ys)"

fun sort_by :: "('i \<Rightarrow> 'i \<Rightarrow> ordering) \<Rightarrow> 'i list \<Rightarrow> 'i list" where
  "sort_by c [] = []"
| "sort_by c (x # xs) = insort_cmp c x (sort_by c xs)"

definition paginate ::
    "('t, 'v) cursor_codec \<Rightarrow> ('t, 'v) PaginationCursor \<Rightarrow> 'i list \<Rightarrow> nat option \<Rightarrow> ('i \<Rightarrow> 'i \<Rightarrow> ordering)
      \<Rightarrow> ('i \<Rightarrow> ('t, 'v) PaginationCursor \<Rightarrow> ordering) \<Rightarrow> ('i \<Rightarrow> ('t, 'v) PaginationCursor) \<Rightarrow> 'i Paginated" where
  "paginate k self items limit sort_fn compare_cursor to_cursor =
     (if limit = Some 0 then \<lparr>page_items = [], next_token = None\<rparr>
      else paginate_sorted k self (sort_by sort_fn items) limit compare_cursor to_cursor)"

text \<open>
  One page of the sandbox listing, as the handler computes it: the cursor of the token, which must have been
  issued for the requested order, or the one before the first item; then the page. An item is its creation
  time and its id.
\<close>

datatype page_error = BadToken PaginationError | DifferentOrder

definition listing_cursor ::
    "('t, 'v) cursor_codec \<Rightarrow> 't \<Rightarrow> 't \<Rightarrow> 'v \<Rightarrow> bool \<Rightarrow> string option \<Rightarrow> page_error + ('t, 'v) PaginationCursor" where
  "listing_cursor k now epoch max_id descending token =
     (case token of
        Some t \<Rightarrow>
          (case cursor_parse k t of
             Inr c \<Rightarrow> if cursor_descending c = descending then Inr c else Inl DifferentOrder
           | Inl e \<Rightarrow> Inl (BadToken e))
      | None \<Rightarrow> Inr (if descending then new_descending now max_id else new_ascending epoch max_id))"

definition listing_page ::
    "('t::linorder, 'v::linorder) cursor_codec \<Rightarrow> bool \<Rightarrow> ('t \<times> 'v) list \<Rightarrow> nat option \<Rightarrow> ('t, 'v) PaginationCursor \<Rightarrow> ('t \<times> 'v) Paginated" where
  "listing_page k descending list limit cursor =
     paginate k cursor list limit
       (\<lambda>a b. cursor_compare descending (fst a) (snd a) (fst b) (snd b))
       (\<lambda>s c. cursor_compare descending (fst s) (snd s) (cursor_time c) (cursor_value c))
       (\<lambda>s. \<lparr>cursor_time = fst s, cursor_value = snd s, cursor_descending = descending\<rparr>)"

section \<open>Round trip of tokens\<close>

lemma utf8_seq_append: "utf8_seq xs \<Longrightarrow> utf8_seq (xs @ ys)"
  by (cases xs) (auto simp: utf8_seq_def list_all_iff nth_append nth_Cons')

lemma well_formed_Nil [simp]: "well_formed []"
  by (simp add: well_formed.simps)

lemma well_formed_ascii: "b < 128 \<Longrightarrow> well_formed (b # bs) = well_formed bs"
  by (simp add: well_formed.simps [of "b # bs"] utf8_seq_def utf8_len_def)

lemma well_formed_append: "well_formed xs \<Longrightarrow> well_formed (xs @ ys) = well_formed ys"
proof (induction xs rule: well_formed.induct)
  case (1 xs)
  show ?case
  proof (cases "xs = []")
    case False
    then have s: "utf8_seq xs" "well_formed (drop (utf8_len (hd xs)) xs)"
      using "1.prems" well_formed.simps [of xs] by (auto split: if_splits)
    have l: "utf8_len (hd xs) \<le> length xs" using s(1) by (auto simp: utf8_seq_def split: list.splits)
    have "utf8_seq (xs @ ys)" using utf8_seq_append [OF s(1)] .
    then have "well_formed (xs @ ys) = well_formed (drop (utf8_len (hd xs)) xs @ ys)"
      using False l well_formed.simps [of "xs @ ys"] by simp
    also have "\<dots> = well_formed ys" using "1.IH" [OF False s] .
    finally show ?thesis .
  qed simp
qed

lemma utf8_append: "utf8 xs \<Longrightarrow> utf8 ys \<Longrightarrow> utf8 (xs @ ys)"
  by (simp add: utf8_def well_formed_append)

lemma utf8_marks: "utf8 ''__''" "utf8 ''__asc''"
  by (simp_all add: utf8_def well_formed_ascii)

lemma split_once_first: "CHR ''_'' \<notin> set t \<Longrightarrow> split_once ''__'' (t @ ''__'' @ r) = Some (t, r)"
  by (induction t) auto

lemma split_once_Some: "split_once pat s = Some (a, b) \<Longrightarrow> s = a @ pat @ b"
proof (induction s arbitrary: a)
  case (Cons c cs)
  then show ?case by (auto split: if_splits option.splits) (metis append_take_drop_id)
qed simp

lemma split_once_None: "pat \<noteq> [] \<Longrightarrow> split_once pat s = None \<longleftrightarrow> (\<nexists>a b. s = a @ pat @ b)"
proof (induction s)
  case (Cons c cs)
  show ?case
  proof (cases "take (length pat) (c # cs) = pat")
    case True
    then have "c # cs = [] @ pat @ drop (length pat) (c # cs)" by (metis append_Nil append_take_drop_id)
    then have "\<exists>a b. c # cs = a @ pat @ b" by blast
    moreover have "split_once pat (c # cs) \<noteq> None" using True by (simp only: split_once.simps if_True) simp
    ultimately show ?thesis by blast
  next
    case False
    have "(\<exists>a b. c # cs = a @ pat @ b) \<longleftrightarrow> (\<exists>a b. cs = a @ pat @ b)"
    proof
      assume "\<exists>a b. c # cs = a @ pat @ b"
      then obtain a b where e: "c # cs = a @ pat @ b" by blast
      then have "a \<noteq> []" using False by auto
      then obtain a' where "a = c # a'" "cs = a' @ pat @ b" using e by (cases a) auto
      then show "\<exists>a b. cs = a @ pat @ b" by blast
    next
      assume "\<exists>a b. cs = a @ pat @ b"
      then show "\<exists>a b. c # cs = a @ pat @ b" by (metis append_Cons)
    qed
    then show ?thesis using False Cons by (auto split: option.split)
  qed
qed simp

lemma rsplit_once_None: "pat \<noteq> [] \<Longrightarrow> rsplit_once pat s = None \<longleftrightarrow> split_once pat s = None"
proof -
  assume p: "pat \<noteq> []"
  have "(\<exists>a b. rev s = a @ rev pat @ b) \<longleftrightarrow> (\<exists>a b. s = a @ pat @ b)"
    by (metis append.assoc rev_append rev_rev_ident)
  then show ?thesis using p split_once_None [of pat s] split_once_None [of "rev pat" "rev s"]
    by (auto simp: rsplit_once_def split: option.split)
qed

lemma rsplit_once_asc: "rsplit_once ''__'' (v @ ''__asc'') = Some (v, ''asc'')"
  by (simp add: rsplit_once_def)

definition marked :: "string \<Rightarrow> bool" where
  "marked v \<longleftrightarrow> split_once ''__'' v \<noteq> None"

lemma rsplit_marked: "rsplit_once ''__'' v = None \<longleftrightarrow> \<not> marked v"
proof -
  have "(''__'' :: string) \<noteq> []" by simp
  from rsplit_once_None [OF this, of v] show ?thesis unfolding marked_def by argo
qed

text \<open>
  What the development relies on of the codecs: base64 and RFC 3339 are inverted by their parsers, a time
  stamp has no underscore, a value's text parses back to it, and texts are strings.
\<close>

definition codec_ok :: "('t, 'v) cursor_codec \<Rightarrow> bool" where
  "codec_ok k \<longleftrightarrow>
     (\<forall>s. b64_decode k (b64_encode k s) = Some s)
     \<and> (\<forall>t. parse_rfc3339 k (to_rfc3339 k t) = Some t \<and> CHR ''_'' \<notin> set (to_rfc3339 k t) \<and> utf8 (to_rfc3339 k t))
     \<and> (\<forall>v. value_try_from k (display_value k v) = Some v \<and> utf8 (display_value k v))"

lemma parse_encode_raw:
  assumes "codec_ok k"
  shows "cursor_parse k (cursor_encode k c) =
    (let encoded_value = display_value k (cursor_value c) @ (if cursor_descending c then [] else ''__asc'')
     in case (case rsplit_once ''__'' encoded_value of
               Some (value, suffix) \<Rightarrow> if suffix = ''asc'' then Some (value, False) else None
             | None \<Rightarrow> Some (encoded_value, True)) of
          None \<Rightarrow> Inl InvalidCursorFormat
        | Some (value, descending) \<Rightarrow>
            (case value_try_from k value of
               None \<Rightarrow> Inl InvalidCursorValue
             | Some v \<Rightarrow> Inr \<lparr>cursor_time = cursor_time c, cursor_value = v, cursor_descending = descending\<rparr>))"
proof -
  let ?t = "to_rfc3339 k (cursor_time c)"
  let ?e = "display_value k (cursor_value c) @ (if cursor_descending c then [] else ''__asc'')"
  have enc: "cursor_encode k c = b64_encode k (?t @ ''__'' @ ?e)" by (simp add: cursor_encode_def Let_def)
  have "utf8 ?t" "utf8 (display_value k (cursor_value c))" using assms by (simp_all add: codec_ok_def)
  then have u: "utf8 (?t @ ''__'' @ ?e)"
    by (cases "cursor_descending c") (simp_all only: if_True if_False append_Nil2 utf8_append utf8_marks)
  have s: "split_once ''__'' (?t @ ''__'' @ ?e) = Some (?t, ?e)" using assms by (intro split_once_first) (simp add: codec_ok_def)
  have "b64_decode k (cursor_encode k c) = Some (?t @ ''__'' @ ?e)" "parse_rfc3339 k ?t = Some (cursor_time c)"
    using assms enc by (simp_all add: codec_ok_def)
  then show ?thesis using u s
    unfolding cursor_parse_def from_utf8_def by (simp only: option.case if_True prod.case Let_def)
qed

lemma parse_encode:
  assumes "codec_ok k" "cursor_descending c \<Longrightarrow> \<not> marked (display_value k (cursor_value c))"
  shows "cursor_parse k (cursor_encode k c) = Inr c"
proof (cases "cursor_descending c")
  case True
  then have "rsplit_once ''__'' (display_value k (cursor_value c)) = None"
    using assms(2) rsplit_marked by blast
  then show ?thesis using True assms(1) parse_encode_raw [OF assms(1), of c] by (simp add: codec_ok_def)
next
  case False
  then show ?thesis using assms(1) parse_encode_raw [OF assms(1), of c] by (simp add: rsplit_once_asc codec_ok_def)
qed

lemma parse_encode_marked:
  assumes "codec_ok k" "cursor_descending c" "marked (display_value k (cursor_value c))"
  shows "cursor_parse k (cursor_encode k c) \<noteq> Inr c"
proof -
  have "rsplit_once ''__'' (display_value k (cursor_value c)) \<noteq> None"
    using assms(3) rsplit_marked by blast
  then show ?thesis using assms(2) parse_encode_raw [OF assms(1), of c]
    by (cases c) (auto split: option.splits prod.splits if_splits)
qed

text \<open>
  C30. Tokens round trip: an encoded cursor parses back to itself exactly when it is ascending or the text of
  its value has no double underscore, the separator of the format.
\<close>

theorem cursor_round_trip:
  assumes "codec_ok k"
  shows "cursor_parse k (cursor_encode k c) = Inr c \<longleftrightarrow> \<not> cursor_descending c \<or> split_once ''__'' (display_value k (cursor_value c)) = None"
  using parse_encode [OF assms, of c] parse_encode_marked [OF assms, of c] unfolding marked_def by blast

text \<open>A codec on strings and strings: the identity, with times written as strokes.\<close>

definition sample_codec :: "(nat, nat) cursor_codec" where
  "sample_codec =
     \<lparr>b64_encode = (\<lambda>s. s), b64_decode = Some, to_rfc3339 = (\<lambda>n. replicate n CHR ''I''),
      parse_rfc3339 = (\<lambda>s. Some (length s)),
      display_value = (\<lambda>n. replicate n CHR ''_''), value_try_from = (\<lambda>s. Some (length s))\<rparr>"

lemma utf8_replicate: "of_char c < (128::nat) \<Longrightarrow> utf8 (replicate n c)"
  by (induction n) (auto simp: utf8_def well_formed_ascii)

lemma sample_codec_ok: "codec_ok sample_codec"
  by (auto simp: codec_ok_def sample_codec_def utf8_replicate)

theorem cursor_round_trip_witness:
  "cursor_parse sample_codec (cursor_encode sample_codec \<lparr>cursor_time = 3, cursor_value = 1, cursor_descending = True\<rparr>)
     = Inr \<lparr>cursor_time = 3, cursor_value = 1, cursor_descending = True\<rparr>
   \<and> cursor_parse sample_codec (cursor_encode sample_codec \<lparr>cursor_time = 3, cursor_value = 2, cursor_descending = True\<rparr>)
     \<noteq> Inr \<lparr>cursor_time = 3, cursor_value = 2, cursor_descending = True\<rparr>"
  unfolding cursor_round_trip [OF sample_codec_ok] by (simp add: sample_codec_def eval_nat_numeral)

section \<open>Following the pages of a listing\<close>

definition after :: "bool \<Rightarrow> ('t::linorder \<times> 'v::linorder) \<Rightarrow> ('t \<times> 'v) \<Rightarrow> bool" where
  "after d a b \<longleftrightarrow> cursor_compare d (fst a) (snd a) (fst b) (snd b) = Greater"

lemma after_iff:
  "after d a b \<longleftrightarrow>
     (if d then fst a < fst b \<or> fst a = fst b \<and> snd b < snd a else fst b < fst a \<or> fst a = fst b \<and> snd a < snd b)"
  by (auto simp: after_def cursor_compare_def then_with_def cmp_def)

lemma after_irrefl [simp]: "\<not> after d a a"
  by (simp add: after_iff)

lemma after_trans: "after d a b \<Longrightarrow> after d b c \<Longrightarrow> after d a c"
  by (auto simp: after_iff split: if_splits)

lemma after_total: "a \<noteq> b \<Longrightarrow> \<not> after d a b \<Longrightarrow> after d b a"
  by (cases a, cases b) (auto simp: after_iff split: if_splits)

text \<open>A total order given by such a comparison: sorting and cutting a list at one of its items.\<close>

locale strict_total =
  fixes gt :: "'i \<Rightarrow> 'i \<Rightarrow> bool"
  assumes gt_irrefl: "\<not> gt a a"
    and gt_trans: "gt a b \<Longrightarrow> gt b c \<Longrightarrow> gt a c"
    and gt_total: "a \<noteq> b \<Longrightarrow> \<not> gt a b \<Longrightarrow> gt b a"
begin

definition ascending :: "'i list \<Rightarrow> bool" where
  "ascending xs \<longleftrightarrow> sorted_wrt (\<lambda>a b. gt b a) xs"

lemma ascending_Cons [simp]: "ascending (x # xs) \<longleftrightarrow> (\<forall>y\<in>set xs. gt y x) \<and> ascending xs"
  by (simp add: ascending_def)

lemma ascending_Nil [simp]: "ascending []"
  by (simp add: ascending_def)

lemma ascending_filter: "ascending xs \<Longrightarrow> ascending (filter P xs)"
  by (simp add: ascending_def sorted_wrt_filter)

lemma filter_above_nth:
  "ascending xs \<Longrightarrow> i < length xs \<Longrightarrow> filter (\<lambda>x. gt x (xs ! i)) xs = drop (Suc i) xs"
proof (induction xs arbitrary: i)
  case (Cons a xs)
  show ?case
  proof (cases i)
    case 0
    then show ?thesis using Cons.prems gt_irrefl by (auto simp: filter_id_conv)
  next
    case (Suc j)
    then have "xs ! j \<in> set xs" using Cons.prems by simp
    then have "gt (xs ! j) a" using Cons.prems(1) by simp
    then have "\<not> gt a (xs ! j)" using gt_irrefl gt_trans by blast
    then show ?thesis using Cons Suc by simp
  qed
qed simp

lemma filter_next_page:
  assumes "ascending xs" "0 < l" "l \<le> length (filter (\<lambda>x. gt x c) xs)"
  shows "filter (\<lambda>x. gt x (filter (\<lambda>x. gt x c) xs ! (l - 1))) xs = drop l (filter (\<lambda>x. gt x c) xs)"
proof -
  let ?ys = "filter (\<lambda>x. gt x c) xs"
  have "?ys ! (l - 1) \<in> set ?ys" using assms(2,3) by (intro nth_mem) simp
  then have "gt (?ys ! (l - 1)) c" by simp
  then have "filter (\<lambda>x. gt x (?ys ! (l - 1))) xs = filter (\<lambda>x. gt x (?ys ! (l - 1))) ?ys"
    using gt_trans by (auto simp: filter_filter intro!: filter_cong)
  also have "\<dots> = drop l ?ys"
    using filter_above_nth [OF ascending_filter [OF assms(1)], of "l - 1"] assms(2,3) by simp
  finally show ?thesis .
qed

lemma ascending_distinct: "ascending xs \<Longrightarrow> distinct xs"
  using gt_irrefl by (induction xs) auto

end

interpretation newest: strict_total "after True"
  by unfold_locales (auto intro: after_trans after_total)

interpretation oldest: strict_total "after False"
  by unfold_locales (auto intro: after_trans after_total)

lemma after_strict_total: "strict_total (after d)"
  by unfold_locales (auto intro: after_trans after_total)

abbreviation listing_order :: "bool \<Rightarrow> ('t::linorder \<times> 'v::linorder) list \<Rightarrow> bool" where
  "listing_order d \<equiv> strict_total.ascending (after d)"

subsection \<open>Sorting\<close>

lemma mset_insort_cmp [simp]: "mset (insort_cmp c x xs) = add_mset x (mset xs)"
  by (induction xs) auto

lemma mset_sort_by [simp]: "mset (sort_by c xs) = mset xs"
  by (induction xs) auto

lemma set_sort_by [simp]: "set (sort_by c xs) = set xs"
  by (rule mset_eq_setD) simp

lemma insort_order:
  assumes "x \<notin> set xs" "listing_order d xs"
  shows "listing_order d (insort_cmp (\<lambda>a b. cursor_compare d (fst a) (snd a) (fst b) (snd b)) x xs)"
proof -
  note st = after_strict_total [of d]
  have [simp]: "set (insort_cmp c x ys) = insert x (set ys)" for c and ys :: "('a \<times> 'b) list"
    by (metis mset_insort_cmp set_mset_add_mset_insert set_mset_mset)
  show ?thesis using assms
  proof (induction xs)
    case (Cons y ys)
    show ?case
    proof (cases "after d x y")
      case True
      then show ?thesis using Cons by (auto simp: strict_total.ascending_Cons [OF st] after_def [symmetric])
    next
      case False
      then have "after d y x" using Cons.prems(1) by (intro after_total) auto
      moreover then have "\<forall>z\<in>set ys. after d z x" using Cons.prems(2) after_trans by (fastforce simp: strict_total.ascending_Cons [OF st])
      ultimately show ?thesis using False Cons.prems by (auto simp: strict_total.ascending_Cons [OF st] after_def [symmetric])
    qed
  qed (simp add: strict_total.ascending_Cons [OF st] strict_total.ascending_Nil [OF st])
qed

lemma sort_by_order:
  "distinct xs \<Longrightarrow> listing_order d (sort_by (\<lambda>a b. cursor_compare d (fst a) (snd a) (fst b) (snd b)) xs)"
  by (induction xs) (simp_all add: insort_order strict_total.ascending_Nil [OF after_strict_total])

subsection \<open>All pages\<close>

text \<open>A client that asks for page after page with the token of the last one.\<close>

fun follow_pages ::
    "nat \<Rightarrow> ('t::linorder, 'v::linorder) cursor_codec \<Rightarrow> 't \<Rightarrow> 't \<Rightarrow> 'v \<Rightarrow> bool \<Rightarrow> ('t \<times> 'v) list \<Rightarrow> nat \<Rightarrow> string option
      \<Rightarrow> (page_error + ('t \<times> 'v) list list) option" where
  "follow_pages 0 k now epoch max_id d list l token = None"
| "follow_pages (Suc fuel) k now epoch max_id d list l token =
     (case listing_cursor k now epoch max_id d token of
        Inl e \<Rightarrow> Some (Inl e)
      | Inr c \<Rightarrow>
          let page = listing_page k d list (Some l) c
          in case next_token page of
               None \<Rightarrow> Some (Inr [page_items page])
             | Some t \<Rightarrow>
                 (case follow_pages fuel k now epoch max_id d list l (Some t) of
                    Some (Inr pages) \<Rightarrow> Some (Inr (page_items page # pages))
                  | r \<Rightarrow> r))"

lemma listing_page_unfold:
  assumes "0 < l"
  shows "listing_page k d list (Some l) c =
    (let ys = filter (\<lambda>x. after d x (cursor_time c, cursor_value c)) (sort_by (\<lambda>a b. cursor_compare d (fst a) (snd a) (fst b) (snd b)) list)
     in if l < length ys
        then \<lparr>page_items = take l ys,
              next_token = Some (cursor_encode k \<lparr>cursor_time = fst (ys ! (l - 1)), cursor_value = snd (ys ! (l - 1)), cursor_descending = d\<rparr>)\<rparr>
        else \<lparr>page_items = ys, next_token = None\<rparr>)"
  using assms by (simp add: listing_page_def paginate_def paginate_sorted_def after_def Let_def)

lemma follow_pages_from:
  assumes k: "codec_ok k" "d \<Longrightarrow> \<forall>v. \<not> marked (display_value k v)" and "distinct list" "0 < l"
    and c: "listing_cursor k now epoch max_id d token = Inr c"
    and "length (filter (\<lambda>x. after d x (cursor_time c, cursor_value c)) (sort_by (\<lambda>a b. cursor_compare d (fst a) (snd a) (fst b) (snd b)) list)) < fuel"
  shows "\<exists>pages. follow_pages fuel k now epoch max_id d list l token = Some (Inr pages)
    \<and> concat pages = filter (\<lambda>x. after d x (cursor_time c, cursor_value c)) (sort_by (\<lambda>a b. cursor_compare d (fst a) (snd a) (fst b) (snd b)) list)
    \<and> (\<forall>p\<in>set pages. length p \<le> l)"
  using assms(5,6)
proof (induction fuel arbitrary: token c)
  case (Suc fuel)
  let ?xs = "sort_by (\<lambda>a b. cursor_compare d (fst a) (snd a) (fst b) (snd b)) list"
  let ?ys = "filter (\<lambda>x. after d x (cursor_time c, cursor_value c)) ?xs"
  let ?c = "\<lparr>cursor_time = fst (?ys ! (l - 1)), cursor_value = snd (?ys ! (l - 1)), cursor_descending = d\<rparr>"
  note page = listing_page_unfold [OF assms(4), of k d list c]
  show ?case
  proof (cases "l < length ?ys")
    case False
    then show ?thesis using Suc.prems(1) page by simp
  next
    case True
    then have rest: "filter (\<lambda>x. after d x (cursor_time ?c, cursor_value ?c)) ?xs = drop l ?ys"
      using strict_total.filter_next_page [OF after_strict_total sort_by_order [OF assms(3)] assms(4)] by simp
    have lc: "listing_cursor k now epoch max_id d (Some (cursor_encode k ?c)) = Inr ?c"
      using parse_encode [OF k(1), of ?c] k(2) by (simp add: listing_cursor_def)
    have "length (filter (\<lambda>x. after d x (cursor_time ?c, cursor_value ?c)) ?xs) < fuel"
      unfolding rest using Suc.prems(2) True assms(4) by simp
    from Suc.IH [OF lc this] obtain pages where p: "follow_pages fuel k now epoch max_id d list l (Some (cursor_encode k ?c)) = Some (Inr pages)"
      "concat pages = drop l ?ys" "\<forall>p\<in>set pages. length p \<le> l" unfolding rest by blast
    have "follow_pages (Suc fuel) k now epoch max_id d list l token = Some (Inr (take l ?ys # pages))"
      using Suc.prems(1) page True p(1) by (simp add: Let_def)
    moreover have "concat (take l ?ys # pages) = ?ys" using p(2) by simp
    ultimately show ?thesis using p(3) by (intro exI [of _ "take l ?ys # pages"]) simp
  qed
qed simp


definition plain_codec :: "(nat, nat) cursor_codec" where
  "plain_codec = sample_codec\<lparr>display_value := (\<lambda>n. replicate n CHR ''I'')\<rparr>"

lemma plain_codec_ok: "codec_ok plain_codec"
  by (auto simp: codec_ok_def plain_codec_def sample_codec_def utf8_replicate)

lemma plain_unmarked: "split_once ''__'' (replicate n CHR ''I'') = None"
  by (induction n) auto


end
