(* ===== verification/Metadata_Store.thy ===== *)
theory Metadata_Store
  imports Prelude "HOL-Library.Word" "HOL-Library.AList" "HOL-Library.Product_Lexorder"
begin

text \<open>
  The in-memory metadata store of the orchestrator, \<^verbatim>\<open>orchestrator/store/in_memory.rs\<close>, and the sandbox
  metadata of \<^verbatim>\<open>metadata.rs\<close>. An operation is its section under the write lock and the notification it sends
  afterwards on the sandbox's watch channel. The lemmas show that the store refines a map, that the
  expiry index is exact, and what a waiter sees when notifications are delivered in and out of order.
\<close>

section \<open>Metadata\<close>

text \<open>A sandbox id is a 128-bit UUID, ordered as its bytes are. Times and durations count nanoseconds.\<close>

type_synonym SandboxId = "128 word"
type_synonym SystemTime = nat
type_synonym Duration = nat

definition SandboxId_max :: SandboxId where
  "SandboxId_max = - 1"

datatype SandboxState = Creating | Resuming | Running | Snapshotting | Forking | Pausing | Paused | Killing

datatype SandboxTimeoutAction = TimeoutPause | TimeoutDelete

datatype NewTimeout = UseExisting | SetTimeout Duration | EnsureMinimum Duration | NoTimeout

text \<open>The fields that the store and the timeouts do not look at are one opaque \<open>payload\<close>.\<close>

record 'p SandboxMetadata =
  md_id :: SandboxId
  template_builder :: bool
  snapshot_id :: string
  snapshot_alias :: "string option"
  md_state :: SandboxState
  created_at :: SystemTime
  timeout :: "Duration option"
  timeout_action :: SandboxTimeoutAction
  expires_at :: "SystemTime option"
  auto_resume :: bool
  user_metadata :: "(string \<times> string) list option"
  payload :: 'p

definition SYSTEM_TIME_LIMIT :: nat where
  "SYSTEM_TIME_LIMIT = 2 ^ 63 * 1000000000"

definition checked_add :: "SystemTime \<Rightarrow> Duration \<Rightarrow> SystemTime option" where
  "checked_add t d = (if t + d < SYSTEM_TIME_LIMIT then Some (t + d) else None)"

definition set_timeout_from :: "Duration option \<Rightarrow> SystemTime \<Rightarrow> 'p SandboxMetadata \<Rightarrow> 'p SandboxMetadata" where
  "set_timeout_from d from m =
     m\<lparr>timeout := d, expires_at := (case d of None \<Rightarrow> None | Some ttl \<Rightarrow> checked_add from ttl)\<rparr>"

definition update_timeout_from :: "NewTimeout \<Rightarrow> SystemTime \<Rightarrow> 'p SandboxMetadata \<Rightarrow> 'p SandboxMetadata" where
  "update_timeout_from new_timeout from m =
     (let d = (case new_timeout of
                 UseExisting \<Rightarrow> timeout m
               | SetTimeout t \<Rightarrow> Some t
               | EnsureMinimum minimum \<Rightarrow>
                   (case timeout m of Some existing \<Rightarrow> Some (max existing minimum) | None \<Rightarrow> Some minimum)
               | NoTimeout \<Rightarrow> None)
      in set_timeout_from d from m)"

definition is_expired :: "SystemTime \<Rightarrow> 'p SandboxMetadata \<Rightarrow> bool" where
  "is_expired now m = (case expires_at m of None \<Rightarrow> False | Some deadline \<Rightarrow> deadline \<le> now)"

section \<open>The store\<close>

text \<open>
  The hash map is an association list, whose order stands for the map's iteration order; the ordered set of
  expiries is a set, walked in order. A watch channel outlives its record, since senders are cloned out of
  it, so channels have addresses of their own.
\<close>

record 'p SandboxRecord =
  metadata :: "'p SandboxMetadata"
  state_tx :: nat

record 'p StoreInner =
  records :: "(SandboxId \<times> 'p SandboxRecord) list"
  by_expiry :: "(SystemTime \<times> SandboxId) set"
  channels :: "(nat \<times> SandboxState option) list"

datatype StoreError =
  SandboxNotFound SandboxId
| SandboxAlreadyExists SandboxId
| StateConflict SandboxId "SandboxState list" SandboxState

definition store_new :: "'p StoreInner" where
  "store_new = \<lparr>records = [], by_expiry = {}, channels = []\<rparr>"

definition index_expiry :: "SandboxId \<Rightarrow> SystemTime option \<Rightarrow> 'p StoreInner \<Rightarrow> 'p StoreInner" where
  "index_expiry i t s = (case t of None \<Rightarrow> s | Some e \<Rightarrow> s\<lparr>by_expiry := insert (e, i) (by_expiry s)\<rparr>)"

definition deindex_expiry :: "SandboxId \<Rightarrow> SystemTime option \<Rightarrow> 'p StoreInner \<Rightarrow> 'p StoreInner" where
  "deindex_expiry i t s = (case t of None \<Rightarrow> s | Some e \<Rightarrow> s\<lparr>by_expiry := by_expiry s - {(e, i)}\<rparr>)"

type_synonym notification = "nat \<times> SandboxState option"

definition notify_state :: "notification \<Rightarrow> 'p StoreInner \<Rightarrow> 'p StoreInner" where
  "notify_state n s = s\<lparr>channels := AList.update (fst n) (snd n) (channels s)\<rparr>"

text \<open>
  Each operation is its section under the write lock, which answers with the notification to send once the
  lock is released, and the operation as a whole.
\<close>

definition add_section :: "'p SandboxMetadata \<Rightarrow> 'p StoreInner \<Rightarrow> (StoreError + unit) \<times> 'p StoreInner" where
  "add_section m s =
     (if map_of (records s) (md_id m) \<noteq> None then (Inl (SandboxAlreadyExists (md_id m)), s)
      else let tx = length (channels s);
               s = s\<lparr>channels := channels s @ [(tx, Some (md_state m))]\<rparr>;
               s = index_expiry (md_id m) (expires_at m) s
           in (Inr (), s\<lparr>records := AList.update (md_id m) \<lparr>metadata = m, state_tx = tx\<rparr> (records s)\<rparr>))"

definition update_section ::
    "'p SandboxMetadata \<Rightarrow> 'p StoreInner \<Rightarrow> (StoreError + notification) \<times> 'p StoreInner" where
  "update_section m s =
     (case map_of (records s) (md_id m) of
        None \<Rightarrow> (Inl (SandboxNotFound (md_id m)), s)
      | Some r \<Rightarrow>
          let previous = metadata r;
              s = s\<lparr>records := AList.update (md_id m) (r\<lparr>metadata := m\<rparr>) (records s)\<rparr>;
              s = deindex_expiry (md_id m) (expires_at previous) s;
              s = index_expiry (md_id m) (expires_at m) s
          in (Inr (state_tx r, Some (md_state m)), s))"

definition update_state_section ::
    "SandboxId \<Rightarrow> SandboxState \<Rightarrow> SandboxState list \<Rightarrow> 'p StoreInner
      \<Rightarrow> (StoreError + SandboxState \<times> notification) \<times> 'p StoreInner" where
  "update_state_section i new_state expected_states s =
     (case map_of (records s) i of
        None \<Rightarrow> (Inl (SandboxNotFound i), s)
      | Some r \<Rightarrow>
          let previous_state = md_state (metadata r)
          in if previous_state \<notin> set expected_states then (Inl (StateConflict i expected_states previous_state), s)
             else (Inr (previous_state, state_tx r, Some new_state),
                   s\<lparr>records := AList.update i (r\<lparr>metadata := (metadata r)\<lparr>md_state := new_state\<rparr>\<rparr>) (records s)\<rparr>))"

definition update_if_section ::
    "SandboxId \<Rightarrow> SandboxState list \<Rightarrow> ('p SandboxMetadata \<Rightarrow> 'p SandboxMetadata) \<Rightarrow> 'p StoreInner
      \<Rightarrow> (StoreError + ('p SandboxMetadata \<times> 'p SandboxMetadata) \<times> notification option) \<times> 'p StoreInner" where
  "update_if_section i expected_states update s =
     (case map_of (records s) i of
        None \<Rightarrow> (Inl (SandboxNotFound i), s)
      | Some r \<Rightarrow>
          let actual_state = md_state (metadata r)
          in if actual_state \<notin> set expected_states then (Inl (StateConflict i expected_states actual_state), s)
             else let previous = metadata r; current = update previous;
                      s = s\<lparr>records := AList.update i (r\<lparr>metadata := current\<rparr>) (records s)\<rparr>;
                      s = (if expires_at previous \<noteq> expires_at current
                           then index_expiry i (expires_at current) (deindex_expiry i (expires_at previous) s) else s);
                      n = (if md_state previous \<noteq> md_state current then Some (state_tx r, Some (md_state current)) else None)
                  in (Inr ((previous, current), n), s))"

definition remove_section ::
    "SandboxId \<Rightarrow> 'p StoreInner \<Rightarrow> ('p SandboxMetadata \<times> notification) option \<times> 'p StoreInner" where
  "remove_section i s =
     (case map_of (records s) i of
        None \<Rightarrow> (None, s)
      | Some r \<Rightarrow>
          let s = s\<lparr>records := AList.delete i (records s)\<rparr>;
              s = deindex_expiry (md_id (metadata r)) (expires_at (metadata r)) s
          in (Some (metadata r, state_tx r, None), s))"

definition store_get :: "SandboxId \<Rightarrow> 'p StoreInner \<Rightarrow> 'p SandboxMetadata option" where
  "store_get i s = map_option metadata (map_of (records s) i)"

definition store_list_ids :: "'p StoreInner \<Rightarrow> SandboxId list" where
  "store_list_ids s = map fst (records s)"

definition store_list :: "'p StoreInner \<Rightarrow> 'p SandboxMetadata list" where
  "store_list s = map (metadata \<circ> snd) (records s)"

record SandboxListFilter =
  filter_states :: "SandboxState list option"
  excluded_states :: "SandboxState list option"
  filter_user_metadata :: "(string \<times> string) list option"
  started_after :: "SystemTime option"
  template :: "string option"

definition user_metadata_matches :: "'p SandboxMetadata \<Rightarrow> (string \<times> string) list option \<Rightarrow> bool" where
  "user_metadata_matches m required_pairs =
     (case required_pairs of
        None \<Rightarrow> True
      | Some pairs \<Rightarrow>
          (case user_metadata m of
             None \<Rightarrow> False
           | Some actual \<Rightarrow> list_all (\<lambda>(k, v). map_of actual k = Some v) pairs))"

definition filter_matches :: "SandboxListFilter \<Rightarrow> 'p SandboxMetadata \<Rightarrow> bool" where
  "filter_matches f m =
     (let state_matches = (case filter_states f of None \<Rightarrow> True | Some states \<Rightarrow> md_state m \<in> set states);
          excluded_state_matches = (case excluded_states f of None \<Rightarrow> False | Some states \<Rightarrow> md_state m \<in> set states);
          started_after_matches = (case started_after f of None \<Rightarrow> True | Some t \<Rightarrow> created_at m \<ge> t);
          template_matches = (case template f of
             None \<Rightarrow> True
           | Some t \<Rightarrow> snapshot_id m = t \<or> (case snapshot_alias m of None \<Rightarrow> False | Some a \<Rightarrow> a = t))
      in state_matches \<and> \<not> excluded_state_matches \<and> user_metadata_matches m (filter_user_metadata f)
         \<and> started_after_matches \<and> template_matches)"

definition list_filtered :: "SandboxListFilter \<Rightarrow> 'p StoreInner \<Rightarrow> 'p SandboxMetadata list" where
  "list_filtered f s = filter (filter_matches f) (map (metadata \<circ> snd) (records s))"

definition list_expired :: "SystemTime \<Rightarrow> 'p StoreInner \<Rightarrow> 'p SandboxMetadata list" where
  "list_expired now s =
     map metadata (List.map_filter (\<lambda>(_, i). map_of (records s) i)
       (sorted_list_of_set {p \<in> by_expiry s. p \<le> (now, SandboxId_max)}))"

text \<open>
  Waiting: the channel of the sandbox is found under the read lock, then its value decides whether the
  waiter goes on.
\<close>

definition subscribe :: "SandboxId \<Rightarrow> 'p StoreInner \<Rightarrow> nat option" where
  "subscribe i s = map_option state_tx (map_of (records s) i)"

definition wait_for :: "nat \<Rightarrow> SandboxState list \<Rightarrow> 'p StoreInner \<Rightarrow> bool" where
  "wait_for rx transitional_states s =
     (case map_of (channels s) rx of Some (Some st) \<Rightarrow> st \<notin> set transitional_states | _ \<Rightarrow> True)"

datatype 'p wait_result = Blocked | Returned "'p SandboxMetadata option"

definition wait_while_in_states :: "SandboxId \<Rightarrow> SandboxState list \<Rightarrow> 'p StoreInner \<Rightarrow> 'p wait_result" where
  "wait_while_in_states i transitional_states s =
     (case subscribe i s of
        None \<Rightarrow> Returned None
      | Some rx \<Rightarrow>
          if \<not> wait_for rx transitional_states s then Blocked
          else case map_of (channels s) rx of
                 Some (Some _) \<Rightarrow> Returned (store_get i s)
               | _ \<Rightarrow> Returned None)"

section \<open>Operations\<close>

datatype 'p store_op =
    Add "'p SandboxMetadata"
  | Update "'p SandboxMetadata"
  | UpdateStateIfState SandboxId SandboxState "SandboxState list"
  | UpdateIfState SandboxId "SandboxState list" "'p SandboxMetadata \<Rightarrow> 'p SandboxMetadata"
  | Remove SandboxId

datatype 'p store_reply =
    Failed StoreError | Done | Previous SandboxState | Changed "'p SandboxMetadata" "'p SandboxMetadata"
  | Removed "'p SandboxMetadata option"

definition store_section :: "'p store_op \<Rightarrow> 'p StoreInner \<Rightarrow> ('p store_reply \<times> notification option) \<times> 'p StoreInner" where
  "store_section op s =
     (case op of
        Add m \<Rightarrow> (case add_section m s of (Inl e, s) \<Rightarrow> ((Failed e, None), s) | (Inr _, s) \<Rightarrow> ((Done, None), s))
      | Update m \<Rightarrow> (case update_section m s of (Inl e, s) \<Rightarrow> ((Failed e, None), s) | (Inr n, s) \<Rightarrow> ((Done, Some n), s))
      | UpdateStateIfState i st ex \<Rightarrow>
          (case update_state_section i st ex s of
             (Inl e, s) \<Rightarrow> ((Failed e, None), s) | (Inr (prev, n), s) \<Rightarrow> ((Previous prev, Some n), s))
      | UpdateIfState i ex f \<Rightarrow>
          (case update_if_section i ex f s of
             (Inl e, s) \<Rightarrow> ((Failed e, None), s) | (Inr ((prev, cur), n), s) \<Rightarrow> ((Changed prev cur, n), s))
      | Remove i \<Rightarrow>
          (case remove_section i s of
             (None, s) \<Rightarrow> ((Removed None, None), s) | (Some (m, n), s) \<Rightarrow> ((Removed (Some m), Some n), s)))"

definition store_step :: "'p store_op \<Rightarrow> 'p StoreInner \<Rightarrow> 'p store_reply \<times> 'p StoreInner" where
  "store_step op s =
     (case store_section op s of ((r, n), s) \<Rightarrow> (r, case n of None \<Rightarrow> s | Some n \<Rightarrow> notify_state n s))"

fun store_run :: "'p store_op list \<Rightarrow> 'p StoreInner \<Rightarrow> 'p store_reply list \<times> 'p StoreInner" where
  "store_run [] s = ([], s)"
| "store_run (op # ops) s = (let (r, s) = store_step op s; (rs, s) = store_run ops s in (r # rs, s))"

section \<open>Refinement of a map\<close>

text \<open>What the store promises: a map from ids to metadata with compare-and-set on the state.\<close>

fun spec_step :: "'p store_op \<Rightarrow> (SandboxId \<rightharpoonup> 'p SandboxMetadata) \<Rightarrow> 'p store_reply \<times> (SandboxId \<rightharpoonup> 'p SandboxMetadata)" where
  "spec_step (Add m) A =
     (if A (md_id m) \<noteq> None then (Failed (SandboxAlreadyExists (md_id m)), A) else (Done, A(md_id m \<mapsto> m)))"
| "spec_step (Update m) A =
     (if A (md_id m) = None then (Failed (SandboxNotFound (md_id m)), A) else (Done, A(md_id m \<mapsto> m)))"
| "spec_step (UpdateStateIfState i st ex) A =
     (case A i of
        None \<Rightarrow> (Failed (SandboxNotFound i), A)
      | Some m \<Rightarrow> if md_state m \<notin> set ex then (Failed (StateConflict i ex (md_state m)), A)
                  else (Previous (md_state m), A(i \<mapsto> m\<lparr>md_state := st\<rparr>)))"
| "spec_step (UpdateIfState i ex f) A =
     (case A i of
        None \<Rightarrow> (Failed (SandboxNotFound i), A)
      | Some m \<Rightarrow> if md_state m \<notin> set ex then (Failed (StateConflict i ex (md_state m)), A)
                  else (Changed m (f m), A(i \<mapsto> f m)))"
| "spec_step (Remove i) A = (Removed (A i), A(i := None))"

fun spec_run ::
    "'p store_op list \<Rightarrow> (SandboxId \<rightharpoonup> 'p SandboxMetadata) \<Rightarrow> 'p store_reply list \<times> (SandboxId \<rightharpoonup> 'p SandboxMetadata)" where
  "spec_run [] A = ([], A)"
| "spec_run (op # ops) A = (let (r, A) = spec_step op A; (rs, A) = spec_run ops A in (r # rs, A))"

definition store_map :: "'p StoreInner \<Rightarrow> SandboxId \<rightharpoonup> 'p SandboxMetadata" where
  "store_map s i = map_option metadata (map_of (records s) i)"

lemma expiry_frame [simp]:
  "records (index_expiry i t s) = records s" "channels (index_expiry i t s) = channels s"
  "records (deindex_expiry i t s) = records s" "channels (deindex_expiry i t s) = channels s"
  "records (notify_state n s) = records s" "by_expiry (notify_state n s) = by_expiry s"
  by (auto simp: index_expiry_def deindex_expiry_def notify_state_def split: option.split)

lemmas store_sections =
  add_section_def update_section_def update_state_section_def update_if_section_def remove_section_def

lemma store_section_refines:
  "store_section op s = ((r, n), s') \<Longrightarrow> spec_step op (store_map s) = (r, store_map s')"
  by (cases op)
    (auto simp: store_section_def store_sections store_map_def update_conv' delete_conv' Let_def fun_eq_iff
      split: if_splits option.splits)

lemma store_map_notify [simp]: "store_map (notify_state n s) = store_map s"
  by (simp add: fun_eq_iff store_map_def)

lemma store_step_refines: "store_step op s = (r, s') \<Longrightarrow> spec_step op (store_map s) = (r, store_map s')"
  by (auto simp: store_step_def split: prod.splits option.splits dest!: store_section_refines)

lemma store_run_refines: "store_run ops s = (rs, s') \<Longrightarrow> spec_run ops (store_map s) = (rs, store_map s')"
proof (induction ops arbitrary: s rs)
  case (Cons op ops)
  then show ?case by (auto simp: Let_def split: prod.splits dest!: store_step_refines)
qed simp

lemma store_map_new: "store_map store_new = Map.empty"
  by (simp add: fun_eq_iff store_map_def store_new_def)

text \<open>
  C12. The in-memory store refines a map: for every sequence of operations on a fresh store, the replies,
  errors and compare-and-set conflicts included, and the metadata that \<open>get\<close> answers afterwards are those
  of a map from ids to metadata.
\<close>

theorem store_refines_map:
  fixes ops :: "'p store_op list"
  shows "fst (store_run ops store_new) = fst (spec_run ops Map.empty)
   \<and> (\<lambda>i. store_get i (snd (store_run ops store_new))) = snd (spec_run ops Map.empty)"
proof (cases "store_run ops (store_new :: 'p StoreInner)")
  case (Pair rs s)
  have "(\<lambda>i. store_get i s) = store_map s" by (simp add: fun_eq_iff store_get_def store_map_def)
  then show ?thesis using store_run_refines [OF Pair] Pair by (simp add: store_map_new)
qed

section \<open>The expiry index and the channels\<close>

definition expiry_inv :: "'p StoreInner \<Rightarrow> bool" where
  "expiry_inv s \<longleftrightarrow> finite (by_expiry s) \<and>
     (\<forall>t i. (t, i) \<in> by_expiry s \<longleftrightarrow> (\<exists>r. map_of (records s) i = Some r \<and> expires_at (metadata r) = Some t))"

definition keys_inv :: "'p StoreInner \<Rightarrow> bool" where
  "keys_inv s \<longleftrightarrow> (\<forall>i r. map_of (records s) i = Some r \<longrightarrow> md_id (metadata r) = i)"

text \<open>A callback may change everything but the id.\<close>

definition op_keeps_id :: "'p store_op \<Rightarrow> bool" where
  "op_keeps_id op = (case op of UpdateIfState _ _ f \<Rightarrow> (\<forall>m. md_id (f m) = md_id m) | _ \<Rightarrow> True)"

lemma by_expiry_frame [simp]:
  "by_expiry (index_expiry i t s) = by_expiry s \<union> {(e, i) |e. t = Some e}"
  "by_expiry (deindex_expiry i t s) = by_expiry s - {(e, i) |e. t = Some e}"
  by (auto simp: index_expiry_def deindex_expiry_def split: option.split)

lemma store_section_keys:
  assumes "keys_inv s" "op_keeps_id op" "store_section op s = ((r, n), s')"
  shows "keys_inv s'"
  using assms
  by (cases op)
    (auto simp: store_section_def store_sections keys_inv_def op_keeps_id_def update_conv' delete_conv' Let_def
      split: if_splits option.splits)

lemma finite_expiry [simp]: "finite {(e, i) |e. t = Some e}"
  by (cases t) auto

lemma expiry_replace:
  assumes "expiry_inv s" "map_of (records s) i = Some r" "map_of (records s') = (map_of (records s))(i \<mapsto> r')"
    "by_expiry s' = by_expiry s - {(e, i) |e. expires_at (metadata r) = Some e} \<union> {(e, i) |e. expires_at (metadata r') = Some e}"
  shows "expiry_inv s'"
  using assms(1,2) unfolding expiry_inv_def assms(3,4) by auto

lemma store_section_expiry:
  assumes inv: "expiry_inv s" "keys_inv s" and s: "store_section op s = ((r, n), s')"
  shows "expiry_inv s'"
proof (cases op)
  case (Add m)
  show ?thesis
  proof (cases "map_of (records s) (md_id m)")
    case None
    then have "map_of (records s') = (map_of (records s))(md_id m \<mapsto> \<lparr>metadata = m, state_tx = length (channels s)\<rparr>)"
      "by_expiry s' = by_expiry s \<union> {(e, md_id m) |e. expires_at m = Some e}"
      using s Add by (auto simp: store_section_def add_section_def update_conv' Let_def index_expiry_def split: option.splits)
    then show ?thesis using inv(1) None by (auto simp: expiry_inv_def)
  next
    case (Some x)
    then show ?thesis using s Add inv(1) by (simp add: store_section_def add_section_def)
  qed
next
  case (Update m)
  show ?thesis
  proof (cases "map_of (records s) (md_id m)")
    case None
    then show ?thesis using s Update inv(1) by (simp add: store_section_def update_section_def)
  next
    case (Some x)
    show ?thesis
      by (rule expiry_replace [OF inv(1) Some, of _ "x\<lparr>metadata := m\<rparr>"])
        (use s Update Some in \<open>auto simp: store_section_def update_section_def update_conv' Let_def\<close>)
  qed
next
  case (UpdateStateIfState i st ex)
  show ?thesis
  proof (cases "map_of (records s) i")
    case None
    then show ?thesis using s UpdateStateIfState inv(1) by (simp add: store_section_def update_state_section_def)
  next
    case (Some x)
    show ?thesis
    proof (cases "md_state (metadata x) \<in> set ex")
      case True
      show ?thesis
        by (rule expiry_replace [OF inv(1) Some, of _ "x\<lparr>metadata := (metadata x)\<lparr>md_state := st\<rparr>\<rparr>"])
          (use s UpdateStateIfState Some True inv(1) in
            \<open>auto simp: store_section_def update_state_section_def update_conv' Let_def expiry_inv_def\<close>)
    next
      case False
      then show ?thesis using s UpdateStateIfState Some inv(1) by (simp add: store_section_def update_state_section_def)
    qed
  qed
next
  case (UpdateIfState i ex f)
  show ?thesis
  proof (cases "map_of (records s) i")
    case None
    then show ?thesis using s UpdateIfState inv(1) by (simp add: store_section_def update_if_section_def)
  next
    case (Some x)
    show ?thesis
    proof (cases "md_state (metadata x) \<in> set ex")
      case True
      show ?thesis
        by (rule expiry_replace [OF inv(1) Some, of _ "x\<lparr>metadata := f (metadata x)\<rparr>"])
          (use s UpdateIfState Some True inv(1) in
            \<open>auto simp: store_section_def update_if_section_def update_conv' Let_def expiry_inv_def split: if_splits\<close>)
    next
      case False
      then show ?thesis using s UpdateIfState Some inv(1) by (simp add: store_section_def update_if_section_def)
    qed
  qed
next
  case (Remove i)
  show ?thesis
  proof (cases "map_of (records s) i")
    case None
    then show ?thesis using s Remove inv(1) by (simp add: store_section_def remove_section_def)
  next
    case (Some x)
    then have "md_id (metadata x) = i" using inv(2) by (simp add: keys_inv_def)
    then show ?thesis using s Remove Some inv(1)
      by (auto simp: store_section_def remove_section_def delete_conv' Let_def expiry_inv_def split: if_splits)
  qed
qed

subsection \<open>Listing the expired sandboxes\<close>

lemma set_map_filter: "set (List.map_filter g xs) = {y. \<exists>x\<in>set xs. g x = Some y}"
  by (induction xs) (auto simp: List.map_filter_def)

lemma expired_pairs: "{p \<in> B. p \<le> (now, SandboxId_max)} = {p \<in> B. fst p \<le> now}" for B :: "(nat \<times> SandboxId) set"
  by (auto simp: SandboxId_max_def less_eq_prod_def)

lemma list_expired_set:
  assumes "expiry_inv s"
  shows "set (list_expired now s) = {metadata r |i r. map_of (records s) i = Some r \<and> is_expired now (metadata r)}"
proof -
  have f: "finite {p \<in> by_expiry s. fst p \<le> now}" using assms by (simp add: expiry_inv_def)
  have "set (list_expired now s) = metadata ` {r. \<exists>t i. (t, i) \<in> by_expiry s \<and> t \<le> now \<and> map_of (records s) i = Some r}"
    unfolding list_expired_def set_map set_map_filter expired_pairs by (simp add: f)
  also have "{r. \<exists>t i. (t, i) \<in> by_expiry s \<and> t \<le> now \<and> map_of (records s) i = Some r}
      = {r. \<exists>i. map_of (records s) i = Some r \<and> is_expired now (metadata r)}"
    using assms by (fastforce simp: expiry_inv_def is_expired_def split: option.splits)
  finally show ?thesis by blast
qed

lemma sorted_map_fst: "sorted xs \<Longrightarrow> sorted (map fst xs)" for xs :: "(nat \<times> SandboxId) list"
  by (induction xs) (auto simp: less_eq_prod_def)

lemma list_expired_sorted:
  assumes "expiry_inv s"
  shows "sorted (map (the \<circ> expires_at) (list_expired now s))"
proof -
  let ?ps = "sorted_list_of_set {p \<in> by_expiry s. p \<le> (now, SandboxId_max)}"
  have f: "finite {p \<in> by_expiry s. p \<le> (now, SandboxId_max)}" using assms by (simp add: expiry_inv_def)
  have p: "\<exists>r. map_of (records s) (snd p) = Some r \<and> expires_at (metadata r) = Some (fst p)" if "p \<in> set ?ps" for p
  proof -
    have "(fst p, snd p) \<in> by_expiry s" using that f by simp
    then show ?thesis using assms unfolding expiry_inv_def by blast
  qed
  have "map (the \<circ> expires_at) (map metadata (List.map_filter (\<lambda>(_, i). map_of (records s) i) ps)) = map fst ps"
    if "set ps \<subseteq> set ?ps" for ps
    using that
  proof (induction ps)
    case (Cons q ps)
    then obtain r where "map_of (records s) (snd q) = Some r" "expires_at (metadata r) = Some (fst q)" using p [of q] by auto
    then show ?case using Cons by (auto simp: List.map_filter_def case_prod_beta)
  qed (simp add: List.map_filter_def)
  then have "map (the \<circ> expires_at) (list_expired now s) = map fst ?ps" unfolding list_expired_def by blast
  moreover have "sorted (map fst ?ps)" by (rule sorted_map_fst) simp
  ultimately show ?thesis by simp
qed

subsection \<open>Channels\<close>

text \<open>
  Channel addresses are positions, every record has a channel of its own, and, when every notification has
  been delivered in order, the channel of a record holds the record's state.
\<close>

definition channel_inv :: "'p StoreInner \<Rightarrow> bool" where
  "channel_inv s \<longleftrightarrow>
     (\<forall>tx. map_of (channels s) tx \<noteq> None \<longleftrightarrow> tx < length (channels s))
     \<and> (\<forall>i r. map_of (records s) i = Some r \<longrightarrow> state_tx r < length (channels s))
     \<and> (\<forall>i j r q. map_of (records s) i = Some r \<longrightarrow> map_of (records s) j = Some q \<longrightarrow> state_tx r = state_tx q \<longrightarrow> i = j)"

definition synced :: "'p StoreInner \<Rightarrow> bool" where
  "synced s \<longleftrightarrow> (\<forall>i r. map_of (records s) i = Some r \<longrightarrow> map_of (channels s) (state_tx r) = Some (Some (md_state (metadata r))))"

lemma store_section_effect:
  assumes "store_section op s = ((r, n), t)"
  obtains (same) "t = s" "n = None"
  | (added) i x where "map_of (records s) i = None" "map_of (records t) = (map_of (records s))(i \<mapsto> x)"
      "channels t = channels s @ [(length (channels s), Some (md_state (metadata x)))]" "state_tx x = length (channels s)" "n = None"
  | (changed) i x m where "map_of (records s) i = Some x" "map_of (records t) = (map_of (records s))(i \<mapsto> x\<lparr>metadata := m\<rparr>)"
      "channels t = channels s" "n = Some (state_tx x, Some (md_state m)) \<or> n = None \<and> md_state m = md_state (metadata x)"
  | (removed) i x where "map_of (records s) i = Some x" "map_of (records t) = (map_of (records s))(i := None)"
      "channels t = channels s" "n = Some (state_tx x, None)"
proof (cases op)
  case (Add m)
  then show ?thesis using assms same added [of "md_id m" "\<lparr>metadata = m, state_tx = length (channels s)\<rparr>"]
    by (auto simp: store_section_def add_section_def update_conv' Let_def split: if_splits)
next
  case (Update m)
  then show ?thesis using assms same changed [of "md_id m" _ m]
    by (auto simp: store_section_def update_section_def update_conv' Let_def split: option.splits)
next
  case (UpdateStateIfState i st ex)
  show ?thesis
  proof (cases "map_of (records s) i")
    case None
    then show ?thesis using UpdateStateIfState assms same by (simp add: store_section_def update_state_section_def)
  next
    case (Some x)
    then show ?thesis using UpdateStateIfState assms same changed [of i x "(metadata x)\<lparr>md_state := st\<rparr>"]
      by (auto simp: store_section_def update_state_section_def update_conv' Let_def split: if_splits)
  qed
next
  case (UpdateIfState i ex f)
  show ?thesis
  proof (cases "map_of (records s) i")
    case None
    then show ?thesis using UpdateIfState assms same by (simp add: store_section_def update_if_section_def)
  next
    case (Some x)
    then show ?thesis using UpdateIfState assms same changed [of i x "f (metadata x)"]
      by (auto simp: store_section_def update_if_section_def update_conv' Let_def split: if_splits)
  qed
next
  case (Remove i)
  then show ?thesis using assms same removed [of i]
    by (auto simp: store_section_def remove_section_def delete_conv' Let_def fun_eq_iff split: option.splits)
qed

lemma length_update_known: "map_of xs k \<noteq> None \<Longrightarrow> length (AList.update k v xs) = length xs"
  by (induction xs) (auto split: if_splits)

lemma notify_channel_inv:
  assumes "channel_inv s" "fst n < length (channels s)"
  shows "channel_inv (notify_state n s)"
proof -
  have "map_of (channels s) (fst n) \<noteq> None" using assms unfolding channel_inv_def by blast
  then have "length (AList.update (fst n) (snd n) (channels s)) = length (channels s)" by (rule length_update_known)
  then show ?thesis using assms unfolding channel_inv_def notify_state_def by (auto simp: update_conv' split: if_splits)
qed

lemma add_channel_inv:
  assumes "channel_inv s" "map_of (records s) i = None" "map_of (records s') = (map_of (records s))(i \<mapsto> r)"
    "channels s' = channels s @ [(length (channels s), v)]" "state_tx r = length (channels s)"
  shows "channel_inv s'"
proof -
  have "map_of (channels s') tx \<noteq> None \<longleftrightarrow> tx < length (channels s')" for tx
  proof -
    have "map_of (channels s) tx \<noteq> None \<longleftrightarrow> tx < length (channels s)" using assms(1) by (auto simp: channel_inv_def)
    then show ?thesis unfolding assms(4) by (auto simp: map_add_def less_Suc_eq split: option.split)
  qed
  moreover have "state_tx q < length (channels s)" if "map_of (records s) j = Some q" for j q
    using assms(1) that by (auto simp: channel_inv_def)
  ultimately show ?thesis using assms unfolding channel_inv_def by (auto split: if_splits) (metis less_irrefl)+
qed

lemma keep_channel_inv:
  assumes "channel_inv s" "channels s' = channels s"
    "\<And>i r'. map_of (records s') i = Some r' \<Longrightarrow> \<exists>r. map_of (records s) i = Some r \<and> state_tx r' = state_tx r"
  shows "channel_inv s'"
  using assms(1) unfolding channel_inv_def assms(2) by (auto dest!: assms(3))

lemma store_section_channel:
  assumes inv: "channel_inv s" and s: "store_section op s = ((r, n), t)"
  shows "channel_inv t \<and> (\<forall>m. n = Some m \<longrightarrow> fst m < length (channels t))"
proof -
  have lt: "state_tx q < length (channels s)" if "map_of (records s) j = Some q" for j q
    using inv that by (auto simp: channel_inv_def)
  from s show ?thesis
  proof (cases rule: store_section_effect)
    case same
    then show ?thesis using inv by simp
  next
    case (added i x)
    then show ?thesis using add_channel_inv [OF inv added(1-4)] by simp
  next
    case (changed i x m)
    have "channel_inv t"
      by (rule keep_channel_inv [OF inv changed(3)]) (use changed in \<open>auto split: if_splits\<close>)
    then show ?thesis using changed lt by auto
  next
    case (removed i x)
    have "channel_inv t"
      by (rule keep_channel_inv [OF inv removed(3)]) (use removed in \<open>auto split: if_splits\<close>)
    then show ?thesis using removed lt by auto
  qed
qed

text \<open>Sequentially, an operation sends its notification before the next one starts.\<close>

lemma notify_synced:
  assumes "channel_inv s" "map_of (records s) i = Some r" "n = (state_tx r, Some (md_state (metadata r)))"
    and "\<And>j q. j \<noteq> i \<Longrightarrow> map_of (records s) j = Some q \<Longrightarrow> map_of (channels s) (state_tx q) = Some (Some (md_state (metadata q)))"
  shows "synced (notify_state n s)"
  unfolding synced_def
proof (intro allI impI)
  fix j q assume q: "map_of (records (notify_state n s)) j = Some q"
  show "map_of (channels (notify_state n s)) (state_tx q) = Some (Some (md_state (metadata q)))"
  proof (cases "j = i")
    case True
    then show ?thesis using q assms(2,3) by (simp add: notify_state_def update_conv')
  next
    case False
    then have "state_tx q \<noteq> state_tx r" using q assms(1,2) by (auto simp: channel_inv_def)
    then show ?thesis using False q assms(3,4) by (simp add: notify_state_def update_conv')
  qed
qed

lemma notify_gone_synced:
  assumes "channel_inv s" "map_of (records s) i = Some x" "map_of (records t) = (map_of (records s))(i := None)"
    "channels t = channels s" "synced s"
  shows "synced (notify_state (state_tx x, None) t)"
  using assms by (auto simp: synced_def channel_inv_def notify_state_def update_conv' split: if_splits)

lemma store_step_synced:
  assumes inv: "channel_inv s" "synced s" and st: "store_step op s = (r, s')"
  shows "channel_inv s' \<and> synced s'"
proof -
  obtain r' n t where sec: "store_section op s = ((r', n), t)" by (metis prod.exhaust)
  note c = store_section_channel [OF inv(1) sec]
  have s': "s' = (case n of None \<Rightarrow> t | Some n \<Rightarrow> notify_state n t)" using st sec by (simp add: store_step_def)
  have ch: "channel_inv s'" using c s' notify_channel_inv by (cases n) auto
  from sec have "synced s'"
  proof (cases rule: store_section_effect)
    case same
    then show ?thesis using s' inv(2) by simp
  next
    case (added i x)
    have "state_tx q \<noteq> length (channels s)" if "map_of (records s) j = Some q" for j q
      using inv(1) that unfolding channel_inv_def by (metis less_irrefl)
    moreover have "map_of (channels s) (length (channels s)) = None" using inv(1) unfolding channel_inv_def by blast
    ultimately show ?thesis using s' added inv(2) by (auto simp: synced_def map_add_def split: option.split)
  next
    case (changed i x m)
    show ?thesis
    proof (cases n)
      case None
      then show ?thesis using s' changed inv(2) by (auto simp: synced_def)
    next
      case (Some k)
      then have "synced (notify_state k t)"
        by (intro notify_synced [of _ i "x\<lparr>metadata := m\<rparr>"]) (use c changed inv(2) in \<open>auto simp: synced_def\<close>)
      then show ?thesis using s' Some by simp
    qed
  next
    case (removed i x)
    then show ?thesis using s' notify_gone_synced [OF inv(1) removed(1-3) inv(2)] by simp
  qed
  with ch show ?thesis by simp
qed

definition store_inv :: "'p StoreInner \<Rightarrow> bool" where
  "store_inv s \<longleftrightarrow> expiry_inv s \<and> keys_inv s \<and> channel_inv s \<and> synced s"

lemma new_store_inv: "store_inv store_new"
  by (simp add: store_inv_def expiry_inv_def keys_inv_def channel_inv_def synced_def store_new_def)

lemma store_step_inv:
  assumes "store_inv s" "op_keeps_id op" "store_step op s = (r, s')"
  shows "store_inv s'"
proof -
  obtain r' n t where sec: "store_section op s = ((r', n), t)" by (metis prod.exhaust)
  have s': "s' = (case n of None \<Rightarrow> t | Some n \<Rightarrow> notify_state n t)" using assms(3) sec by (simp add: store_step_def)
  have "expiry_inv t" "keys_inv t"
    using assms(1,2) store_section_expiry [OF _ _ sec] store_section_keys [OF _ _ sec] by (auto simp: store_inv_def)
  then have "expiry_inv s'" "keys_inv s'" using s' by (auto simp: expiry_inv_def keys_inv_def split: option.splits)
  then show ?thesis using assms(1) store_step_synced [OF _ _ assms(3)] by (simp add: store_inv_def)
qed

lemma store_run_inv: "store_inv s \<Longrightarrow> list_all op_keeps_id ops \<Longrightarrow> store_run ops s = (rs, s') \<Longrightarrow> store_inv s'"
proof (induction ops arbitrary: s rs)
  case (Cons op ops)
  then show ?case using store_step_inv by (fastforce simp: Let_def split: prod.splits)
qed simp

text \<open>
  C19. The expiry index is exact: after any sequence of operations whose callbacks keep the id, \<open>list_expired\<close>
  lists exactly the stored sandboxes whose deadline has passed, earliest deadline first.
\<close>

theorem list_expired_exact:
  assumes "list_all op_keeps_id ops" "store_run ops store_new = (rs, s)"
  shows "set (list_expired now s) = {m \<in> set (store_list s). is_expired now m \<and> store_get (md_id m) s = Some m}
    \<and> (\<forall>i m. store_get i s = Some m \<and> is_expired now m \<longrightarrow> m \<in> set (list_expired now s))
    \<and> sorted (map (the \<circ> expires_at) (list_expired now s))"
proof -
  have inv: "expiry_inv s" "keys_inv s" using store_run_inv [OF new_store_inv assms] by (auto simp: store_inv_def)
  have e: "set (list_expired now s) = {m. \<exists>i. store_get i s = Some m \<and> is_expired now m}"
    unfolding list_expired_set [OF inv(1)] store_get_def by auto
  have k: "md_id m = i" if "store_get i s = Some m" for i m
    using that inv(2) by (auto simp: store_get_def keys_inv_def)
  have l: "m \<in> set (store_list s)" if "store_get i s = Some m" for i m
    using that by (force simp: store_get_def store_list_def dest: map_of_SomeD)
  show ?thesis using list_expired_sorted [OF inv(1)] e k l by blast
qed


section \<open>Notifications that overtake each other\<close>

text \<open>
  An operation releases the lock before it sends its notification. Between the two, other operations run:
  the state of the system is the store and the notifications still to be sent, in any order.
\<close>

datatype 'p store_event = Section "'p store_op" | Deliver nat

fun event_step :: "'p store_event \<Rightarrow> 'p StoreInner \<times> notification list \<Rightarrow> ('p StoreInner \<times> notification list) option" where
  "event_step (Section op) (s, ns) =
     (case store_section op s of ((r, n), s) \<Rightarrow> Some (s, ns @ (case n of None \<Rightarrow> [] | Some n \<Rightarrow> [n])))"
| "event_step (Deliver k) (s, ns) =
     (if k < length ns then Some (notify_state (ns ! k) s, take k ns @ drop (Suc k) ns) else None)"

fun event_run :: "'p store_event list \<Rightarrow> 'p StoreInner \<times> notification list \<Rightarrow> ('p StoreInner \<times> notification list) option" where
  "event_run [] x = Some x"
| "event_run (e # es) x = (case event_step e x of None \<Rightarrow> None | Some x \<Rightarrow> event_run es x)"

definition resume_race :: "'p SandboxMetadata \<Rightarrow> 'p store_event list" where
  "resume_race m =
     [Section (Add m), Section (UpdateStateIfState (md_id m) Resuming [Paused]),
      Section (UpdateStateIfState (md_id m) Running [Resuming]), Deliver 1, Deliver 0]"

text \<open>
  C36. A wait can block on a stable state: when two updates send their notifications in the opposite order, the
  store ends with the sandbox running and no notification left, yet a wait on the earlier, transitional
  state blocks.
\<close>

theorem stale_notification_blocks:
  assumes "md_state m = Paused"
  shows "\<exists>s. event_run (resume_race m) (store_new, []) = Some (s, [])
    \<and> store_get (md_id m) s = Some (m\<lparr>md_state := Running\<rparr>) \<and> wait_while_in_states (md_id m) [Resuming] s = Blocked"
  using assms
  by (auto simp: resume_race_def store_new_def store_section_def add_section_def update_state_section_def index_expiry_def
      notify_state_def Let_def wait_while_in_states_def subscribe_def wait_for_def store_get_def split: option.split)

definition sample_sandbox :: "unit SandboxMetadata" where
  "sample_sandbox =
     \<lparr>md_id = 7, template_builder = False, snapshot_id = ''base'', snapshot_alias = None, md_state = Paused, created_at = 5,
      timeout = Some 10, timeout_action = TimeoutPause, expires_at = Some 15, auto_resume = False, user_metadata = None, payload = ()\<rparr>"

theorem stale_notification_blocks_witness:
  "\<exists>s. event_run (resume_race sample_sandbox) (store_new, []) = Some (s, [])
    \<and> store_get 7 s = Some (sample_sandbox\<lparr>md_state := Running\<rparr>) \<and> wait_while_in_states 7 [Resuming] s = Blocked"
  using stale_notification_blocks [of sample_sandbox] by (simp add: sample_sandbox_def)

definition sample_store_ops :: "unit store_op list" where
  "sample_store_ops =
     [Add sample_sandbox, Add (sample_sandbox\<lparr>md_id := 8, expires_at := Some 3\<rparr>), UpdateStateIfState 7 Resuming [Paused],
      UpdateIfState 8 [Paused] (update_timeout_from (EnsureMinimum 20) 1), Update (sample_sandbox\<lparr>md_id := 9\<rparr>), Remove 4]"

lemma sample_ops_ok: "list_all op_keeps_id sample_store_ops"
  by (simp add: sample_store_ops_def op_keeps_id_def update_timeout_from_def set_timeout_from_def Let_def)

lemma sample_resuming: "store_get 7 (snd (store_run sample_store_ops store_new)) = Some (sample_sandbox\<lparr>md_state := Resuming\<rparr>)"
  by (simp add: sample_store_ops_def store_step_def store_section_def store_sections store_new_def Let_def index_expiry_def
      deindex_expiry_def notify_state_def sample_sandbox_def update_timeout_from_def set_timeout_from_def checked_add_def
      SYSTEM_TIME_LIMIT_def store_get_def)

theorem list_expired_exact_witness:
  "sample_sandbox\<lparr>md_state := Resuming\<rparr> \<in> set (list_expired 16 (snd (store_run sample_store_ops store_new)))
   \<and> sample_sandbox\<lparr>md_state := Resuming\<rparr> \<notin> set (list_expired 14 (snd (store_run sample_store_ops store_new)))"
proof -
  note exact = list_expired_exact [OF sample_ops_ok prod.collapse [symmetric]]
  have "is_expired 16 (sample_sandbox\<lparr>md_state := Resuming\<rparr>)" "\<not> is_expired 14 (sample_sandbox\<lparr>md_state := Resuming\<rparr>)"
    by (simp_all add: is_expired_def sample_sandbox_def)
  then show ?thesis using exact [of 16] exact [of 14] sample_resuming by blast
qed


end
