(* ===== verification/Spec2Isabelle.thy ===== *)
theory Spec2Isabelle
  imports Lsmt_Stack Id_Allocator Network_Slots Pagination Metadata_Store
begin

text \<open>
  AgentENV runs sandboxes (micro virtual machines) whose disks are stacks of layers and whose life cycle an
  orchestrator serves over HTTP. This development models five parts of it and proves what they promise;
  paths are relative to \<^verbatim>\<open>src/\<close>.

  \<^bold>\<open>The storage layer\<close> (\<^verbatim>\<open>storage/overlaybd/src\<close>). A virtual disk is a stack of files in the LSMT format: sealed
  layers below, at most one writable layer on top. A guest's reads, writes and discards go to the
  writable layer, whose index maps 512-byte blocks to places in the layers; sealing turns it into one more
  read-only layer.
    \<^item> \<open>Lsmt_Index\<close> is \<^verbatim>\<open>lsmt/index.rs\<close>: segments, mappings, the read-only, mutable and combined index. An
      index denotes a map from blocks to cells (\<open>imap\<close>, \<open>combo_map\<close>). Lookup, insertion, merge and
      compression are shown to refine that map; the locale \<open>log_index\<close> is the trait \<^verbatim>\<open>LogIndex\<close> and is
      interpreted for the three index types.
    \<^item> \<open>Lsmt_Format\<close> is \<^verbatim>\<open>lsmt/format.rs\<close> and the header fields of \<^verbatim>\<open>lsmt/file/helper.rs\<close>, over machine words with the
      source's masks: round trips of packed mappings and headers, and what truncation keeps.
    \<^item> \<open>Virtual_File\<close> is \<^verbatim>\<open>backend/local.rs\<close>, \<^verbatim>\<open>io/vfile_io.rs\<close> and \<^verbatim>\<open>sys/release_space.rs\<close> over a model of a host
      file (length, bytes, allocated blocks, bound on its size). The locale \<open>virtual_file\<close> is the trait of
      files, interpreted for local files here and for writable layers in \<open>Lsmt_Device\<close>.
    \<^item> \<open>Lsmt_Read\<close>, \<open>Lsmt_File\<close>, \<open>Lsmt_Write\<close> and \<open>Lsmt_Device\<close> are \<^verbatim>\<open>lsmt/file/readwrite.rs\<close>: the read path, the
      three layouts of a writable layer (log-structured, sparse, hybrid), group commit and discards. The
      contract is the device, a function from byte offsets to bytes: writes overlay it, discards zero it,
      reads return it, and a history of operations is the sequence of their effects on it, also when an
      operation fails part of the way.
    \<^item> \<open>Lsmt_Open\<close> and \<open>Lsmt_Log\<close> are creation, opening, resizing and sealing, and the index file as a log: what
      was written and flushed is recovered by opening the files again.
    \<^item> \<open>Lsmt_Stack\<close> is \<^verbatim>\<open>lsmt/file/readonly.rs\<close> and \<^verbatim>\<open>lsmt/file/stack.rs\<close>: a stack shows the newest layer that maps a
      block, a sealed layer reopens with the contents it had, and sealing on a stack keeps the device.

  \<^bold>\<open>The id allocator\<close> (\<open>Id_Allocator\<close>, \<^verbatim>\<open>storage/util/src/id_allocator.rs\<close>) refines a set of occupied ids.

  \<^bold>\<open>The warm pool\<close> (\<^verbatim>\<open>crates/warm-pool/src/lib.rs\<close>). \<open>Warm_Pool\<close> has its operations as sections of the pool's
  locks; \<open>Warm_Pool_Threads\<close> interleaves any number of threads and the maintenance worker as a step relation. By
  rule induction on the reachable states: resources are conserved, no wakeup is lost, a drained pool stays
  drained, and the worker can be joined.

  \<^bold>\<open>The sandbox network\<close> (\<open>Network_Slots\<close>, \<^verbatim>\<open>src/cfg/network.rs\<close> and \<^verbatim>\<open>src/sandbox/network\<close>). The manager composes the
  address plan, a bitmap of slot indices and a warm pool of slots. A checked plan gives slots disjoint
  addresses, every index in use has one owner, and the worker of the pool settles when refills succeed.

  \<^bold>\<open>The orchestrator\<close>. \<open>Metadata_Store\<close> is \<^verbatim>\<open>src/orchestrator/store\<close>: the records, the expiry index and the watch
  channels, with the notifications as steps of their own. \<open>Pagination\<close> is \<^verbatim>\<open>src/api/impls/pagination.rs\<close> and
  the cursors of the sandbox listing: following the page tokens enumerates the listing.

  \<^bold>\<open>Conventions.\<close> Unsigned integers are naturals with every operator that can wrap written out (\<open>Prelude\<close>) or
  machine words where the code works on bits. Fallible stateful operations return a sum and the state they
  leave (\<open>outcome\<close>); a panic is the error \<open>Panic\<close>.

  \<^bold>\<open>Bounds and fuel.\<close> The chunk loops of reads, writes and discards are bounded by the number of requested bytes;
  each iteration makes progress, and the lemmas \<open>read_internal_into_ok\<close>, \<open>LSMTFile_write_succeeds\<close> and
  \<open>LSMTFile_linear_history\<close> show that the bound (the error \<open>Diverges\<close>) is not reached. \<open>maintenance_worker_loop\<close>
  takes the number of the worker's steps and \<open>follow_pages\<close> the number of requests; the properties say
  how many are enough.

  \<^bold>\<open>Parameters.\<close> SHA-256, the \<^verbatim>\<open>uuid\<close>, \<^verbatim>\<open>ipnetwork\<close>, base64 and RFC 3339 crates, the choice of a free bit and the
  kernel's network operations are arguments, with the documented behaviour that is needed as named
  hypotheses (\<open>uuid_crate_ok\<close>, \<open>ipnetwork_ok\<close>, \<open>codec_ok\<close>, \<open>next_free_ok\<close>, \<open>kernel_works\<close>) and a concrete instance
  in the witnesses.

  \<^bold>\<open>Not modelled.\<close> The linearized B+tree index, which nothing uses; compaction of a stack and premerged index
  files; task scheduling and cancellation inside a writable layer, whose operations are sequential here;
  the io_uring path, which reaches the same system calls; ZFile compression, remote back ends and their
  caches, image, template and snapshot workflows, the virtual machine runtime, the peer-to-peer
  transport, the command-line tools and the gateway, which are asynchronous input and output
  around external crates and services; generated clients.
\<close>

end
